(* ===== verification/Prelude.thy ===== *)
theory Prelude
  imports Main "HOL-Library.Word" "HOL-Library.AList"
begin

text \<open>
  Shared vocabulary of the development: the machine integers and byte strings of the Rust
  sources, durations, the two \<^theory_text>\<open>named_theorems\<close> collections that the component
  theories extend, generic lemmas on association lists (the model of \<^verbatim>\<open>HashMap\<close>), and
  the interfaces several components share: a keyed table, a first-in-first-out queue, a transition
  system with an invariant, and a polling loop.
\<close>

named_theorems frame_simps \<open>which fields an operation leaves unchanged\<close>
named_theorems keeps_inv \<open>operations preserve the invariant of their component\<close>

subsection \<open>Machine integers, bytes, time\<close>

type_synonym u8 = "8 word"
type_synonym u16 = "16 word"
type_synonym u32 = "32 word"

text \<open>Rust's \<^verbatim>\<open>i8\<close> is the same eight bits, read by \<open>sint\<close>.\<close>
type_synonym i8 = "8 word"

type_synonym bytes = "u8 list"

text \<open>\<^verbatim>\<open>std::time::Duration\<close> and points of the monotonic clock, in nanoseconds.\<close>
type_synonym duration = nat
type_synonym instant = nat

definition from_secs :: "nat \<Rightarrow> duration" where
  "from_secs n = n * 1000000000"

definition from_millis :: "nat \<Rightarrow> duration" where
  "from_millis n = n * 1000000"

lemma from_millis_mono [simp]: "from_millis a \<le> from_millis b \<longleftrightarrow> a \<le> b"
  by (simp add: from_millis_def)

lemma from_secs_millis: "from_secs n = from_millis (1000 * n)"
  by (simp add: from_secs_def from_millis_def)

subsection \<open>Words\<close>

lemma unat_le_max_u16: "unat (x::u16) \<le> 65535"
  using unsigned_less [of x, where ?'a = nat] by simp

lemma u16_minus_1: "(- 1 :: u16) = 65535"
  by simp

lemma u16_succ_0_iff: "x + 1 = (0::u16) \<longleftrightarrow> unat x = 65535"
proof
  assume "x + 1 = 0"
  then have "x = 65535" unfolding u16_minus_1 [symmetric] by (simp add: eq_neg_iff_add_eq_0)
  then show "unat x = 65535" by simp
next
  assume "unat x = 65535"
  then have "unat x = unat (65535 :: u16)" by simp
  then have "x = 65535" by (rule unsigned_word_eqI)
  then show "x + 1 = 0" by simp
qed

lemma unat_u16_succ: "unat ((x::u16) + 1) = (if unat x = 65535 then 0 else Suc (unat x))"
  using u16_succ_0_iff [of x] by (cases "x + 1 = 0") (auto simp: unatSuc add.commute)

subsection \<open>Association lists as hash maps\<close>

lemma set_delete: "set (AList.delete k al) = {p \<in> set al. fst p \<noteq> k}"
  by (auto simp: AList.delete_eq)

lemma set_update_distinct:
  "distinct (map fst al) \<Longrightarrow> set (AList.update k v al) = insert (k, v) {p \<in> set al. fst p \<noteq> k}"
  by (induction al) (auto simp: image_iff)

lemma map_of_SomeI: "distinct (map fst al) \<Longrightarrow> (k, v) \<in> set al \<Longrightarrow> map_of al k = Some v"
  by (rule map_of_is_SomeI)

subsection \<open>Interface: a keyed table\<close>

text \<open>
  What the session relies on of the map of outstanding commands. The last lemma is what a
  two-phase completion needs: taking an entry out and putting the same entry back is invisible.
\<close>

locale keyed_table =
  fixes lookup :: "'m \<Rightarrow> 'k \<Rightarrow> 'v option"
    and insert :: "'k \<Rightarrow> 'v \<Rightarrow> 'm \<Rightarrow> 'm"
    and remove :: "'k \<Rightarrow> 'm \<Rightarrow> 'm"
    and wf :: "'m \<Rightarrow> bool"
  assumes lookup_insert: "wf m \<Longrightarrow> lookup (insert k v m) = (lookup m)(k \<mapsto> v)"
    and lookup_remove: "wf m \<Longrightarrow> lookup (remove k m) = (lookup m)(k := None)"
    and wf_insert: "wf m \<Longrightarrow> wf (insert k v m)"
    and wf_remove: "wf m \<Longrightarrow> wf (remove k m)"
begin

lemma lookup_insert_same: "wf m \<Longrightarrow> lookup (insert k v m) k = Some v"
  by (simp add: lookup_insert)

lemma lookup_insert_other: "wf m \<Longrightarrow> k' \<noteq> k \<Longrightarrow> lookup (insert k v m) k' = lookup m k'"
  by (simp add: lookup_insert)

lemma remove_insert: "wf m \<Longrightarrow> lookup (remove k (insert k v m)) = lookup (remove k m)"
  by (simp add: lookup_insert lookup_remove wf_insert)

lemma reinsert: "wf m \<Longrightarrow> lookup m k = Some v \<Longrightarrow> lookup (insert k v (remove k m)) = lookup m"
  by (auto simp: lookup_insert lookup_remove wf_remove)

end

subsection \<open>Interface: a first-in-first-out channel\<close>

text \<open>
  What the receiving side of an unbounded channel promises. Whatever was sent in one order comes
  out in that order, and a receiver that takes everything gets exactly what was sent.
\<close>

locale fifo_channel =
  fixes send :: "'a \<Rightarrow> 'q \<Rightarrow> 'q"
    and recv :: "'q \<Rightarrow> ('a \<times> 'q) option"
    and contents :: "'q \<Rightarrow> 'a list"
  assumes contents_send: "contents (send x q) = contents q @ [x]"
    and recv_None: "recv q = None \<longleftrightarrow> contents q = []"
    and recv_Some: "recv q = Some (x, q') \<Longrightarrow> contents q = x # contents q'"
begin

lemma contents_sends: "contents (fold send xs q) = contents q @ xs"
  by (induction xs arbitrary: q) (simp_all add: contents_send)

lemma recv_oldest: "contents q = x # xs \<Longrightarrow> \<exists>q'. recv q = Some (x, q') \<and> contents q' = xs"
proof -
  assume c: "contents q = x # xs"
  then obtain y q' where r: "recv q = Some (y, q')"
    using recv_None by (cases "recv q") auto
  from recv_Some [OF r] c show ?thesis using r by simp
qed

lemma recv_after_send_empty: "contents q = [] \<Longrightarrow> \<exists>q'. recv (send x q) = Some (x, q') \<and> contents q' = []"
  using recv_oldest [of "send x q" x "[]"] by (simp add: contents_send)

end

subsection \<open>Interface: a transition system with an invariant\<close>

text \<open>What holds at the start and is kept by every step holds in every state of every run.\<close>

locale step_invariant =
  fixes start :: 's
    and step :: "'s \<Rightarrow> 's \<Rightarrow> bool"
    and inv :: "'s \<Rightarrow> bool"
  assumes start_inv: "inv start"
    and step_inv: "inv s \<Longrightarrow> step s t \<Longrightarrow> inv t"
begin

lemma run_inv: "step\<^sup>*\<^sup>* start s \<Longrightarrow> inv s"
  by (induction rule: rtranclp_induct) (auto intro: start_inv step_inv)

lemma run_inv_from: "step\<^sup>*\<^sup>* s t \<Longrightarrow> inv s \<Longrightarrow> inv t"
  by (induction rule: rtranclp_induct) (auto intro: step_inv)

end

subsection \<open>Interface: a polling loop\<close>

text \<open>
  A loop that tests, returns on success, and otherwise sleeps for a fixed interval and tests again.
  It returns if and only if some test succeeds, and then with the result of the first that does.
\<close>

locale polling =
  fixes loop :: "instant \<Rightarrow> 'r option"
    and test :: "instant \<Rightarrow> 'r option"
    and interval :: duration
  assumes loop_unfold: "loop now = (case test now of Some r \<Rightarrow> Some r | None \<Rightarrow> loop (now + interval))"
    and loop_Some: "loop now = Some r \<Longrightarrow> \<exists>n. test (now + n * interval) = Some r"
begin

lemma loop_skips:
  "(\<And>k. k < n \<Longrightarrow> test (now + k * interval) = None) \<Longrightarrow> loop now = loop (now + n * interval)"
proof (induction n arbitrary: now)
  case (Suc n)
  have step: "loop now = loop (now + interval)"
    using Suc.prems [of 0] loop_unfold [of now] by simp
  have "test (now + interval + k * interval) = None" if "k < n" for k
    using Suc.prems [of "Suc k"] that by (simp add: add.assoc)
  from Suc.IH [OF this] step show ?case by (simp add: add.assoc)
qed simp

lemma loop_first:
  assumes "\<And>k. k < n \<Longrightarrow> test (now + k * interval) = None" "test (now + n * interval) = Some r"
  shows "loop now = Some r"
  using loop_skips [of n now] loop_unfold [of "now + n * interval"] assms by simp

lemma loop_returns_iff: "(\<exists>r. loop now = Some r) \<longleftrightarrow> (\<exists>n. test (now + n * interval) \<noteq> None)"
proof
  assume "\<exists>n. test (now + n * interval) \<noteq> None"
  then obtain n where n: "test (now + n * interval) \<noteq> None" "\<And>k. k < n \<Longrightarrow> test (now + k * interval) = None"
    using exists_least_iff [of "\<lambda>n. test (now + n * interval) \<noteq> None"] by blast
  from n(1) obtain r where "test (now + n * interval) = Some r" by blast
  from loop_first [of n now, OF n(2) this] show "\<exists>r. loop now = Some r" by blast
next
  assume "\<exists>r. loop now = Some r"
  then show "\<exists>n. test (now + n * interval) \<noteq> None" using loop_Some by blast
qed

end

end
