(* ===== verification/RustStd.thy ===== *)
theory RustStd
  imports Prelude
begin

text \<open>
  The parts of the Rust language and standard library that the client computes with:
  decimal and hexadecimal formatting, \<^verbatim>\<open>u16::from_str\<close>, \<^verbatim>\<open>str::rsplit_once\<close>,
  \<^verbatim>\<open>Path::file_name\<close> on Unix, saturating subtraction, shifts with and without overflow
  checks, and the \<^verbatim>\<open>f32\<close> arithmetic of the back-off (round to nearest even, saturating cast).
  Strings are their UTF-8 bytes.
\<close>

unbundle bit_operations_syntax

subsection \<open>Formatting integers\<close>

definition digit_char :: "nat \<Rightarrow> char" where
  "digit_char d = char_of (if d < 10 then 48 + d else 55 + d)"

fun show_dec :: "nat \<Rightarrow> string" where
  "show_dec n = (if n < 10 then [digit_char n] else show_dec (n div 10) @ [digit_char (n mod 10)])"

declare show_dec.simps [simp del]

text \<open>\<^verbatim>\<open>{:04X}\<close>: upper case, padded with zeros to four digits.\<close>
definition show_hex4 :: "u16 \<Rightarrow> string" where
  "show_hex4 w = map (\<lambda>i. digit_char (unat w div 16 ^ i mod 16)) [3, 2, 1, 0]"

text \<open>\<^verbatim>\<open>{:02X}\<close> of a byte.\<close>
definition show_hex2 :: "u8 \<Rightarrow> string" where
  "show_hex2 w = map (\<lambda>i. digit_char (unat w div 16 ^ i mod 16)) [1, 0]"

fun join_comma :: "string list \<Rightarrow> string" where
  "join_comma [] = ''''"
| "join_comma [x] = x"
| "join_comma (x # xs) = x @ '', '' @ join_comma xs"

text \<open>\<^verbatim>\<open>{:?}\<close> of a \<^verbatim>\<open>Vec\<close> of integers.\<close>
definition debug_list :: "nat list \<Rightarrow> string" where
  "debug_list ns = ''['' @ join_comma (map show_dec ns) @ '']''"

subsection \<open>Parsing integers\<close>

definition digit_val :: "char \<Rightarrow> nat option" where
  "digit_val c = (let n = of_char c :: nat in if 48 \<le> n \<and> n < 58 then Some (n - 48) else None)"

text \<open>The loop of \<^verbatim>\<open>from_str_radix\<close>: multiply, add, stop at the first digit that overflows.\<close>
fun parse_digits :: "nat \<Rightarrow> nat \<Rightarrow> string \<Rightarrow> nat option" where
  "parse_digits bound acc [] = Some acc"
| "parse_digits bound acc (c # cs) =
     (case digit_val c of
        None \<Rightarrow> None
      | Some d \<Rightarrow> if acc * 10 + d < bound then parse_digits bound (acc * 10 + d) cs else None)"

text \<open>An empty string is an error; one leading plus sign is accepted, but not alone.\<close>
definition parse_u16 :: "string \<Rightarrow> u16 option" where
  "parse_u16 s =
     (case s of
        [] \<Rightarrow> None
      | c # cs \<Rightarrow>
          if c = CHR ''+'' then (if cs = [] then None else map_option of_nat (parse_digits 65536 0 cs))
          else map_option of_nat (parse_digits 65536 0 s))"

subsection \<open>Splitting strings\<close>

fun rsplit_once :: "char \<Rightarrow> string \<Rightarrow> (string \<times> string) option" where
  "rsplit_once c [] = None"
| "rsplit_once c (x # xs) =
     (case rsplit_once c xs of
        Some (a, b) \<Rightarrow> Some (x # a, b)
      | None \<Rightarrow> if x = c then Some ([], xs) else None)"

fun split_on :: "char \<Rightarrow> string \<Rightarrow> string list" where
  "split_on c [] = [[]]"
| "split_on c (x # xs) =
     (if x = c then [] # split_on c xs
      else case split_on c xs of [] \<Rightarrow> [[x]] | y # ys \<Rightarrow> (x # y) # ys)"

text \<open>
  Components of a Unix path: repeated and trailing slashes vanish, and so does every dot
  component but a leading one. The last component is the file name unless it is a dot or
  two dots.
\<close>
definition path_components :: "string \<Rightarrow> string list" where
  "path_components p =
     (let parts = split_on (CHR ''/'') p;
          keep = filter (\<lambda>x. x \<noteq> [] \<and> x \<noteq> ''.'') parts
      in if hd parts = ''.'' then ''.'' # keep else keep)"

definition path_file_name :: "string \<Rightarrow> string option" where
  "path_file_name p =
     (case rev (path_components p) of
        [] \<Rightarrow> None
      | x # _ \<Rightarrow> if x = ''.'' \<or> x = ''..'' then None else Some x)"

subsection \<open>Integer operations\<close>

definition saturating_sub :: "'a::len word \<Rightarrow> 'a word \<Rightarrow> 'a word" where
  "saturating_sub a b = (if a < b then 0 else a - b)"

text \<open>
  \<^verbatim>\<open>1u16 << n\<close>. A shift by sixteen or more panics in a build with overflow checks (the
  default debug profile) and shifts by \<open>n mod 16\<close> in a build without (the release profile).
\<close>
definition shl1_u16 :: "bool \<Rightarrow> u8 \<Rightarrow> u16 option" where
  "shl1_u16 overflow_checks n =
     (if overflow_checks \<and> 16 \<le> unat n then None else Some (push_bit (unat n mod 16) 1))"

end
