(* ===== verification/Errors.thy ===== *)
theory Errors
  imports RustStd
begin

text \<open>
  The error taxonomy of \<^verbatim>\<open>src/errors.rs\<close> and the copying helper \<^verbatim>\<open>clone_kind\<close>
  of \<^verbatim>\<open>src/dongle.rs\<close>. \<open>error_code\<close> is the wire enum of the protocol crate with exactly
  the variants that \<^verbatim>\<open>ClientError::from_wire\<close> matches on. A \<^verbatim>\<open>std::io::Error\<close> is kept
  as the text it displays. \<open>client_result\<close> is \<^verbatim>\<open>Result<T, ClientError>\<close> with one more
  value for a thread that panics.
\<close>

subsection \<open>Data\<close>

datatype error_code =
    ENotConfigured
  | EBusy
  | EParam
  | ELength
  | EModulation
  | EUnknownCmd
  | ERadio
  | EFrame
  | EInternal
  | Unknown u16

datatype client_error =
    NotConfigured
  | Busy
  | Param
  | Length
  | Modulation
  | UnknownCmd
  | Radio
  | Frame
  | Internal
  | UnknownCode u16
  | ChannelBusy
  | Cancelled
  | Timeout string
  | TransportClosed string
  | ReaderExited
  | BadFrame string
  | EncodeFailed string
  | Io string
  | ConfigNotSupported string
  | Other string

datatype 'a client_result = Ok 'a | Err client_error | Panic

subsection \<open>Operations\<close>

fun is_retryable :: "client_error \<Rightarrow> bool" where
  "is_retryable ChannelBusy = True"
| "is_retryable Busy = True"
| "is_retryable _ = False"

fun from_wire :: "error_code \<Rightarrow> client_error" where
  "from_wire ENotConfigured = NotConfigured"
| "from_wire EBusy = Busy"
| "from_wire EParam = Param"
| "from_wire ELength = Length"
| "from_wire EModulation = Modulation"
| "from_wire EUnknownCmd = UnknownCmd"
| "from_wire ERadio = Radio"
| "from_wire EFrame = Frame"
| "from_wire EInternal = Internal"
| "from_wire (Unknown raw) = UnknownCode raw"

fun clone_kind :: "client_error \<Rightarrow> client_error" where
  "clone_kind NotConfigured = NotConfigured"
| "clone_kind Busy = Busy"
| "clone_kind Param = Param"
| "clone_kind Length = Length"
| "clone_kind Modulation = Modulation"
| "clone_kind UnknownCmd = UnknownCmd"
| "clone_kind Radio = Radio"
| "clone_kind Frame = Frame"
| "clone_kind Internal = Internal"
| "clone_kind (UnknownCode c) = UnknownCode c"
| "clone_kind ChannelBusy = ChannelBusy"
| "clone_kind Cancelled = Cancelled"
| "clone_kind (Timeout what) = Timeout what"
| "clone_kind (TransportClosed s) = TransportClosed s"
| "clone_kind ReaderExited = ReaderExited"
| "clone_kind (BadFrame s) = BadFrame s"
| "clone_kind (EncodeFailed s) = EncodeFailed s"
| "clone_kind (Io e) = Other (''io: '' @ e)"
| "clone_kind (ConfigNotSupported reason) = ConfigNotSupported reason"
| "clone_kind (Other s) = Other s"

text \<open>
  The \<^verbatim>\<open>Display\<close> texts of the derive attributes. The dash in the text of a busy channel is
  U+2014.
\<close>
fun display_error :: "client_error \<Rightarrow> string" where
  "display_error NotConfigured = ''device is not configured (ENOTCONFIGURED)''"
| "display_error Busy = ''firmware TX queue is full (EBUSY)''"
| "display_error Param = ''parameter out of range (EPARAM)''"
| "display_error Length = ''payload length wrong (ELENGTH)''"
| "display_error Modulation = ''modulation not supported (EMODULATION)''"
| "display_error UnknownCmd = ''unknown command (EUNKNOWN_CMD)''"
| "display_error Radio = ''radio hardware error (ERADIO)''"
| "display_error Frame = ''framing error (EFRAME)''"
| "display_error Internal = ''firmware internal error (EINTERNAL)''"
| "display_error (UnknownCode c) = ''unknown error code 0x'' @ show_hex4 c"
| "display_error ChannelBusy = ''channel busy '' @ [CHR 0xE2, CHR 0x80, CHR 0x94] @ '' CAD detected activity''"
| "display_error Cancelled = ''TX cancelled before airtime''"
| "display_error (Timeout what) = ''timed out waiting for '' @ what"
| "display_error (TransportClosed s) = ''transport closed: '' @ s"
| "display_error ReaderExited = ''session reader exited''"
| "display_error (BadFrame s) = ''inbound frame corrupted: '' @ s"
| "display_error (EncodeFailed s) = ''frame encode failed: '' @ s"
| "display_error (Io e) = ''I/O error: '' @ e"
| "display_error (ConfigNotSupported reason) = ''config not supported by device: '' @ reason"
| "display_error (Other s) = s"

subsection \<open>Lemmas\<close>

lemma is_retryable_iff: "is_retryable e \<longleftrightarrow> e = ChannelBusy \<or> e = Busy"
  by (cases e) auto

lemma is_retryable_from_wire [simp]: "is_retryable (from_wire c) \<longleftrightarrow> c = EBusy"
  by (cases c) auto

lemma is_retryable_clone_kind [simp]: "is_retryable (clone_kind e) = is_retryable e"
  by (cases e) auto

lemma clone_kind_idem [simp]: "clone_kind (clone_kind e) = clone_kind e"
  by (cases e) auto

lemma clone_kind_eq_iff: "clone_kind e = e \<longleftrightarrow> (\<forall>s. e \<noteq> Io s)"
  by (cases e) auto

lemma from_wire_inject [simp]: "from_wire c = from_wire c' \<longleftrightarrow> c = c'"
  by (cases c; cases c') auto

text \<open>The copy of an error reads like the original, unless that is an I/O error.\<close>

lemma display_clone_kind: "display_error (clone_kind e) = display_error e \<longleftrightarrow> (\<forall>s. e \<noteq> Io s)"
  by (cases e) simp_all

end
