(* ===== verification/Protocol.thy ===== *)
theory Protocol
  imports Errors
begin

text \<open>
  The interface of the crate \<^verbatim>\<open>donglora-protocol\<close>, which is not part of this repository.
  Its plain data is declared with the fields and variants the client sources name; its constants
  and codecs are a parameter, one record \<open>proto\<close> of functions that every definition using the
  wire takes as an argument. The type parameters are: \<open>'i\<close> the device information, \<open>'m\<close> a radio
  configuration, \<open>'rx\<close> a received packet, \<open>'d\<close> the state of the frame decoder. What the client
  relies on of the parameter is stated by the predicates at the end and appears as a
  hypothesis wherever it is used.
\<close>

subsection \<open>Data of the protocol crate\<close>

datatype tx_result = Transmitted | ChannelBusyResult | CancelledResult

record tx_done =
  td_result :: tx_result
  airtime_us :: u32

text \<open>
  A SET\_CONFIG answer: the result code, the owner and the configuration now in force. The first two
  are enums of the crate whose variants the client does not look at; they are kept as numbers.
\<close>
datatype 'm set_config_result = SetConfigResult (result_code: u8) (owner: u8) (current: 'm)

datatype ('i, 'm) ok_payload = OkEmpty | OkInfo 'i | OkSetConfig "'m set_config_result"

datatype frame_result = FrameOk u8 u16 bytes | FrameErr

subsection \<open>Constants and codecs\<close>

record ('i, 'm, 'rx, 'd) proto =
  TYPE_PING :: u8
  TYPE_GET_INFO :: u8
  TYPE_SET_CONFIG :: u8
  TYPE_TX :: u8
  TYPE_RX_START :: u8
  TYPE_RX_STOP :: u8
  TYPE_OK :: u8
  TYPE_ERR :: u8
  TYPE_RX :: u8
  TYPE_TX_DONE :: u8
  MAX_PAYLOAD_FIELD :: nat
  \<comment> \<open>\<^verbatim>\<open>encode_frame\<close> into a buffer of \<^verbatim>\<open>MAX_WIRE_FRAME\<close> bytes: the wire bytes, or the
      text of the error.\<close>
  encode_frame :: "u8 \<Rightarrow> u16 \<Rightarrow> bytes \<Rightarrow> string + bytes"
  \<comment> \<open>\<^verbatim>\<open>FrameDecoder::new\<close> and \<^verbatim>\<open>FrameDecoder::feed\<close>: the results in the order the
      callback gets them.\<close>
  decoder_new :: 'd
  decoder_feed :: "'d \<Rightarrow> bytes \<Rightarrow> 'd \<times> frame_result list"
  decode_rx :: "bytes \<Rightarrow> 'rx option"
  decode_err_payload :: "bytes \<Rightarrow> error_code option"
  decode_tx_done :: "bytes \<Rightarrow> tx_done option"
  parse_ok_for :: "u8 \<Rightarrow> bytes \<Rightarrow> ('i, 'm) ok_payload option"
  \<comment> \<open>\<^verbatim>\<open>Command::SetConfig(m).encode_payload\<close>.\<close>
  encode_set_config :: "'m \<Rightarrow> string + bytes"
  \<comment> \<open>\<^verbatim>\<open>TxFlags { skip_cad }.as_byte()\<close>.\<close>
  tx_flags_byte :: "bool \<Rightarrow> u8"
  \<comment> \<open>The \<^verbatim>\<open>Debug\<close> texts that end up in error messages.\<close>
  debug_info :: "'i \<Rightarrow> string"
  debug_set_config_result :: "'m set_config_result \<Rightarrow> string"
  debug_tx_done :: "tx_done \<Rightarrow> string"

subsection \<open>What the client relies on\<close>

text \<open>The command identifiers differ from each other, and so do the event identifiers.\<close>
definition distinct_types :: "('i, 'm, 'rx, 'd) proto \<Rightarrow> bool" where
  "distinct_types P \<longleftrightarrow>
     distinct [TYPE_PING P, TYPE_GET_INFO P, TYPE_SET_CONFIG P, TYPE_TX P, TYPE_RX_START P, TYPE_RX_STOP P]
     \<and> distinct [TYPE_OK P, TYPE_ERR P, TYPE_RX P, TYPE_TX_DONE P]"

lemma distinct_typesD:
  assumes "distinct_types P"
  shows "TYPE_PING P \<noteq> TYPE_TX P" "TYPE_GET_INFO P \<noteq> TYPE_TX P" "TYPE_SET_CONFIG P \<noteq> TYPE_TX P"
    "TYPE_RX_START P \<noteq> TYPE_TX P" "TYPE_RX_STOP P \<noteq> TYPE_TX P"
    "TYPE_OK P \<noteq> TYPE_ERR P" "TYPE_OK P \<noteq> TYPE_RX P" "TYPE_OK P \<noteq> TYPE_TX_DONE P"
    "TYPE_ERR P \<noteq> TYPE_RX P" "TYPE_ERR P \<noteq> TYPE_TX_DONE P" "TYPE_RX P \<noteq> TYPE_TX_DONE P"
  using assms by (auto simp: distinct_types_def)

text \<open>The payload of an OK is parsed as what the command it answers asks for.\<close>
definition ok_payloads_typed :: "('i, 'm, 'rx, 'd) proto \<Rightarrow> bool" where
  "ok_payloads_typed P \<longleftrightarrow>
     (\<forall>cmd payload. case parse_ok_for P cmd payload of
        None \<Rightarrow> True
      | Some OkEmpty \<Rightarrow> cmd \<noteq> TYPE_GET_INFO P \<and> cmd \<noteq> TYPE_SET_CONFIG P
      | Some (OkInfo i) \<Rightarrow> cmd = TYPE_GET_INFO P
      | Some (OkSetConfig r) \<Rightarrow> cmd = TYPE_SET_CONFIG P)"

end
