(* ===== verification/Session.thy ===== *)
theory Session
  imports Protocol RustStd
begin

text \<open>
  \<^verbatim>\<open>src/session.rs\<close>: the tag counter, the map of outstanding commands, the one-shot
  completion channels, the two event queues, the reader task and the typed commands.

  The state of a session is one record. A one-shot channel is an entry of \<open>chans\<close>: open while its
  sender exists and has not fired, then either the response sent or the mark that the sender was
  dropped unsent. The reader task owns the sending ends of both queues, so they are closed once it
  no longer runs. \<open>written\<close> records every frame that was handed to the transport, in order.

  A command runs in a \<open>world\<close>: the clock, the results of the reader's future reads with the
  instants at which the reader gets them, the outcome of each write and how long it takes, and the
  random draws. The
  definitions are functions of the world, so a theorem that quantifies over it speaks of every
  behaviour of the device and of the transport.
\<close>

subsection \<open>State\<close>

datatype ('i, 'm) session_response =
    RespEmpty
  | RespInfo 'i
  | RespSetConfig "'m set_config_result"
  | RespTxDone tx_done
  | RespErr client_error

record pending =
  cmd_type :: u8
  waker :: nat

datatype ('i, 'm) oneshot = ChanOpen | ChanSent "('i, 'm) session_response" | ChanDropped

record ('i, 'm, 'rx, 'd) session =
  next_tag :: u16
  pending_map :: "(u16 \<times> pending) list"
  chans :: "nat \<Rightarrow> ('i, 'm) oneshot"
  next_chan :: nat
  rx_queue :: "'rx list"
  async_err_queue :: "client_error list"
  decoder :: 'd
  reader_running :: bool
  reader_handle :: bool
  closed :: bool
  written :: "bytes list"

datatype read_result = ReadOk bytes | ReadErr

datatype write_outcome = WriteOk | WriteErr string | FlushErr string

record world =
  clock :: instant
  arrivals :: "(instant \<times> read_result) list"
  write_outcomes :: "nat \<Rightarrow> write_outcome"
  write_time :: "nat \<Rightarrow> duration"
  writes :: nat
  random_range :: "nat \<Rightarrow> u32 \<Rightarrow> u32"
  draws :: nat

definition spawn :: "('i, 'm, 'rx, 'd) proto \<Rightarrow> ('i, 'm, 'rx, 'd) session" where
  "spawn P =
     \<lparr>next_tag = 1, pending_map = [], chans = (\<lambda>_. ChanOpen), next_chan = 0,
      rx_queue = [], async_err_queue = [], decoder = decoder_new P,
      reader_running = True, reader_handle = True, closed = False, written = []\<rparr>"

subsection \<open>Tags, channels, outstanding commands\<close>

definition alloc_tag :: "('i, 'm, 'rx, 'd) session \<Rightarrow> u16 \<times> ('i, 'm, 'rx, 'd) session" where
  "alloc_tag s =
     (let tag = next_tag s; t = tag + 1
      in (tag, s\<lparr>next_tag := if t = 0 then 1 else t\<rparr>))"

definition chan_send ::
    "nat \<Rightarrow> ('i, 'm) session_response \<Rightarrow> ('i, 'm, 'rx, 'd) session \<Rightarrow> ('i, 'm, 'rx, 'd) session" where
  "chan_send c r s = s\<lparr>chans := (chans s)(c := ChanSent r)\<rparr>"

definition drop_sender :: "nat \<Rightarrow> ('i, 'm, 'rx, 'd) session \<Rightarrow> ('i, 'm, 'rx, 'd) session" where
  "drop_sender c s = s\<lparr>chans := (chans s)(c := ChanDropped)\<rparr>"

text \<open>\<^verbatim>\<open>HashMap::insert\<close>: an entry under the same key is returned and dropped with its sender.\<close>
definition pending_insert ::
    "u16 \<Rightarrow> pending \<Rightarrow> ('i, 'm, 'rx, 'd) session \<Rightarrow> ('i, 'm, 'rx, 'd) session" where
  "pending_insert tag p s =
     (case map_of (pending_map s) tag of
        Some q \<Rightarrow> (drop_sender (waker q) s)\<lparr>pending_map := AList.update tag p (pending_map s)\<rparr>
      | None \<Rightarrow> s\<lparr>pending_map := AList.update tag p (pending_map s)\<rparr>)"

text \<open>\<^verbatim>\<open>HashMap::remove\<close>, keeping the entry.\<close>
definition pending_take ::
    "u16 \<Rightarrow> ('i, 'm, 'rx, 'd) session \<Rightarrow> pending option \<times> ('i, 'm, 'rx, 'd) session" where
  "pending_take tag s =
     (map_of (pending_map s) tag, s\<lparr>pending_map := AList.delete tag (pending_map s)\<rparr>)"

text \<open>\<^verbatim>\<open>HashMap::remove\<close> as a statement: the entry is dropped, and its sender with it.\<close>
definition pending_remove :: "u16 \<Rightarrow> ('i, 'm, 'rx, 'd) session \<Rightarrow> ('i, 'm, 'rx, 'd) session" where
  "pending_remove tag s =
     (case pending_take tag s of
        (Some q, s') \<Rightarrow> drop_sender (waker q) s'
      | (None, s') \<Rightarrow> s')"

text \<open>Take the whole map and fail every command in it.\<close>
definition wake_all :: "string \<Rightarrow> ('i, 'm, 'rx, 'd) session \<Rightarrow> ('i, 'm, 'rx, 'd) session" where
  "wake_all why s =
     fold (\<lambda>(tag, p). chan_send (waker p) (RespErr (TransportClosed why))) (pending_map s)
       (s\<lparr>pending_map := []\<rparr>)"

subsection \<open>The event queues\<close>

definition push_rx :: "'rx \<Rightarrow> ('i, 'm, 'rx, 'd) session \<Rightarrow> ('i, 'm, 'rx, 'd) session" where
  "push_rx x s = s\<lparr>rx_queue := rx_queue s @ [x]\<rparr>"

definition try_recv_rx ::
    "('i, 'm, 'rx, 'd) session \<Rightarrow> ('rx \<times> ('i, 'm, 'rx, 'd) session) option" where
  "try_recv_rx s = (case rx_queue s of [] \<Rightarrow> None | x # xs \<Rightarrow> Some (x, s\<lparr>rx_queue := xs\<rparr>))"

definition push_err :: "client_error \<Rightarrow> ('i, 'm, 'rx, 'd) session \<Rightarrow> ('i, 'm, 'rx, 'd) session" where
  "push_err e s = s\<lparr>async_err_queue := async_err_queue s @ [e]\<rparr>"

definition try_recv_err ::
    "('i, 'm, 'rx, 'd) session \<Rightarrow> (client_error \<times> ('i, 'm, 'rx, 'd) session) option" where
  "try_recv_err s =
     (case async_err_queue s of [] \<Rightarrow> None | e # es \<Rightarrow> Some (e, s\<lparr>async_err_queue := es\<rparr>))"

function drain_loop ::
    "client_error list \<Rightarrow> ('i, 'm, 'rx, 'd) session \<Rightarrow> client_error list \<times> ('i, 'm, 'rx, 'd) session" where
  "drain_loop out s =
     (case try_recv_err s of
        None \<Rightarrow> (out, s)
      | Some (e, s') \<Rightarrow> drain_loop (out @ [e]) s')"
  by pat_completeness auto
termination
  by (relation "measure (\<lambda>(out, s). length (async_err_queue s))")
     (auto simp: try_recv_err_def split: list.splits)

declare drain_loop.simps [simp del]

definition drain_async_errors ::
    "('i, 'm, 'rx, 'd) session \<Rightarrow> client_error list \<times> ('i, 'm, 'rx, 'd) session" where
  "drain_async_errors s = drain_loop [] s"

subsection \<open>The reader task\<close>

text \<open>The response a tagged frame carries for a command of type \<open>cmd\<close>.\<close>
definition response_for ::
    "('i, 'm, 'rx, 'd) proto \<Rightarrow> u8 \<Rightarrow> u8 \<Rightarrow> bytes \<Rightarrow> ('i, 'm) session_response" where
  "response_for P cmd type_id payload =
     (if type_id = TYPE_OK P then
        (case parse_ok_for P cmd payload of
           Some OkEmpty \<Rightarrow> RespEmpty
         | Some (OkInfo i) \<Rightarrow> RespInfo i
         | Some (OkSetConfig r) \<Rightarrow> RespSetConfig r
         | None \<Rightarrow> RespErr (BadFrame ''OK payload did not parse for command context''))
      else if type_id = TYPE_ERR P then
        (case decode_err_payload P payload of
           Some code \<Rightarrow> RespErr (from_wire code)
         | None \<Rightarrow> RespErr (BadFrame ''bad ERR payload''))
      else if type_id = TYPE_TX_DONE P then
        (case decode_tx_done P payload of
           Some td \<Rightarrow> RespTxDone td
         | None \<Rightarrow> RespErr (BadFrame ''bad TX_DONE payload''))
      else RespErr (BadFrame (''unexpected tagged frame type 0x'' @ show_hex2 type_id)))"

text \<open>Frames with tag 0.\<close>
definition dispatch_async ::
    "('i, 'm, 'rx, 'd) proto \<Rightarrow> u8 \<Rightarrow> bytes \<Rightarrow> ('i, 'm, 'rx, 'd) session \<Rightarrow> ('i, 'm, 'rx, 'd) session" where
  "dispatch_async P type_id payload s =
     (if type_id = TYPE_RX P then
        (case decode_rx P payload of
           Some rx \<Rightarrow> push_rx rx s
         | None \<Rightarrow> push_err (BadFrame ''bad RX payload'') s)
      else if type_id = TYPE_ERR P then
        (case decode_err_payload P payload of
           Some code \<Rightarrow> push_err (from_wire code) s
         | None \<Rightarrow> push_err (BadFrame ''bad async ERR payload'') s)
      else s)"

definition dispatch ::
    "('i, 'm, 'rx, 'd) proto \<Rightarrow> u8 \<Rightarrow> u16 \<Rightarrow> bytes
      \<Rightarrow> ('i, 'm, 'rx, 'd) session \<Rightarrow> ('i, 'm, 'rx, 'd) session" where
  "dispatch P type_id tag payload s =
     (if tag = 0 then dispatch_async P type_id payload s
      else case pending_take tag s of
        (None, s') \<Rightarrow> s'
      | (Some p, s') \<Rightarrow>
          if cmd_type p = TYPE_TX P \<and> type_id = TYPE_OK P then pending_insert tag p s'
          else chan_send (waker p) (response_for P (cmd_type p) type_id payload) s')"

datatype frame_work = WorkOk u8 u16 bytes | WorkFrame

fun frame_work_of :: "frame_result \<Rightarrow> frame_work" where
  "frame_work_of (FrameOk type_id tag payload) = WorkOk type_id tag payload"
| "frame_work_of FrameErr = WorkFrame"

fun handle_work ::
    "('i, 'm, 'rx, 'd) proto \<Rightarrow> frame_work \<Rightarrow> ('i, 'm, 'rx, 'd) session \<Rightarrow> ('i, 'm, 'rx, 'd) session" where
  "handle_work P (WorkOk type_id tag payload) s = dispatch P type_id tag payload s"
| "handle_work P WorkFrame s = push_err (BadFrame ''inbound frame failed CRC or COBS'') s"

text \<open>What the loop does with the bytes of one read.\<close>
definition reader_chunk ::
    "('i, 'm, 'rx, 'd) proto \<Rightarrow> bytes \<Rightarrow> ('i, 'm, 'rx, 'd) session \<Rightarrow> ('i, 'm, 'rx, 'd) session" where
  "reader_chunk P bs s =
     (case decoder_feed P (decoder s) bs of
        (d, results) \<Rightarrow> fold (handle_work P) (map frame_work_of results) (s\<lparr>decoder := d\<rparr>))"

text \<open>After the loop: fail every outstanding command, and the task ends.\<close>
definition reader_exit :: "('i, 'm, 'rx, 'd) session \<Rightarrow> ('i, 'm, 'rx, 'd) session" where
  "reader_exit s = (wake_all ''reader exited'' s)\<lparr>reader_running := False\<rparr>"

text \<open>One turn of the loop, for the result of its read; nothing if the task has ended.\<close>
definition reader_iter ::
    "('i, 'm, 'rx, 'd) proto \<Rightarrow> read_result \<Rightarrow> ('i, 'm, 'rx, 'd) session \<Rightarrow> ('i, 'm, 'rx, 'd) session" where
  "reader_iter P r s =
     (if \<not> reader_running s then s
      else if closed s then reader_exit s
      else case r of
        ReadErr \<Rightarrow> reader_exit s
      | ReadOk bs \<Rightarrow> if bs = [] then reader_exit s else reader_chunk P bs s)"

text \<open>The loop over the reads that happen; at the end of the list the task waits in its read.\<close>
fun reader_loop ::
    "('i, 'm, 'rx, 'd) proto \<Rightarrow> read_result list \<Rightarrow> ('i, 'm, 'rx, 'd) session \<Rightarrow> ('i, 'm, 'rx, 'd) session" where
  "reader_loop P [] s = s"
| "reader_loop P (r # rs) s = reader_loop P rs (reader_iter P r s)"

subsection \<open>Invariant\<close>

abbreviation wakers :: "('i, 'm, 'rx, 'd) session \<Rightarrow> nat set" where
  "wakers s \<equiv> (\<lambda>e. waker (snd e)) ` set (pending_map s)"

text \<open>
  The tag counter never holds 0, the tag of asynchronous events, and no command is outstanding
  under it; a tag has at most one entry; every entry owns the unfired sender of a channel of its
  own; channels not yet created are untouched.
\<close>
definition session_inv :: "('i, 'm, 'rx, 'd) session \<Rightarrow> bool" where
  "session_inv s \<longleftrightarrow>
     next_tag s \<noteq> 0
     \<and> distinct (map fst (pending_map s))
     \<and> 0 \<notin> fst ` set (pending_map s)
     \<and> inj_on (\<lambda>e. waker (snd e)) (set (pending_map s))
     \<and> (\<forall>c \<in> wakers s. c < next_chan s \<and> chans s c = ChanOpen)
     \<and> (\<forall>c \<ge> next_chan s. chans s c = ChanOpen)"

lemma session_invD:
  assumes "session_inv s"
  shows "next_tag s \<noteq> 0" "distinct (map fst (pending_map s))" "0 \<notin> fst ` set (pending_map s)"
    "inj_on (\<lambda>e. waker (snd e)) (set (pending_map s))"
    "\<And>c. c \<in> wakers s \<Longrightarrow> c < next_chan s" "\<And>c. c \<in> wakers s \<Longrightarrow> chans s c = ChanOpen"
    "\<And>c. next_chan s \<le> c \<Longrightarrow> chans s c = ChanOpen"
  using assms by (auto simp: session_inv_def)

lemma spawn_inv [keeps_inv]: "session_inv (spawn P)"
  by (simp add: session_inv_def spawn_def)

lemma alloc_tag_inv [keeps_inv]: "session_inv s \<Longrightarrow> session_inv (snd (alloc_tag s))"
  by (auto simp: alloc_tag_def session_inv_def Let_def)

lemma set_chan_inv:
  assumes "session_inv s" "c \<notin> wakers s" "c < next_chan s"
  shows "session_inv (s\<lparr>chans := (chans s)(c := x)\<rparr>)"
  using assms by (auto simp: session_inv_def)

lemma chan_send_inv: "session_inv s \<Longrightarrow> c \<notin> wakers s \<Longrightarrow> c < next_chan s \<Longrightarrow> session_inv (chan_send c r s)"
  unfolding chan_send_def by (rule set_chan_inv)

lemma drop_sender_inv: "session_inv s \<Longrightarrow> c \<notin> wakers s \<Longrightarrow> c < next_chan s \<Longrightarrow> session_inv (drop_sender c s)"
  unfolding drop_sender_def by (rule set_chan_inv)

lemma map_of_pending_in: "map_of (pending_map s) tag = Some p \<Longrightarrow> (tag, p) \<in> set (pending_map s)"
  by (rule map_of_SomeD)

lemma pending_take_inv [keeps_inv]: "session_inv s \<Longrightarrow> session_inv (snd (pending_take tag s))"
  by (auto simp: session_inv_def pending_take_def set_delete AList.distinct_delete inj_on_def)

text \<open>Taking an entry out hands over the only reference to an open channel.\<close>

lemma pending_take_waker:
  assumes inv: "session_inv s" and take: "pending_take tag s = (Some p, s')"
  shows "waker p < next_chan s'" "chans s' (waker p) = ChanOpen" "waker p \<notin> wakers s'" "tag \<noteq> 0"
    "tag \<notin> fst ` set (pending_map s')"
proof -
  from take have mem: "(tag, p) \<in> set (pending_map s)" and s': "s' = snd (pending_take tag s)"
    by (auto simp: pending_take_def intro: map_of_pending_in)
  then have w: "waker p \<in> wakers s" by force
  show "waker p < next_chan s'" "chans s' (waker p) = ChanOpen"
    using session_invD(5,6) [OF inv w] by (simp_all add: s' pending_take_def)
  show "tag \<noteq> 0" using session_invD(3) [OF inv] mem by force
  show "waker p \<notin> wakers s'"
  proof
    assume "waker p \<in> wakers s'"
    then obtain e where e: "e \<in> set (pending_map s)" "fst e \<noteq> tag" "waker (snd e) = waker p"
      by (auto simp: s' pending_take_def set_delete)
    then have "e = (tag, p)" using inj_onD [OF session_invD(4) [OF inv], of e "(tag, p)"] mem by simp
    with e show False by simp
  qed
  show "tag \<notin> fst ` set (pending_map s')"
    by (auto simp: s' pending_take_def set_delete)
qed

lemma pending_insert_inv:
  assumes inv: "session_inv s" and "tag \<noteq> 0" "waker p < next_chan s" "chans s (waker p) = ChanOpen"
    "waker p \<notin> wakers s"
  shows "session_inv (pending_insert tag p s)"
proof (cases "map_of (pending_map s) tag")
  case None
  with assms show ?thesis
    by (auto simp: session_inv_def pending_insert_def set_update_distinct AList.distinct_update
        inj_on_def image_iff)
next
  case (Some q)
  then have "(tag, q) \<in> set (pending_map s)" by (rule map_of_pending_in)
  with assms have "waker q < next_chan s" "waker q \<noteq> waker p"
    by (force simp: session_inv_def)+
  moreover from assms \<open>(tag, q) \<in> set (pending_map s)\<close>
  have "waker (snd e) \<noteq> waker q" if "e \<in> set (pending_map s)" "fst e \<noteq> tag" for e
    using that by (force simp: session_inv_def inj_on_def)
  ultimately show ?thesis using assms Some
    by (auto simp: session_inv_def pending_insert_def drop_sender_def set_update_distinct
        AList.distinct_update inj_on_def image_iff)
qed

lemma pending_remove_inv [keeps_inv]:
  assumes "session_inv s"
  shows "session_inv (pending_remove tag s)"
proof (cases "pending_take tag s")
  case (Pair r s')
  then have "session_inv s'" using pending_take_inv [OF assms, of tag] by simp
  with Pair assms show ?thesis
    by (cases r) (auto simp: pending_remove_def intro!: drop_sender_inv dest: pending_take_waker)
qed

lemma fold_chan_send:
  "fold (\<lambda>(tag, p). chan_send (waker p) r) al s =
     s\<lparr>chans := \<lambda>c. if c \<in> (\<lambda>e. waker (snd e)) ` set al then ChanSent r else chans s c\<rparr>"
proof (induction al arbitrary: s)
  case Nil
  then show ?case by simp
next
  case (Cons e al)
  obtain tag p where [simp]: "e = (tag, p)" by fastforce
  have "fold (\<lambda>(tag, p). chan_send (waker p) r) (e # al) s =
      (chan_send (waker p) r s)\<lparr>chans := \<lambda>c. if c \<in> (\<lambda>e. waker (snd e)) ` set al then ChanSent r
        else chans (chan_send (waker p) r s) c\<rparr>"
    by (simp add: Cons.IH)
  also have "\<dots> = s\<lparr>chans := \<lambda>c. if c \<in> (\<lambda>e. waker (snd e)) ` set al then ChanSent r
        else ((chans s)(waker p := ChanSent r)) c\<rparr>"
    by (simp add: chan_send_def cong: if_cong)
  also have "(\<lambda>c. if c \<in> (\<lambda>e. waker (snd e)) ` set al then ChanSent r
        else ((chans s)(waker p := ChanSent r)) c) =
      (\<lambda>c. if c \<in> (\<lambda>e. waker (snd e)) ` set (e # al) then ChanSent r else chans s c)"
    by auto
  finally show ?case .
qed

lemma wake_all_eq:
  "wake_all why s =
     s\<lparr>pending_map := [],
       chans := \<lambda>c. if c \<in> wakers s then ChanSent (RespErr (TransportClosed why)) else chans s c\<rparr>"
  by (simp add: wake_all_def fold_chan_send cong: if_cong)

lemma wake_all_inv [keeps_inv]: "session_inv s \<Longrightarrow> session_inv (wake_all why s)"
  by (auto simp: session_inv_def wake_all_eq dest: linorder_not_less [THEN iffD2])

lemma reader_exit_inv [keeps_inv]: "session_inv s \<Longrightarrow> session_inv (reader_exit s)"
  using wake_all_inv [of s "''reader exited''"] by (auto simp: reader_exit_def session_inv_def)

lemma push_inv [keeps_inv]: "session_inv s \<Longrightarrow> session_inv (push_rx x s)" "session_inv s \<Longrightarrow> session_inv (push_err e s)"
  by (auto simp: session_inv_def push_rx_def push_err_def)

lemma dispatch_inv [keeps_inv]:
  assumes inv: "session_inv s"
  shows "session_inv (dispatch P type_id tag payload s)"
proof (cases "tag = 0")
  case True
  with inv show ?thesis
    by (auto simp: dispatch_def dispatch_async_def intro: keeps_inv split: option.splits)
next
  case False
  obtain r s' where take: "pending_take tag s = (r, s')" by fastforce
  then have inv': "session_inv s'" using pending_take_inv [OF inv, of tag] by simp
  show ?thesis
  proof (cases r)
    case None
    with take False inv' show ?thesis by (simp add: dispatch_def)
  next
    case (Some p)
    note w = pending_take_waker [OF inv take [unfolded Some]]
    show ?thesis using take False Some inv' w
      by (auto simp: dispatch_def intro: chan_send_inv pending_insert_inv)
  qed
qed

lemma handle_work_inv [keeps_inv]: "session_inv s \<Longrightarrow> session_inv (handle_work P w s)"
  by (cases w) (auto intro: keeps_inv)

lemma fold_handle_work_inv: "session_inv s \<Longrightarrow> session_inv (fold (handle_work P) ws s)"
  by (induction ws arbitrary: s) (auto intro: keeps_inv)

lemma session_inv_decoder [simp]: "session_inv (s\<lparr>decoder := d\<rparr>) = session_inv s"
  by (simp add: session_inv_def)

lemma reader_chunk_inv [keeps_inv]: "session_inv s \<Longrightarrow> session_inv (reader_chunk P bs s)"
  by (auto simp: reader_chunk_def intro!: fold_handle_work_inv split: prod.splits)

lemma reader_iter_inv [keeps_inv]: "session_inv s \<Longrightarrow> session_inv (reader_iter P r s)"
  by (auto simp: reader_iter_def intro: keeps_inv split: read_result.splits)

lemma reader_loop_inv [keeps_inv]: "session_inv s \<Longrightarrow> session_inv (reader_loop P rs s)"
  by (induction rs arbitrary: s) (auto intro: keeps_inv)

subsection \<open>The outstanding commands form a keyed table, the queues are channels\<close>

abbreviation pending_of :: "('i, 'm, 'rx, 'd) session \<Rightarrow> u16 \<Rightarrow> pending option" where
  "pending_of s \<equiv> map_of (pending_map s)"

lemma pending_map_insert [simp]:
  "pending_map (pending_insert tag p s) = AList.update tag p (pending_map s)"
  by (auto simp: pending_insert_def split: option.splits)

lemma pending_map_remove [simp]: "pending_map (pending_remove tag s) = AList.delete tag (pending_map s)"
  by (auto simp: pending_remove_def pending_take_def drop_sender_def split: option.splits)

interpretation pend: keyed_table pending_of pending_insert pending_remove
    "\<lambda>s. distinct (map fst (pending_map s))"
  by unfold_locales (simp_all add: AList.update_conv' AList.delete_conv' AList.distinct_update AList.distinct_delete)

interpretation pend_take: keyed_table pending_of pending_insert "\<lambda>tag s. snd (pending_take tag s)"
    "\<lambda>s. distinct (map fst (pending_map s))"
  by unfold_locales
    (simp_all add: pending_take_def AList.update_conv' AList.delete_conv' AList.distinct_update AList.distinct_delete)

interpretation rxq: fifo_channel push_rx try_recv_rx rx_queue
  by unfold_locales (auto simp: push_rx_def try_recv_rx_def split: list.splits)

interpretation errq: fifo_channel push_err try_recv_err async_err_queue
  by unfold_locales (auto simp: push_err_def try_recv_err_def split: list.splits)

lemma drain_loop_eq: "drain_loop out s = (out @ async_err_queue s, s\<lparr>async_err_queue := []\<rparr>)"
proof (induction out s rule: drain_loop.induct)
  case (1 out s)
  show ?case
  proof (cases "async_err_queue s")
    case Nil
    then show ?thesis by (subst drain_loop.simps) (simp add: try_recv_err_def)
  next
    case (Cons e es)
    then have "try_recv_err s = Some (e, s\<lparr>async_err_queue := es\<rparr>)" by (simp add: try_recv_err_def)
    with 1 Cons show ?thesis by (subst drain_loop.simps) simp
  qed
qed

subsection \<open>What one frame does\<close>

lemma dispatch_unknown:
  assumes "tag \<noteq> 0" "pending_of s tag = None"
  shows "dispatch P ty tag pl s = s"
proof -
  from assms(2) have "AList.delete tag (pending_map s) = pending_map s"
    by (auto simp: map_of_eq_None_iff AList.delete_idem)
  with assms show ?thesis by (simp add: dispatch_def pending_take_def)
qed

lemma dispatch_deliver:
  assumes "tag \<noteq> 0" "pending_of s tag = Some p" "\<not> (cmd_type p = TYPE_TX P \<and> ty = TYPE_OK P)"
  shows "dispatch P ty tag pl s =
    chan_send (waker p) (response_for P (cmd_type p) ty pl)
      (s\<lparr>pending_map := AList.delete tag (pending_map s)\<rparr>)"
  using assms by (auto simp: dispatch_def pending_take_def)

lemma dispatch_absorb:
  assumes "session_inv s" "pending_of s tag = Some p" "cmd_type p = TYPE_TX P" "ty = TYPE_OK P"
  shows "pending_of (dispatch P ty tag pl s) = pending_of s"
    and "chans (dispatch P ty tag pl s) = chans s"
    and "dispatch P ty tag pl s = s\<lparr>pending_map := pending_map (dispatch P ty tag pl s)\<rparr>"
proof -
  have "(tag, p) \<in> set (pending_map s)" using assms(2) by (rule map_of_pending_in)
  then have tag: "tag \<noteq> 0" using session_invD(3) [OF assms(1)] by force
  have d: "dispatch P ty tag pl s = pending_insert tag p (snd (pending_take tag s))"
    using assms tag by (simp add: dispatch_def pending_take_def)
  show "pending_of (dispatch P ty tag pl s) = pending_of s"
    unfolding d using session_invD(2) [OF assms(1)] assms(2) by (rule pend_take.reinsert)
  have e: "pending_insert tag p (snd (pending_take tag s)) =
      s\<lparr>pending_map := AList.update tag p (AList.delete tag (pending_map s))\<rparr>"
    by (simp add: pending_insert_def pending_take_def AList.delete_conv)
  show "chans (dispatch P ty tag pl s) = chans s"
    unfolding d e by simp
  show "dispatch P ty tag pl s = s\<lparr>pending_map := pending_map (dispatch P ty tag pl s)\<rparr>"
    unfolding d e by simp
qed

text \<open>The two asynchronous queues, as lists read off the frames.\<close>

fun rx_events :: "('i, 'm, 'rx, 'd) proto \<Rightarrow> frame_work \<Rightarrow> 'rx list" where
  "rx_events P (WorkOk ty tag pl) =
     (if tag = 0 \<and> ty = TYPE_RX P then (case decode_rx P pl of Some rx \<Rightarrow> [rx] | None \<Rightarrow> []) else [])"
| "rx_events P WorkFrame = []"

fun err_events :: "('i, 'm, 'rx, 'd) proto \<Rightarrow> frame_work \<Rightarrow> client_error list" where
  "err_events P (WorkOk ty tag pl) =
     (if tag \<noteq> 0 then []
      else if ty = TYPE_RX P then
        (case decode_rx P pl of Some rx \<Rightarrow> [] | None \<Rightarrow> [BadFrame ''bad RX payload''])
      else if ty = TYPE_ERR P then
        (case decode_err_payload P pl of
           Some code \<Rightarrow> [from_wire code] | None \<Rightarrow> [BadFrame ''bad async ERR payload''])
      else [])"
| "err_events P WorkFrame = [BadFrame ''inbound frame failed CRC or COBS'']"

lemma chan_send_fields [simp]:
  "rx_queue (chan_send c r s) = rx_queue s" "async_err_queue (chan_send c r s) = async_err_queue s"
  "pending_map (chan_send c r s) = pending_map s"
  "chans (chan_send c r s) = (chans s)(c := ChanSent r)"
  by (simp_all add: chan_send_def)

lemma pending_insert_queues [simp]:
  "rx_queue (pending_insert tag p s) = rx_queue s" "async_err_queue (pending_insert tag p s) = async_err_queue s"
  by (simp_all add: pending_insert_def drop_sender_def split: option.splits)

lemma handle_work_queues:
  "rx_queue (handle_work P w s) = rx_queue s @ rx_events P w"
  "async_err_queue (handle_work P w s) = async_err_queue s @ err_events P w"
  by (cases w; auto simp: dispatch_def dispatch_async_def pending_take_def push_rx_def push_err_def
      split: option.splits)+

lemma fold_handle_work_queues:
  "rx_queue (fold (handle_work P) ws s) = rx_queue s @ concat (map (rx_events P) ws)"
  "async_err_queue (fold (handle_work P) ws s) = async_err_queue s @ concat (map (err_events P) ws)"
  by (induction ws arbitrary: s) (simp_all add: handle_work_queues)

subsection \<open>Which frame completes a command\<close>

text \<open>
  A frame completes the command outstanding under \<open>tag\<close> if it carries that tag, except that
  the intermediate OK of a transmission does not.
\<close>
fun completes :: "('i, 'm, 'rx, 'd) proto \<Rightarrow> u8 \<Rightarrow> u16 \<Rightarrow> frame_work \<Rightarrow> bool" where
  "completes P cmd tag (WorkOk ty t pl) \<longleftrightarrow> t = tag \<and> \<not> (cmd = TYPE_TX P \<and> ty = TYPE_OK P)"
| "completes P cmd tag WorkFrame \<longleftrightarrow> False"

fun work_response :: "('i, 'm, 'rx, 'd) proto \<Rightarrow> u8 \<Rightarrow> frame_work \<Rightarrow> ('i, 'm) session_response" where
  "work_response P cmd (WorkOk ty t pl) = response_for P cmd ty pl"
| "work_response P cmd WorkFrame = RespErr (BadFrame ''inbound frame failed CRC or COBS'')"

lemma handle_work_tag_0: "handle_work P (WorkOk ty 0 pl) s = dispatch_async P ty pl s"
  by (simp add: dispatch_def)

lemma dispatch_async_fields [simp]:
  "pending_map (dispatch_async P ty pl s) = pending_map s" "chans (dispatch_async P ty pl s) = chans s"
  by (auto simp: dispatch_async_def push_rx_def push_err_def split: option.splits)

lemma push_err_fields [simp]:
  "pending_map (push_err e s) = pending_map s" "chans (push_err e s) = chans s"
  by (simp_all add: push_err_def)

text \<open>What one frame does to the entry of a tag and to the channel the entry owns.\<close>

lemma handle_work_pending:
  assumes inv: "session_inv s" and p: "pending_of s tag = Some p"
  shows "if completes P (cmd_type p) tag w
    then pending_of (handle_work P w s) tag = None
       \<and> chans (handle_work P w s) (waker p) = ChanSent (work_response P (cmd_type p) w)
    else pending_of (handle_work P w s) tag = Some p
       \<and> chans (handle_work P w s) (waker p) = ChanOpen"
proof (cases w)
  case WorkFrame
  have "chans s (waker p) = ChanOpen"
    using session_invD(6) [OF inv] map_of_pending_in [OF p] by force
  with WorkFrame p show ?thesis by simp
next
  case (WorkOk ty t pl)
  have mem: "(tag, p) \<in> set (pending_map s)" using p by (rule map_of_pending_in)
  then have open_p: "chans s (waker p) = ChanOpen" and tag: "tag \<noteq> 0"
    using session_invD(3,6) [OF inv] by force+
  have other: "waker q \<noteq> waker p" if "pending_of s t = Some q" "t \<noteq> tag" for q
    using inj_onD [OF session_invD(4) [OF inv], of "(t, q)" "(tag, p)"] map_of_pending_in [OF that(1)] mem that(2)
    by auto
  consider "t = tag" "cmd_type p = TYPE_TX P" "ty = TYPE_OK P"
    | "t = tag" "\<not> (cmd_type p = TYPE_TX P \<and> ty = TYPE_OK P)" | "t = 0" | "t \<noteq> tag" "t \<noteq> 0" by blast
  then show ?thesis
  proof cases
    case 1
    with dispatch_absorb [OF inv, of tag p P ty pl] p open_p show ?thesis by (simp add: WorkOk)
  next
    case 2
    with dispatch_deliver [OF tag p, of P ty pl] show ?thesis
      by (simp add: WorkOk AList.delete_conv)
  next
    case 3
    with p open_p tag show ?thesis by (simp add: WorkOk dispatch_def)
  next
    case 4
    show ?thesis
    proof (cases "pending_of s t")
      case None
      with 4 p open_p show ?thesis by (simp add: WorkOk dispatch_unknown)
    next
      case (Some q)
      show ?thesis
      proof (cases "cmd_type q = TYPE_TX P \<and> ty = TYPE_OK P")
        case True
        with dispatch_absorb [OF inv Some, of P ty pl] p open_p 4 show ?thesis by (simp add: WorkOk)
      next
        case False
        with dispatch_deliver [OF 4(2) Some False, of pl] p open_p 4 other [OF Some] show ?thesis
          by (simp add: WorkOk AList.delete_conv')
      qed
    qed
  qed
qed

text \<open>A channel that no entry owns is never touched again, and a tag that has no entry gets none.\<close>

lemma handle_work_idle:
  assumes inv: "session_inv s" and c: "c \<notin> wakers s"
  shows "c \<notin> wakers (handle_work P w s) \<and> chans (handle_work P w s) c = chans s c"
proof (cases w)
  case WorkFrame
  with c show ?thesis by simp
next
  case (WorkOk ty t pl)
  show ?thesis
  proof (cases "t = 0 \<or> pending_of s t = None")
    case True
    then have "dispatch P ty t pl s = (if t = 0 then dispatch_async P ty pl s else s)"
      using dispatch_unknown [of t s P ty pl] by (cases "t = 0") (simp add: dispatch_def, simp)
    with c show ?thesis by (simp add: WorkOk)
  next
    case False
    then obtain q where q: "pending_of s t = Some q" and t: "t \<noteq> 0" by auto
    then have mem: "(t, q) \<in> set (pending_map s)" by (auto intro: map_of_pending_in)
    with c have "waker q \<noteq> c" by force
    have d: "distinct (map fst (pending_map s))" by (rule session_invD(2) [OF inv])
    have "pending_map (dispatch P ty t pl s) =
        (if cmd_type q = TYPE_TX P \<and> ty = TYPE_OK P then AList.update t q (AList.delete t (pending_map s))
         else AList.delete t (pending_map s))"
      using q t by (auto simp: dispatch_def pending_take_def)
    then have "set (pending_map (dispatch P ty t pl s)) \<subseteq> set (pending_map s)"
      using mem d by (auto simp: set_delete set_update_distinct AList.distinct_delete split: if_splits)
    moreover have "chans (dispatch P ty t pl s) c = chans s c"
      using dispatch_absorb(2) [OF inv q, of P ty pl] dispatch_deliver [OF t q, of P ty pl] \<open>waker q \<noteq> c\<close>
      by (cases "cmd_type q = TYPE_TX P \<and> ty = TYPE_OK P") simp_all
    ultimately show ?thesis using c by (auto simp: WorkOk)
  qed
qed

lemma handle_work_no_entry:
  assumes inv: "session_inv s" and none: "pending_of s tag = None"
  shows "pending_of (handle_work P w s) tag = None"
proof (cases w)
  case WorkFrame
  with none show ?thesis by simp
next
  case (WorkOk ty t pl)
  show ?thesis
  proof (cases "t = 0")
    case True
    with none show ?thesis by (simp add: WorkOk dispatch_def)
  next
    case t: False
    show ?thesis
    proof (cases "pending_of s t")
      case None
      with t none show ?thesis by (simp add: WorkOk dispatch_unknown)
    next
      case (Some q)
      with none have "t \<noteq> tag" by auto
      with Some none t dispatch_absorb(1) [OF inv Some, of P ty pl] dispatch_deliver [OF t Some, of P ty pl]
      show ?thesis
        by (cases "cmd_type q = TYPE_TX P \<and> ty = TYPE_OK P") (simp_all add: WorkOk AList.delete_conv')
    qed
  qed
qed

lemma fold_handle_work_idle:
  assumes "session_inv s" "c \<notin> wakers s"
  shows "chans (fold (handle_work P) ws s) c = chans s c"
  using assms
proof (induction ws arbitrary: s)
  case (Cons w ws)
  have "session_inv (handle_work P w s)" using Cons.prems(1) by (rule handle_work_inv)
  with Cons.IH [of "handle_work P w s"] handle_work_idle [OF Cons.prems, of P w] show ?case by simp
qed simp

lemma fold_handle_work_no_entry:
  assumes "session_inv s" "pending_of s tag = None"
  shows "pending_of (fold (handle_work P) ws s) tag = None"
  using assms
proof (induction ws arbitrary: s)
  case (Cons w ws)
  from Cons.IH [OF handle_work_inv [OF Cons.prems(1)] handle_work_no_entry [OF Cons.prems]]
  show ?case by simp
qed simp

text \<open>
  A batch of frames, against its declarative reading: the outcome of a command is decided by the
  first frame of the batch that completes it, and by nothing else.
\<close>

lemma fold_handle_work_first:
  assumes "session_inv s" "pending_of s tag = Some p"
  shows "case find (completes P (cmd_type p) tag) ws of
      None \<Rightarrow> pending_of (fold (handle_work P) ws s) tag = Some p
        \<and> chans (fold (handle_work P) ws s) (waker p) = ChanOpen
    | Some w \<Rightarrow> pending_of (fold (handle_work P) ws s) tag = None
        \<and> chans (fold (handle_work P) ws s) (waker p) = ChanSent (work_response P (cmd_type p) w)"
  using assms
proof (induction ws arbitrary: s)
  case Nil
  have "chans s (waker p) = ChanOpen"
    using session_invD(6) [OF Nil.prems(1)] map_of_pending_in [OF Nil.prems(2)] by force
  with Nil show ?case by simp
next
  case (Cons w ws)
  let ?s = "handle_work P w s"
  have inv: "session_inv ?s" using Cons.prems(1) by (rule handle_work_inv)
  note step = handle_work_pending [OF Cons.prems, of P w]
  show ?case
  proof (cases "completes P (cmd_type p) tag w")
    case False
    with step have "pending_of ?s tag = Some p" by simp
    from Cons.IH [OF inv this] False show ?thesis by (simp split: option.splits)
  next
    case True
    with step have none: "pending_of ?s tag = None"
      and sent: "chans ?s (waker p) = ChanSent (work_response P (cmd_type p) w)" by simp_all
    have "waker p \<notin> wakers ?s" using session_invD(6) [OF inv] sent by force
    with True none sent inv fold_handle_work_idle [OF inv] fold_handle_work_no_entry [OF inv]
    show ?thesis by simp
  qed
qed

end
