(* ===== verification/Delivery.thy ===== *)
theory Delivery
  imports Session
begin

text \<open>
  Received packets, seen from outside: the packets already queued followed by the ones that the
  reads still to come will queue. The reader task, which the model of the session runs on the whole
  state, refines a small machine \<open>rx_step\<close> on the part of the state that decides this stream; so
  whatever leaves that part alone can neither lose nor reorder packets.
\<close>

type_synonym ('rx, 'd) rx_state = "'rx list \<times> 'd \<times> bool \<times> bool"

definition rx_view :: "('i, 'm, 'rx, 'd) session \<Rightarrow> ('rx, 'd) rx_state" where
  "rx_view s = (rx_queue s, decoder s, reader_running s, closed s)"

fun rx_step :: "('i, 'm, 'rx, 'd) proto \<Rightarrow> read_result \<Rightarrow> ('rx, 'd) rx_state \<Rightarrow> ('rx, 'd) rx_state" where
  "rx_step P rd (q, d, running, cl) =
     (if \<not> running then (q, d, running, cl)
      else if cl then (q, d, False, cl)
      else (case rd of
              ReadErr \<Rightarrow> (q, d, False, cl)
            | ReadOk [] \<Rightarrow> (q, d, False, cl)
            | ReadOk (b # bs) \<Rightarrow>
                (case decoder_feed P d (b # bs) of
                   (d', rs) \<Rightarrow> (q @ concat (map (rx_events P \<circ> frame_work_of) rs), d', running, cl))))"

text \<open>All packets that are queued now or will be, if no caller closes the session.\<close>
definition rx_stream ::
    "('i, 'm, 'rx, 'd) proto \<Rightarrow> ('i, 'm, 'rx, 'd) session \<Rightarrow> (instant \<times> read_result) list \<Rightarrow> 'rx list" where
  "rx_stream P s arr = fst (fold (\<lambda>(a, rd). rx_step P rd) arr (rx_view s))"

lemma rx_view_small_ops [frame_simps]:
  "rx_view (chan_send c r s) = rx_view s" "rx_view (drop_sender c s) = rx_view s"
  "rx_view (pending_insert tag p s) = rx_view s" "rx_view (snd (pending_take tag s)) = rx_view s"
  "rx_view (pending_remove tag s) = rx_view s" "rx_view (wake_all why s) = rx_view s"
  "rx_view (push_err e s) = rx_view s" "rx_view (snd (alloc_tag s)) = rx_view s"
  "rx_view (s\<lparr>written := x\<rparr>) = rx_view s" "rx_view (s\<lparr>next_chan := n\<rparr>) = rx_view s"
  by (auto simp: rx_view_def chan_send_def drop_sender_def pending_insert_def pending_take_def
      pending_remove_def wake_all_eq push_err_def alloc_tag_def Let_def split: option.splits)

lemma rx_view_dispatch:
  "rx_view (dispatch P ty tag pl s) =
     (rx_queue s @ rx_events P (WorkOk ty tag pl), decoder s, reader_running s, closed s)"
  by (auto simp: rx_view_def dispatch_def dispatch_async_def pending_take_def push_rx_def push_err_def
      pending_insert_def drop_sender_def chan_send_def split: option.splits)

lemma rx_view_works:
  "rx_view (fold (handle_work P) ws s) =
     (rx_queue s @ concat (map (rx_events P) ws), decoder s, reader_running s, closed s)"
proof (induction ws arbitrary: s)
  case (Cons w ws)
  have "rx_view (handle_work P w s) = (rx_queue s @ rx_events P w, decoder s, reader_running s, closed s)"
    using rx_view_small_ops(7) [of _ s]
    by (cases w) (simp_all only: handle_work.simps rx_view_dispatch, simp add: rx_view_def)
  then show ?case using Cons.IH [of "handle_work P w s"] by (simp add: rx_view_def)
qed (simp add: rx_view_def)

text \<open>The reader refines the packet machine.\<close>

lemma reader_iter_refines: "rx_view (reader_iter P rd s) = rx_step P rd (rx_view s)"
proof (cases "\<not> reader_running s \<or> closed s \<or> rd = ReadErr \<or> rd = ReadOk []")
  case True
  then show ?thesis by (auto simp: rx_view_def reader_iter_def reader_exit_def wake_all_eq)
next
  case False
  then obtain b bs where "rd = ReadOk (b # bs)" by (cases rd) (auto simp: neq_Nil_conv)
  with False show ?thesis
    by (cases "decoder_feed P (decoder s) (b # bs)")
      (simp add: reader_iter_def reader_chunk_def rx_view_works, simp add: rx_view_def)
qed

lemma rx_stream_view: "rx_view s' = rx_view s \<Longrightarrow> rx_stream P s' arr = rx_stream P s arr"
  by (simp add: rx_stream_def)

lemma rx_stream_read [simp]:
  "rx_stream P s ((a, rd) # arr) = rx_stream P (reader_iter P rd s) arr"
  by (simp add: rx_stream_def reader_iter_refines)

lemma rx_steps_prefix:
  "fst (fold (\<lambda>(a, rd). rx_step P rd) arr (p @ q, v)) = p @ fst (fold (\<lambda>(a, rd). rx_step P rd) arr (q, v))"
proof (induction arr arbitrary: q v)
  case (Cons e arr)
  obtain d running cl where "v = (d, running, cl)" by (cases v)
  moreover have "\<exists>q' v'. rx_step P (snd e) (q, v) = (q', v') \<and> rx_step P (snd e) (p @ q, v) = (p @ q', v')"
    unfolding calculation by (auto split: read_result.split list.split prod.split)
  ultimately show ?case using Cons.IH by (cases e) auto
qed simp

lemma rx_stream_queue: "rx_stream P s arr = rx_queue s @ rx_stream P (s\<lparr>rx_queue := []\<rparr>) arr"
  using rx_steps_prefix [of P arr "rx_queue s" "[]"] by (simp add: rx_stream_def rx_view_def)

text \<open>Once the reader has ended, what is queued is all there will ever be.\<close>

lemma rx_stream_ended: "\<not> reader_running s \<Longrightarrow> rx_stream P s arr = rx_queue s"
proof -
  have "fold (\<lambda>(a, rd). rx_step P rd) arr (q, d, False, cl) = (q, d, False, cl)" for q d cl
    by (induction arr) auto
  then show "\<not> reader_running s \<Longrightarrow> rx_stream P s arr = rx_queue s" by (simp add: rx_stream_def rx_view_def)
qed

lemma try_recv_rx_stream:
  assumes "try_recv_rx s = Some (x, s')"
  shows "rx_stream P s arr = x # rx_stream P s' arr"
proof -
  from assms obtain q where q: "rx_queue s = x # q" "s' = s\<lparr>rx_queue := q\<rparr>"
    by (auto simp: try_recv_rx_def split: list.splits)
  have "rx_stream P s' arr = q @ rx_stream P (s\<lparr>rx_queue := []\<rparr>) arr"
    unfolding q(2) by (subst rx_stream_queue) simp
  moreover have "rx_stream P s arr = (x # q) @ rx_stream P (s\<lparr>rx_queue := []\<rparr>) arr"
    using rx_stream_queue [of P s arr] q(1) by simp
  ultimately show ?thesis by simp
qed

end
