(* ===== verification/Commands.thy ===== *)
theory Commands
  imports Delivery
begin

text \<open>
  The calling side of \<^verbatim>\<open>src/session.rs\<close>: sending a frame, waiting for its answer, receiving
  events, closing, and the typed commands. Every function takes the session and the world and
  returns its result with both. While a caller waits, the reader task handles the reads that
  arrive up to the deadline; the caller resumes as soon as its channel is decided.
\<close>

subsection \<open>Sending and waiting\<close>

definition describe_cmd :: "('i, 'm, 'rx, 'd) proto \<Rightarrow> u8 \<Rightarrow> string" where
  "describe_cmd P type_id =
     (if type_id = TYPE_PING P then ''PING''
      else if type_id = TYPE_GET_INFO P then ''GET_INFO''
      else if type_id = TYPE_SET_CONFIG P then ''SET_CONFIG''
      else if type_id = TYPE_TX P then ''TX''
      else if type_id = TYPE_RX_START P then ''RX_START''
      else if type_id = TYPE_RX_STOP P then ''RX_STOP''
      else ''command'')"

text \<open>
  Time passing while no caller waits, as in \<^verbatim>\<open>tokio::time::sleep\<close>: the reader handles what
  arrives in the meantime.
\<close>
fun sleep_loop ::
    "('i, 'm, 'rx, 'd) proto \<Rightarrow> instant \<Rightarrow> (instant \<times> read_result) list \<Rightarrow> ('i, 'm, 'rx, 'd) session
      \<Rightarrow> (instant \<times> read_result) list \<times> ('i, 'm, 'rx, 'd) session" where
  "sleep_loop P till [] s = ([], s)"
| "sleep_loop P till ((a, rd) # rest) s =
     (if till < a then ((a, rd) # rest, s) else sleep_loop P till rest (reader_iter P rd s))"

definition sleep ::
    "('i, 'm, 'rx, 'd) proto \<Rightarrow> duration \<Rightarrow> ('i, 'm, 'rx, 'd) session \<Rightarrow> world
      \<Rightarrow> ('i, 'm, 'rx, 'd) session \<times> world" where
  "sleep P d s w =
     (case sleep_loop P (clock w + d) (arrivals w) s of
        (rest, s') \<Rightarrow> (s', w\<lparr>clock := clock w + d, arrivals := rest\<rparr>))"

text \<open>
  The writer encodes first, so a frame that does not encode reaches neither the writer lock nor
  the wire. Writing and flushing take time, which no timeout bounds, and the reader works on
  meanwhile. A flush that fails comes after the bytes are on their way. The time is a number of the
  world: the calls of this theory are those whose writes end, by a task that finds the writer free.
\<close>
definition write_frame ::
    "('i, 'm, 'rx, 'd) proto \<Rightarrow> u8 \<Rightarrow> u16 \<Rightarrow> bytes \<Rightarrow> ('i, 'm, 'rx, 'd) session \<Rightarrow> world
      \<Rightarrow> unit client_result \<times> ('i, 'm, 'rx, 'd) session \<times> world" where
  "write_frame P type_id tag payload s w =
     (case encode_frame P type_id tag payload of
        Inl e \<Rightarrow> (Err (EncodeFailed e), s, w)
      | Inr wire \<Rightarrow>
          (let w1 = w\<lparr>writes := Suc (writes w)\<rparr>; s1 = s\<lparr>written := written s @ [wire]\<rparr>;
               t = write_time w (writes w)
           in case write_outcomes w (writes w) of
                WriteOk \<Rightarrow> (Ok (), sleep P t s1 w1)
              | WriteErr e \<Rightarrow> (Err (Io e), sleep P t s w1)
              | FlushErr e \<Rightarrow> (Err (Io e), sleep P t s1 w1)))"

text \<open>
  The wait of \<^verbatim>\<open>tokio::time::timeout\<close> on channel \<open>c\<close>: the state of the channel when the caller
  resumes (open means that the deadline passed), the session, the time and the reads still to come.
\<close>
fun await_loop ::
    "('i, 'm, 'rx, 'd) proto \<Rightarrow> nat \<Rightarrow> instant \<Rightarrow> instant \<Rightarrow> (instant \<times> read_result) list
      \<Rightarrow> ('i, 'm, 'rx, 'd) session
      \<Rightarrow> ('i, 'm) oneshot \<times> instant \<times> (instant \<times> read_result) list \<times> ('i, 'm, 'rx, 'd) session" where
  "await_loop P c deadline now [] s =
     (case chans s c of ChanOpen \<Rightarrow> (ChanOpen, max now deadline, [], s) | r \<Rightarrow> (r, now, [], s))"
| "await_loop P c deadline now ((a, rd) # rest) s =
     (case chans s c of
        ChanOpen \<Rightarrow>
          if deadline < a then (ChanOpen, max now deadline, (a, rd) # rest, s)
          else await_loop P c deadline (max now a) rest (reader_iter P rd s)
      | r \<Rightarrow> (r, now, (a, rd) # rest, s))"

definition await_response ::
    "('i, 'm, 'rx, 'd) proto \<Rightarrow> nat \<Rightarrow> duration \<Rightarrow> ('i, 'm, 'rx, 'd) session \<Rightarrow> world
      \<Rightarrow> ('i, 'm) oneshot \<times> ('i, 'm, 'rx, 'd) session \<times> world" where
  "await_response P c timeout s w =
     (case await_loop P c (clock w + timeout) (clock w) (arrivals w) s of
        (r, now, rest, s') \<Rightarrow> (r, s', w\<lparr>clock := now, arrivals := rest\<rparr>))"

definition send_command ::
    "('i, 'm, 'rx, 'd) proto \<Rightarrow> u8 \<Rightarrow> bytes \<Rightarrow> duration \<Rightarrow> ('i, 'm, 'rx, 'd) session \<Rightarrow> world
      \<Rightarrow> ('i, 'm) session_response client_result \<times> ('i, 'm, 'rx, 'd) session \<times> world" where
  "send_command P type_id payload timeout s w =
     (if closed s then (Err (TransportClosed ''session closed''), s, w)
      else
        (let (tag, s1) = alloc_tag s;
             c = next_chan s1;
             s2 = pending_insert tag \<lparr>cmd_type = type_id, waker = c\<rparr> (s1\<lparr>next_chan := Suc c\<rparr>)
         in (case write_frame P type_id tag payload s2 w of
               (Err e, s3, w3) \<Rightarrow> (Err e, pending_remove tag s3, w3)
             | (Panic, s3, w3) \<Rightarrow> (Panic, s3, w3)
             | (Ok _, s3, w3) \<Rightarrow>
                 (case await_response P c timeout s3 w3 of
                    (ChanSent resp, s4, w4) \<Rightarrow> (Ok resp, s4, w4)
                  | (ChanDropped, s4, w4) \<Rightarrow> (Err ReaderExited, pending_remove tag s4, w4)
                  | (ChanOpen, s4, w4) \<Rightarrow>
                      (Err (Timeout (describe_cmd P type_id)), pending_remove tag s4, w4)))))"

subsection \<open>Events, closing\<close>

text \<open>
  Receiving from the queue of packets. \<open>None\<close> as deadline waits for ever, and the outer \<open>None\<close> of
  the result says that the call is still waiting when the reads run out.
\<close>
fun recv_loop ::
    "('i, 'm, 'rx, 'd) proto \<Rightarrow> instant option \<Rightarrow> instant \<Rightarrow> (instant \<times> read_result) list
      \<Rightarrow> ('i, 'm, 'rx, 'd) session
      \<Rightarrow> 'rx option option \<times> instant \<times> (instant \<times> read_result) list \<times> ('i, 'm, 'rx, 'd) session" where
  "recv_loop P deadline now [] s =
     (case try_recv_rx s of
        Some (x, s') \<Rightarrow> (Some (Some x), now, [], s')
      | None \<Rightarrow>
          if \<not> reader_running s then (Some None, now, [], s)
          else (case deadline of
                  None \<Rightarrow> (None, now, [], s)
                | Some d \<Rightarrow> (Some None, max now d, [], s)))"
| "recv_loop P deadline now ((a, rd) # rest) s =
     (case try_recv_rx s of
        Some (x, s') \<Rightarrow> (Some (Some x), now, (a, rd) # rest, s')
      | None \<Rightarrow>
          if \<not> reader_running s then (Some None, now, (a, rd) # rest, s)
          else (case deadline of
                  None \<Rightarrow> recv_loop P deadline (max now a) rest (reader_iter P rd s)
                | Some d \<Rightarrow>
                    if d < a then (Some None, max now d, (a, rd) # rest, s)
                    else recv_loop P deadline (max now a) rest (reader_iter P rd s)))"

text \<open>
  The receiver is free here; \<open>DongleLocks\<close> has the wait for it, which the timeout does not cover.
\<close>
definition recv_rx ::
    "('i, 'm, 'rx, 'd) proto \<Rightarrow> duration \<Rightarrow> ('i, 'm, 'rx, 'd) session \<Rightarrow> world
      \<Rightarrow> 'rx option \<times> ('i, 'm, 'rx, 'd) session \<times> world" where
  "recv_rx P timeout s w =
     (case recv_loop P (Some (clock w + timeout)) (clock w) (arrivals w) s of
        (r, now, rest, s') \<Rightarrow>
          (case r of Some x \<Rightarrow> x | None \<Rightarrow> None, s', w\<lparr>clock := now, arrivals := rest\<rparr>))"

definition next_rx ::
    "('i, 'm, 'rx, 'd) proto \<Rightarrow> ('i, 'm, 'rx, 'd) session \<Rightarrow> world
      \<Rightarrow> 'rx option option \<times> ('i, 'm, 'rx, 'd) session \<times> world" where
  "next_rx P s w =
     (case recv_loop P None (clock w) (arrivals w) s of
        (r, now, rest, s') \<Rightarrow> (r, s', w\<lparr>clock := now, arrivals := rest\<rparr>))"

text \<open>Aborting the reader ends it; a second close finds no handle.\<close>
definition close :: "('i, 'm, 'rx, 'd) session \<Rightarrow> ('i, 'm, 'rx, 'd) session" where
  "close s =
     (let s1 = wake_all ''session closed'' (s\<lparr>closed := True\<rparr>)
      in if reader_handle s1 then s1\<lparr>reader_handle := False, reader_running := False\<rparr> else s1)"

subsection \<open>Typed commands\<close>

definition unexpected :: "string \<Rightarrow> string \<Rightarrow> 'a client_result" where
  "unexpected cmd dbg = Err (Other (''unexpected '' @ cmd @ '' response: '' @ dbg))"

fun expect_empty :: "('i, 'm, 'rx, 'd) proto \<Rightarrow> string \<Rightarrow> ('i, 'm) session_response \<Rightarrow> unit client_result" where
  "expect_empty P cmd RespEmpty = Ok ()"
| "expect_empty P cmd (RespErr e) = Err e"
| "expect_empty P cmd (RespInfo i) = unexpected cmd (''Info('' @ debug_info P i @ '')'')"
| "expect_empty P cmd (RespSetConfig r) =
     unexpected cmd (''SetConfig('' @ debug_set_config_result P r @ '')'')"
| "expect_empty P cmd (RespTxDone td) = unexpected cmd (''TxDone('' @ debug_tx_done P td @ '')'')"

fun expect_info :: "('i, 'm, 'rx, 'd) proto \<Rightarrow> ('i, 'm) session_response \<Rightarrow> 'i client_result" where
  "expect_info P (RespInfo i) = Ok i"
| "expect_info P (RespErr e) = Err e"
| "expect_info P RespEmpty = unexpected ''GET_INFO'' ''Empty''"
| "expect_info P (RespSetConfig r) =
     unexpected ''GET_INFO'' (''SetConfig('' @ debug_set_config_result P r @ '')'')"
| "expect_info P (RespTxDone td) = unexpected ''GET_INFO'' (''TxDone('' @ debug_tx_done P td @ '')'')"

fun expect_set_config ::
    "('i, 'm, 'rx, 'd) proto \<Rightarrow> ('i, 'm) session_response \<Rightarrow> 'm set_config_result client_result" where
  "expect_set_config P (RespSetConfig r) = Ok r"
| "expect_set_config P (RespErr e) = Err e"
| "expect_set_config P RespEmpty = unexpected ''SET_CONFIG'' ''Empty''"
| "expect_set_config P (RespInfo i) = unexpected ''SET_CONFIG'' (''Info('' @ debug_info P i @ '')'')"
| "expect_set_config P (RespTxDone td) =
     unexpected ''SET_CONFIG'' (''TxDone('' @ debug_tx_done P td @ '')'')"

fun expect_tx_done :: "('i, 'm, 'rx, 'd) proto \<Rightarrow> ('i, 'm) session_response \<Rightarrow> tx_done client_result" where
  "expect_tx_done P (RespTxDone td) =
     (case td_result td of
        Transmitted \<Rightarrow> Ok td
      | ChannelBusyResult \<Rightarrow> Err ChannelBusy
      | CancelledResult \<Rightarrow> Err Cancelled)"
| "expect_tx_done P (RespErr e) = Err e"
| "expect_tx_done P RespEmpty = unexpected ''TX'' ''Empty''"
| "expect_tx_done P (RespInfo i) = unexpected ''TX'' (''Info('' @ debug_info P i @ '')'')"
| "expect_tx_done P (RespSetConfig r) =
     unexpected ''TX'' (''SetConfig('' @ debug_set_config_result P r @ '')'')"

text \<open>The \<^verbatim>\<open>?\<close> after a sent command, followed by the match on the response.\<close>
definition command ::
    "('i, 'm, 'rx, 'd) proto \<Rightarrow> u8 \<Rightarrow> bytes \<Rightarrow> duration \<Rightarrow> (('i, 'm) session_response \<Rightarrow> 'a client_result)
      \<Rightarrow> ('i, 'm, 'rx, 'd) session \<Rightarrow> world \<Rightarrow> 'a client_result \<times> ('i, 'm, 'rx, 'd) session \<times> world" where
  "command P type_id payload timeout expect s w =
     (case send_command P type_id payload timeout s w of
        (Ok resp, s', w') \<Rightarrow> (expect resp, s', w')
      | (Err e, s', w') \<Rightarrow> (Err e, s', w')
      | (Panic, s', w') \<Rightarrow> (Panic, s', w'))"

definition ping ::
    "('i, 'm, 'rx, 'd) proto \<Rightarrow> duration \<Rightarrow> ('i, 'm, 'rx, 'd) session \<Rightarrow> world
      \<Rightarrow> unit client_result \<times> ('i, 'm, 'rx, 'd) session \<times> world" where
  "ping P timeout = command P (TYPE_PING P) [] timeout (expect_empty P ''PING'')"

definition get_info ::
    "('i, 'm, 'rx, 'd) proto \<Rightarrow> duration \<Rightarrow> ('i, 'm, 'rx, 'd) session \<Rightarrow> world
      \<Rightarrow> 'i client_result \<times> ('i, 'm, 'rx, 'd) session \<times> world" where
  "get_info P timeout = command P (TYPE_GET_INFO P) [] timeout (expect_info P)"

definition set_config ::
    "('i, 'm, 'rx, 'd) proto \<Rightarrow> 'm \<Rightarrow> duration \<Rightarrow> ('i, 'm, 'rx, 'd) session \<Rightarrow> world
      \<Rightarrow> 'm set_config_result client_result \<times> ('i, 'm, 'rx, 'd) session \<times> world" where
  "set_config P modulation timeout s w =
     (case encode_set_config P modulation of
        Inl e \<Rightarrow> (Err (EncodeFailed e), s, w)
      | Inr payload \<Rightarrow> command P (TYPE_SET_CONFIG P) payload timeout (expect_set_config P) s w)"

definition rx_start ::
    "('i, 'm, 'rx, 'd) proto \<Rightarrow> duration \<Rightarrow> ('i, 'm, 'rx, 'd) session \<Rightarrow> world
      \<Rightarrow> unit client_result \<times> ('i, 'm, 'rx, 'd) session \<times> world" where
  "rx_start P timeout = command P (TYPE_RX_START P) [] timeout (expect_empty P ''RX_START'')"

definition rx_stop ::
    "('i, 'm, 'rx, 'd) proto \<Rightarrow> duration \<Rightarrow> ('i, 'm, 'rx, 'd) session \<Rightarrow> world
      \<Rightarrow> unit client_result \<times> ('i, 'm, 'rx, 'd) session \<times> world" where
  "rx_stop P timeout = command P (TYPE_RX_STOP P) [] timeout (expect_empty P ''RX_STOP'')"

text \<open>
  The payload buffer has \<^verbatim>\<open>MAX_PAYLOAD_FIELD\<close> bytes: copying longer data into it slices out of
  range, which panics.
\<close>
definition transmit ::
    "('i, 'm, 'rx, 'd) proto \<Rightarrow> bytes \<Rightarrow> bool \<Rightarrow> duration \<Rightarrow> ('i, 'm, 'rx, 'd) session \<Rightarrow> world
      \<Rightarrow> tx_done client_result \<times> ('i, 'm, 'rx, 'd) session \<times> world" where
  "transmit P data skip timeout s w =
     (if data = [] then (Err Length, s, w)
      else if MAX_PAYLOAD_FIELD P < 1 + length data then (Panic, s, w)
      else command P (TYPE_TX P) (tx_flags_byte P skip # data) timeout (expect_tx_done P) s w)"

subsection \<open>What the calls leave unchanged\<close>

text \<open>The fields the reader task never writes.\<close>
definition link_view :: "('i, 'm, 'rx, 'd) session \<Rightarrow> u16 \<times> nat \<times> bool \<times> bool \<times> bytes list" where
  "link_view s = (next_tag s, next_chan s, closed s, reader_handle s, written s)"

lemma link_view_session_ops [frame_simps]:
  "link_view (chan_send c r s) = link_view s" "link_view (drop_sender c s) = link_view s"
  "link_view (pending_insert tag p s) = link_view s" "link_view (snd (pending_take tag s)) = link_view s"
  "link_view (pending_remove tag s) = link_view s" "link_view (wake_all why s) = link_view s"
  "link_view (push_rx x s) = link_view s" "link_view (push_err e s) = link_view s"
  "link_view (s\<lparr>decoder := d\<rparr>) = link_view s" "link_view (reader_exit s) = link_view s"
  "link_view (dispatch_async P ty pl s) = link_view s"
  by (auto simp: link_view_def chan_send_def drop_sender_def pending_insert_def pending_take_def
      pending_remove_def wake_all_eq push_rx_def push_err_def reader_exit_def dispatch_async_def split: option.splits)

lemma link_view_dispatch [frame_simps]: "link_view (dispatch P ty tag pl s) = link_view s"
proof -
  obtain r s' where "pending_take tag s = (r, s')" by fastforce
  moreover from this have "link_view s' = link_view s"
    using link_view_session_ops(4) [of tag s] by simp
  ultimately show ?thesis by (auto simp: dispatch_def frame_simps split: option.splits)
qed

lemma link_view_works [frame_simps]: "link_view (fold (handle_work P) ws s) = link_view s"
proof (induction ws arbitrary: s)
  case (Cons w ws)
  then show ?case by (cases w) (simp_all add: frame_simps)
qed simp

lemma link_view_reader [frame_simps]:
  "link_view (reader_chunk P bs s) = link_view s" "link_view (reader_iter P rd s) = link_view s"
proof -
  show *: "link_view (reader_chunk P bs s) = link_view s" for bs
    by (auto simp: reader_chunk_def frame_simps split: prod.splits)
  show "link_view (reader_iter P rd s) = link_view s"
    by (auto simp: reader_iter_def frame_simps * split: read_result.splits)
qed

subsection \<open>Waiting\<close>

lemma session_inv_written [simp]: "session_inv (s\<lparr>written := x\<rparr>) = session_inv s"
  by (simp add: session_inv_def)

lemma handle_work_le:
  assumes inv: "session_inv s"
  shows "pending_of (handle_work P w s) \<subseteq>\<^sub>m pending_of s"
proof (unfold map_le_def, rule ballI)
  fix tag
  assume d: "tag \<in> dom (pending_of (handle_work P w s))"
  with handle_work_no_entry [OF inv, of tag P w] obtain p where p: "pending_of s tag = Some p"
    by (cases "pending_of s tag") auto
  with handle_work_pending [OF inv p, of P w] d show "pending_of (handle_work P w s) tag = pending_of s tag"
    by (auto split: if_splits)
qed

lemma fold_handle_work_le: "session_inv s \<Longrightarrow> pending_of (fold (handle_work P) ws s) \<subseteq>\<^sub>m pending_of s"
proof (induction ws arbitrary: s)
  case (Cons w ws)
  from map_le_trans [OF Cons.IH [OF handle_work_inv [OF Cons.prems]] handle_work_le [OF Cons.prems]]
  show ?case by simp
qed simp

text \<open>The reader only ever removes entries.\<close>

lemma reader_iter_le:
  assumes "session_inv s"
  shows "pending_of (reader_iter P rd s) \<subseteq>\<^sub>m pending_of s"
proof -
  have "pending_of (reader_chunk P bs s) \<subseteq>\<^sub>m pending_of s" for bs
  proof (cases "decoder_feed P (decoder s) bs")
    case (Pair d rs)
    have "session_inv (s\<lparr>decoder := d\<rparr>)" using assms by simp
    from fold_handle_work_le [OF this] Pair show ?thesis by (simp add: reader_chunk_def)
  qed
  then show ?thesis
    by (auto simp: reader_iter_def reader_exit_def wake_all_eq split: read_result.splits)
qed

lemma await_loop_result:
  "await_loop P c dl now arr s = (r, now', rest, s') \<Longrightarrow> r = chans s' c \<and> now \<le> now' \<and> link_view s' = link_view s"
proof (induction P c dl now arr s rule: await_loop.induct)
  case (1 P c dl now s)
  then show ?case by (auto split: oneshot.splits)
next
  case (2 P c dl now a rd rest s)
  then show ?case by (auto simp: frame_simps split: oneshot.splits if_splits)
qed

lemma await_loop_inv:
  "await_loop P c dl now arr s = (r, now', rest, s') \<Longrightarrow> session_inv s \<Longrightarrow> session_inv s'"
proof (induction P c dl now arr s rule: await_loop.induct)
  case (1 P c dl now s)
  then show ?case by (auto split: oneshot.splits)
next
  case (2 P c dl now a rd rest s)
  then show ?case by (auto intro: keeps_inv split: oneshot.splits if_splits)
qed

lemma await_loop_le:
  "await_loop P c dl now arr s = (r, now', rest, s') \<Longrightarrow> session_inv s \<Longrightarrow> pending_of s' \<subseteq>\<^sub>m pending_of s"
proof (induction P c dl now arr s rule: await_loop.induct)
  case (1 P c dl now s)
  then show ?case by (auto split: oneshot.splits)
next
  case (2 P c dl now a rd arr s)
  note le = reader_iter_le [OF 2(3), of P rd] and inv = reader_iter_inv [OF 2(3), of P rd]
  show ?case
  proof (cases "chans s c = ChanOpen \<and> \<not> dl < a")
    case True
    with 2 inv have "pending_of s' \<subseteq>\<^sub>m pending_of (reader_iter P rd s)" by simp
    with le show ?thesis by (rule map_le_trans [rotated])
  next
    case False
    with 2(2) show ?thesis by (auto split: oneshot.splits if_splits)
  qed
qed

lemma await_loop_stream:
  "await_loop P c dl now arr s = (r, now', rest, s') \<Longrightarrow> rx_stream P s' rest = rx_stream P s arr"
proof (induction P c dl now arr s rule: await_loop.induct)
  case (1 P c dl now s)
  then show ?case by (auto split: oneshot.splits)
next
  case (2 P c dl now a rd rest s)
  then show ?case by (auto split: oneshot.splits if_splits)
qed

subsection \<open>Sleeping\<close>

lemma sleep_loop_stream:
  "sleep_loop P till arr s = (rest, s') \<Longrightarrow> rx_stream P s' rest = rx_stream P s arr"
  by (induction P till arr s rule: sleep_loop.induct) (auto split: if_splits)

lemma sleep_loop_keeps:
  "sleep_loop P till arr s = (rest, s') \<Longrightarrow> link_view s' = link_view s \<and> (session_inv s \<longrightarrow> session_inv s')"
proof (induction P till arr s rule: sleep_loop.induct)
  case (2 P till a rd arr s)
  then show ?case by (auto simp: frame_simps split: if_splits intro: keeps_inv)
qed simp

lemma sleep_keeps:
  "sleep P t s w = (s', w') \<Longrightarrow>
    link_view s' = link_view s \<and> (session_inv s \<longrightarrow> session_inv s') \<and> clock w' = clock w + t"
  by (auto simp: sleep_def split: prod.splits dest: sleep_loop_keeps)

lemma sleep_stream: "sleep P t s w = (s', w') \<Longrightarrow> rx_stream P s' (arrivals w') = rx_stream P s (arrivals w)"
  by (auto simp: sleep_def split: prod.splits dest: sleep_loop_stream)

lemma sleep_loop_split:
  "sleep_loop P till arr s = (rest, s') \<Longrightarrow>
    \<exists>pre. arr = pre @ rest \<and> s' = reader_loop P (map snd pre) s \<and> (\<forall>e \<in> set pre. fst e \<le> till)"
proof (induction P till arr s rule: sleep_loop.induct)
  case (2 P till a rd arr s)
  show ?case
  proof (cases "till < a")
    case True
    with 2(2) show ?thesis by auto
  next
    case False
    with 2 obtain pre where "arr = pre @ rest" "s' = reader_loop P (map snd pre) (reader_iter P rd s)"
      "\<forall>e \<in> set pre. fst e \<le> till" by auto
    with False show ?thesis by (intro exI [of _ "(a, rd) # pre"]) simp
  qed
qed simp

lemma reader_loop_le: "session_inv s \<Longrightarrow> pending_of (reader_loop P rs s) \<subseteq>\<^sub>m pending_of s"
proof (induction rs arbitrary: s)
  case (Cons rd rs)
  from map_le_trans [OF Cons.IH [OF reader_iter_inv [OF Cons.prems]] reader_iter_le [OF Cons.prems]]
  show ?case by simp
qed simp

lemma sleep_le: "sleep P t s w = (s', w') \<Longrightarrow> session_inv s \<Longrightarrow> pending_of s' \<subseteq>\<^sub>m pending_of s"
  by (auto simp: sleep_def split: prod.splits dest!: sleep_loop_split intro: reader_loop_le)

subsection \<open>Sending a command\<close>

text \<open>The state in which a command is written: its tag taken, its channel registered.\<close>
definition registered ::
    "u8 \<Rightarrow> ('i, 'm, 'rx, 'd) session \<Rightarrow> ('i, 'm, 'rx, 'd) session" where
  "registered ty s =
     pending_insert (next_tag s) \<lparr>cmd_type = ty, waker = next_chan s\<rparr>
       ((snd (alloc_tag s))\<lparr>next_chan := Suc (next_chan s)\<rparr>)"

lemma alloc_tag_fields [simp]:
  "fst (alloc_tag s) = next_tag s" "next_chan (snd (alloc_tag s)) = next_chan s"
  "pending_map (snd (alloc_tag s)) = pending_map s" "chans (snd (alloc_tag s)) = chans s"
  "closed (snd (alloc_tag s)) = closed s" "written (snd (alloc_tag s)) = written s"
  "reader_handle (snd (alloc_tag s)) = reader_handle s" "rx_queue (snd (alloc_tag s)) = rx_queue s"
  "async_err_queue (snd (alloc_tag s)) = async_err_queue s" "decoder (snd (alloc_tag s)) = decoder s"
  "reader_running (snd (alloc_tag s)) = reader_running s"
  by (simp_all add: alloc_tag_def Let_def)

lemma registered_inv:
  assumes inv: "session_inv s"
  shows "session_inv (registered ty s)"
  unfolding registered_def
proof (rule pending_insert_inv)
  show "session_inv ((snd (alloc_tag s))\<lparr>next_chan := Suc (next_chan s)\<rparr>)"
    using alloc_tag_inv [OF inv] by (auto simp: session_inv_def less_Suc_eq)
qed (use inv session_invD(5) [OF inv, of "next_chan s"] in \<open>auto simp: session_inv_def\<close>)

lemma registered_pending:
  assumes "session_inv s"
  shows "pending_of (registered ty s) =
    (pending_of s)(next_tag s \<mapsto> \<lparr>cmd_type = ty, waker = next_chan s\<rparr>)"
  by (simp add: registered_def AList.update_conv')

lemma registered_view:
  "link_view (registered ty s) =
    (next_tag (snd (alloc_tag s)), Suc (next_chan s), closed s, reader_handle s, written s)"
  by (simp add: registered_def frame_simps) (simp add: link_view_def)

lemma registered_stream [simp]:
  "rx_stream P (registered ty s) arr = rx_stream P s arr"
  by (rule rx_stream_view) (simp add: registered_def frame_simps)

text \<open>
  The ways a command on an open session can end: not encoded, not written, answered, its
  sender dropped, or out of time.
\<close>

lemma send_command_cases:
  assumes "send_command P ty pl timeout s w = (r, s', w')" "\<not> closed s"
  obtains
    (encode) e where "encode_frame P ty (next_tag s) pl = Inl e" "r = Err (EncodeFailed e)"
      "s' = pending_remove (next_tag s) (registered ty s)" "w' = w"
  | (failed) wire e b s3 where "encode_frame P ty (next_tag s) pl = Inr wire"
      "sleep P (write_time w (writes w)) ((registered ty s)\<lparr>written := written s @ (if b then [wire] else [])\<rparr>)
        (w\<lparr>writes := Suc (writes w)\<rparr>) = (s3, w')"
      "write_outcomes w (writes w) = (if b then FlushErr e else WriteErr e)" "r = Err (Io e)"
      "s' = pending_remove (next_tag s) s3"
  | (sent) wire s3 w3 ch now rest s4 where "encode_frame P ty (next_tag s) pl = Inr wire"
      "sleep P (write_time w (writes w)) ((registered ty s)\<lparr>written := written s @ [wire]\<rparr>)
        (w\<lparr>writes := Suc (writes w)\<rparr>) = (s3, w3)"
      "write_outcomes w (writes w) = WriteOk"
      "await_loop P (next_chan s) (clock w3 + timeout) (clock w3) (arrivals w3) s3 = (ch, now, rest, s4)"
      "w' = w3\<lparr>clock := now, arrivals := rest\<rparr>"
      "r = (case ch of ChanSent resp \<Rightarrow> Ok resp | ChanDropped \<Rightarrow> Err ReaderExited
            | ChanOpen \<Rightarrow> Err (Timeout (describe_cmd P ty)))"
      "s' = (case ch of ChanSent resp \<Rightarrow> s4 | _ \<Rightarrow> pending_remove (next_tag s) s4)"
proof -
  have wr: "written (registered ty s) = written s"
    using registered_view [of ty s] by (simp add: link_view_def)
  have wr2: "(registered ty s)\<lparr>written := written s\<rparr> = registered ty s"
    unfolding wr [symmetric] by simp
  have eq: "send_command P ty pl timeout s w =
      (case write_frame P ty (next_tag s) pl (registered ty s) w of
         (Err e, s3, w3) \<Rightarrow> (Err e, pending_remove (next_tag s) s3, w3)
       | (Panic, s3, w3) \<Rightarrow> (Panic, s3, w3)
       | (Ok _, s3, w3) \<Rightarrow>
           (case await_response P (next_chan s) timeout s3 w3 of
              (ChanSent resp, s4, w4) \<Rightarrow> (Ok resp, s4, w4)
            | (ChanDropped, s4, w4) \<Rightarrow> (Err ReaderExited, pending_remove (next_tag s) s4, w4)
            | (ChanOpen, s4, w4) \<Rightarrow>
                (Err (Timeout (describe_cmd P ty)), pending_remove (next_tag s) s4, w4)))"
  proof -
    define s1 where "s1 = snd (alloc_tag s)"
    have a: "alloc_tag s = (next_tag s, s1)" and c: "next_chan s1 = next_chan s"
      by (simp_all add: s1_def prod_eq_iff)
    show ?thesis
      unfolding send_command_def registered_def a Let_def prod.case snd_conv c if_not_P [OF assms(2)] ..
  qed
  show ?thesis
  proof (cases "encode_frame P ty (next_tag s) pl")
    case (Inl e)
    with assms(1) eq show ?thesis by (intro encode) (auto simp: write_frame_def)
  next
    case (Inr wire)
    let ?sl = "\<lambda>fs. sleep P (write_time w (writes w)) ((registered ty s)\<lparr>written := written s @ fs\<rparr>)
      (w\<lparr>writes := Suc (writes w)\<rparr>)"
    show ?thesis
    proof (cases "write_outcomes w (writes w)")
      case (WriteErr e)
      obtain s3 w3 where "?sl [] = (s3, w3)" by fastforce
      with assms(1) eq Inr wr WriteErr show ?thesis
        by (intro failed [where wire = wire and e = e and b = False]) (auto simp: write_frame_def wr2)
    next
      case (FlushErr e)
      obtain s3 w3 where "?sl [wire] = (s3, w3)" by fastforce
      with assms(1) eq Inr wr FlushErr show ?thesis
        by (intro failed [where wire = wire and e = e and b = True]) (auto simp: write_frame_def)
    next
      case WriteOk
      obtain s3 w3 where sl: "?sl [wire] = (s3, w3)" by fastforce
      obtain ch now rest s4 where aw:
        "await_loop P (next_chan s) (clock w3 + timeout) (clock w3) (arrivals w3) s3 = (ch, now, rest, s4)"
        by (metis prod_cases4)
      with assms(1) eq Inr wr sl WriteOk show ?thesis
        by (intro sent [OF Inr sl WriteOk aw]) (auto simp: write_frame_def await_response_def split: oneshot.splits)
    qed
  qed
qed

lemma send_command_closed:
  "closed s \<Longrightarrow> send_command P ty pl timeout s w = (Err (TransportClosed ''session closed''), s, w)"
  by (simp add: send_command_def)

lemma send_command_never_panics: "send_command P ty pl timeout s w = (r, s', w') \<Longrightarrow> r \<noteq> Panic"
  by (cases "closed s")
    (auto simp: send_command_closed elim!: send_command_cases split: oneshot.splits)

text \<open>The answered command has left the map: the channel fired, and entries own open channels.\<close>

lemma awaited_entry_gone:
  assumes inv: "session_inv s" and p: "pending_of s tag = Some p"
    and aw: "await_loop P (waker p) dl now arr s = (ChanSent resp, now', rest, s')"
  shows "pending_of s' tag = None"
proof (rule ccontr)
  assume "pending_of s' tag \<noteq> None"
  then obtain q where q: "pending_of s' tag = Some q" by auto
  with await_loop_le [OF aw inv] p have "q = p" by (force simp: map_le_def)
  moreover have "chans s' (waker q) = ChanOpen"
    using session_invD(6) [OF await_loop_inv [OF aw inv]] map_of_pending_in [OF q] by force
  ultimately show False using await_loop_result [OF aw] by simp
qed

lemma send_command_inv [keeps_inv]:
  assumes run: "send_command P ty pl timeout s w = (r, s', w')" and inv: "session_inv s"
  shows "session_inv s'"
proof (cases "closed s")
  case True
  with run inv show ?thesis by (simp add: send_command_closed)
next
  case False
  note reg = registered_inv [OF inv, of ty]
  from run False show ?thesis
  proof (cases rule: send_command_cases)
    case encode
    with reg show ?thesis by (auto intro: keeps_inv)
  next
    case (failed wire e b s3)
    with reg have "session_inv s3" by (auto dest: sleep_keeps)
    with failed show ?thesis by (auto intro!: keeps_inv)
  next
    case (sent wire s3 w3 ch now rest s4)
    with reg have "session_inv s3" by (auto dest: sleep_keeps)
    with sent have "session_inv s4" by (auto dest: await_loop_inv)
    with sent show ?thesis by (auto intro: keeps_inv split: oneshot.splits)
  qed
qed

lemma send_command_pending:
  assumes run: "send_command P ty pl timeout s w = (r, s', w')" and inv: "session_inv s" and op: "\<not> closed s"
  shows "pending_of s' \<subseteq>\<^sub>m (pending_of s)(next_tag s := None)"
proof -
  note reg = registered_inv [OF inv, of ty]
  note regp = registered_pending [OF inv, of ty]
  have remove: "pending_of (pending_remove (next_tag s) t) \<subseteq>\<^sub>m (pending_of s)(next_tag s := None)"
    if "pending_of t \<subseteq>\<^sub>m pending_of (registered ty s)" for t :: "('a, 'b, 'c, 'd) session"
    using that by (auto simp: map_le_def regp AList.delete_conv' split: if_splits)
  from run op show ?thesis
  proof (cases rule: send_command_cases)
    case encode
    then show ?thesis by (simp only:) (rule remove, simp)
  next
    case (failed wire e b s3)
    from sleep_le [OF failed(2)] reg show ?thesis unfolding failed(5) by (intro remove) simp
  next
    case (sent wire s3 w3 ch now rest s4)
    have inv3: "session_inv s3" using reg sleep_keeps [OF sent(2)] by simp
    have le3: "pending_of s3 \<subseteq>\<^sub>m pending_of (registered ty s)" using sleep_le [OF sent(2)] reg by simp
    have le: "pending_of s4 \<subseteq>\<^sub>m pending_of (registered ty s)"
      using map_le_trans [OF await_loop_le [OF sent(4) inv3]] le3 by simp
    show ?thesis
    proof (cases ch)
      case (ChanSent resp)
      have "pending_of s4 (next_tag s) = None"
      proof (cases "pending_of s3 (next_tag s)")
        case None
        with await_loop_le [OF sent(4) inv3] show ?thesis by (force simp: map_le_def)
      next
        case (Some q)
        with le3 have "q = \<lparr>cmd_type = ty, waker = next_chan s\<rparr>" by (force simp: map_le_def regp)
        with awaited_entry_gone [OF inv3, of "next_tag s" q] Some sent(4) ChanSent show ?thesis by simp
      qed
      with le ChanSent sent show ?thesis by (auto simp: map_le_def regp split: if_splits)
    qed (use sent remove [OF le] in simp_all)
  qed
qed

text \<open>A command takes one tag and one channel, and writes its own frame or none.\<close>

lemma send_command_link:
  assumes run: "send_command P ty pl timeout s w = (r, s', w')" and op: "\<not> closed s"
  obtains fs where
    "link_view s' = (next_tag (snd (alloc_tag s)), Suc (next_chan s), closed s, reader_handle s, written s @ fs)"
    "fs = [] \<and> (\<forall>x. r \<noteq> Ok x) \<or> (\<exists>f. encode_frame P ty (next_tag s) pl = Inr f \<and> fs = [f])"
proof -
  let ?view = "\<lambda>fs. (next_tag (snd (alloc_tag s)), Suc (next_chan s), closed s, reader_handle s, written s @ fs)"
  have reg: "link_view ((registered ty s)\<lparr>written := written s @ fs\<rparr>) = ?view fs" for fs
    using registered_view [of ty s] by (simp add: link_view_def)
  from run op show ?thesis
  proof (cases rule: send_command_cases)
    case encode
    show ?thesis by (rule that [of "[]"]) (use registered_view [of ty s] encode in \<open>simp_all add: frame_simps\<close>)
  next
    case (failed wire e b s3)
    with sleep_keeps [OF failed(2)] reg show ?thesis
      by (intro that [of "if b then [wire] else []"]) (auto simp: frame_simps)
  next
    case (sent wire s3 w3 ch now rest s4)
    with sleep_keeps [OF sent(2)] reg await_loop_result [OF sent(4)] show ?thesis
      by (intro that [of "[wire]"]) (auto simp: frame_simps split: oneshot.splits)
  qed
qed

lemma send_command_frame:
  assumes run: "send_command P ty pl timeout s w = (r, s', w')"
  shows "closed s' = closed s" "reader_handle s' = reader_handle s"
    "\<exists>fs. length fs \<le> 1 \<and> written s' = written s @ fs" "next_chan s \<le> next_chan s'"
proof -
  have "closed s' = closed s \<and> reader_handle s' = reader_handle s
    \<and> (\<exists>fs. length fs \<le> 1 \<and> written s' = written s @ fs) \<and> next_chan s \<le> next_chan s'"
  proof (cases "closed s")
    case True
    with run show ?thesis by (simp add: send_command_closed)
  next
    case False
    with run show ?thesis by (rule send_command_link) (auto simp: link_view_def)
  qed
  then show "closed s' = closed s" "reader_handle s' = reader_handle s"
    "\<exists>fs. length fs \<le> 1 \<and> written s' = written s @ fs" "next_chan s \<le> next_chan s'" by blast+
qed

lemma send_command_Ok_written:
  assumes "send_command P ty pl timeout s w = (Ok resp, s', w')"
  shows "\<exists>f. encode_frame P ty (next_tag s) pl = Inr f \<and> written s' = written s @ [f]"
proof -
  from assms have "\<not> closed s" by (auto simp: send_command_closed)
  with assms show ?thesis by (rule send_command_link) (auto simp: link_view_def)
qed

text \<open>On an open session with a transport that takes the frame, the frame is written, whatever follows.\<close>

lemma send_command_writes:
  assumes "send_command P ty pl timeout s w = (r, s', w')" "\<not> closed s"
    "encode_frame P ty (next_tag s) pl = Inr f" "write_outcomes w (writes w) = WriteOk"
  shows "written s' = written s @ [f]"
  using assms(1,2)
proof (cases rule: send_command_cases)
  case (sent wire s3 w3 ch now rest s4)
  have "link_view s' = link_view ((registered ty s)\<lparr>written := written s @ [wire]\<rparr>)"
    using sent sleep_keeps [OF sent(2)] await_loop_result [OF sent(4)]
    by (auto simp: frame_simps split: oneshot.splits)
  with sent(1) assms(3) show ?thesis by (simp add: link_view_def)
qed (use assms(3,4) in \<open>auto split: if_splits\<close>)

lemma send_command_tag:
  assumes run: "send_command P ty pl timeout s w = (r, s', w')" and op: "\<not> closed s"
  shows "next_tag s' = next_tag (snd (alloc_tag s))"
  using assms by (rule send_command_link) (simp add: link_view_def)

text \<open>The clock moves on by at most the time of the write and the timeout.\<close>

lemma await_loop_limit:
  "await_loop P c dl now arr s = (r, now', rest, s') \<Longrightarrow> now \<le> dl \<Longrightarrow> now' \<le> dl"
proof (induction P c dl now arr s rule: await_loop.induct)
  case (1 P c dl now s)
  then show ?case by (auto split: oneshot.splits)
next
  case (2 P c dl now a rd rest s)
  then show ?case by (auto split: oneshot.splits if_splits)
qed

lemma send_command_clock:
  assumes run: "send_command P ty pl timeout s w = (r, s', w')"
  shows "clock w \<le> clock w'" "clock w' \<le> clock w + write_time w (writes w) + timeout"
    "write_time w' = write_time w"
proof -
  have sleep_env: "write_time v' = write_time v" if "sleep P t u v = (u', v')"
    for t v v' and u u' :: "('a, 'b, 'c, 'd) session"
    using that by (auto simp: sleep_def split: prod.splits)
  have "clock w \<le> clock w' \<and> clock w' \<le> clock w + write_time w (writes w) + timeout \<and> write_time w' = write_time w"
  proof (cases "closed s")
    case True
    with run show ?thesis by (simp add: send_command_closed)
  next
    case False
    with run show ?thesis
    proof (cases rule: send_command_cases)
      case (failed wire e b s3)
      with sleep_keeps [OF failed(2)] sleep_env [OF failed(2)] show ?thesis by simp
    next
      case (sent wire s3 w3 ch now rest s4)
      with sleep_keeps [OF sent(2)] sleep_env [OF sent(2)] await_loop_result [OF sent(4)]
        await_loop_limit [OF sent(4)]
      show ?thesis by simp
    qed simp
  qed
  then show "clock w \<le> clock w'" "clock w' \<le> clock w + write_time w (writes w) + timeout"
    "write_time w' = write_time w" by blast+
qed

lemma send_command_stream:
  assumes run: "send_command P ty pl timeout s w = (r, s', w')"
  shows "rx_stream P s' (arrivals w') = rx_stream P s (arrivals w)"
proof (cases "closed s")
  case True
  with run show ?thesis by (simp add: send_command_closed)
next
  case False
  have eqs: "rx_stream P (pending_remove tag t) arr = rx_stream P t arr"
    "rx_stream P (t\<lparr>written := x\<rparr>) arr = rx_stream P t arr" for tag x arr and t :: "('a, 'b, 'c, 'd) session"
    by (rule rx_stream_view, simp add: frame_simps)+
  from run False show ?thesis
  proof (cases rule: send_command_cases)
    case (failed wire e b s3)
    with sleep_stream [OF failed(2)] show ?thesis by (simp add: eqs)
  next
    case (sent wire s3 w3 ch now rest s4)
    with sleep_stream [OF sent(2)] await_loop_stream [OF sent(4)] show ?thesis by (cases ch) (simp_all add: eqs)
  qed (simp_all add: eqs)
qed

subsection \<open>Interface: an operation of the session\<close>

text \<open>
  The contract that all typed commands share and that the dongle relies on: the invariant is kept,
  a closed session is left alone and never answers, nobody else's entry is added or changed, the
  close flag is not touched, the clock does not run backwards, at most one frame is written, and no
  received packet is lost or reordered.
\<close>

locale session_op =
  fixes P :: "('i, 'm, 'rx, 'd) proto"
    and op :: "('i, 'm, 'rx, 'd) session \<Rightarrow> world \<Rightarrow> 'a client_result \<times> ('i, 'm, 'rx, 'd) session \<times> world"
  assumes op_inv: "op s w = (r, s', w') \<Longrightarrow> session_inv s \<Longrightarrow> session_inv s'"
    and op_closed: "closed s \<Longrightarrow> op s w = (r, s', w') \<Longrightarrow> s' = s \<and> w' = w \<and> (\<forall>x. r \<noteq> Ok x)"
    and op_pending: "op s w = (r, s', w') \<Longrightarrow> session_inv s \<Longrightarrow> pending_of s' \<subseteq>\<^sub>m pending_of s"
    and op_flag: "op s w = (r, s', w') \<Longrightarrow> closed s' = closed s"
    and op_clock: "op s w = (r, s', w') \<Longrightarrow> clock w \<le> clock w'"
    and op_written: "op s w = (r, s', w') \<Longrightarrow> \<exists>fs. length fs \<le> 1 \<and> written s' = written s @ fs"
    and op_stream: "op s w = (r, s', w') \<Longrightarrow> rx_stream P s' (arrivals w') = rx_stream P s (arrivals w)"
begin

lemma op_Ok_open: "op s w = (Ok x, s', w') \<Longrightarrow> \<not> closed s"
  using op_closed by blast

text \<open>A session with nothing outstanding has nothing outstanding after the call.\<close>

lemma op_idle:
  assumes "op s w = (r, s', w')" "session_inv s" "pending_map s = []"
  shows "pending_map s' = []"
proof -
  have "pending_of s' \<subseteq>\<^sub>m Map.empty" using op_pending [OF assms(1,2)] assms(3) by simp
  then have none: "pending_of s' a = None" for a by (auto simp: map_le_def domIff)
  show ?thesis
  proof (cases "pending_map s'")
    case (Cons e es)
    with none [of "fst e"] show ?thesis by simp
  qed
qed

end

lemma command_op: "session_op P (command P ty pl timeout expect)"
proof
  fix s w r s' w'
  assume run: "command P ty pl timeout expect s w = (r, s', w')"
  then obtain r0 where sc: "send_command P ty pl timeout s w = (r0, s', w')"
    by (auto simp: command_def split: prod.splits client_result.splits)
  show "session_inv s'" if "session_inv s" using send_command_inv [OF sc that] .
  show "closed s' = closed s" "clock w \<le> clock w'" "\<exists>fs. length fs \<le> 1 \<and> written s' = written s @ fs"
    using send_command_frame [OF sc] send_command_clock [OF sc] by blast+
  show "rx_stream P s' (arrivals w') = rx_stream P s (arrivals w)" using send_command_stream [OF sc] .
  show "s' = s \<and> w' = w \<and> (\<forall>x. r \<noteq> Ok x)" if "closed s"
    using run by (auto simp: command_def send_command_closed [OF that])
  show "pending_of s' \<subseteq>\<^sub>m pending_of s" if "session_inv s"
  proof (cases "closed s")
    case True
    with sc show ?thesis by (simp add: send_command_closed)
  next
    case False
    from send_command_pending [OF sc that False] show ?thesis by (auto simp: map_le_def split: if_splits)
  qed
qed

interpretation ping_op: session_op P "ping P timeout" for P timeout
  unfolding ping_def by (rule command_op)

interpretation get_info_op: session_op P "get_info P timeout" for P timeout
  unfolding get_info_def by (rule command_op)

interpretation rx_start_op: session_op P "rx_start P timeout" for P timeout
  unfolding rx_start_def by (rule command_op)

interpretation rx_stop_op: session_op P "rx_stop P timeout" for P timeout
  unfolding rx_stop_def by (rule command_op)

text \<open>Returning at once, before anything is sent, also meets the contract.\<close>

lemma refuse_op: "(\<And>x. e \<noteq> Ok x) \<Longrightarrow> session_op P (\<lambda>s w. (e, s, w))"
  by unfold_locales (auto split: if_splits)

interpretation set_config_op: session_op P "set_config P m timeout" for P m timeout
proof (cases "encode_set_config P m")
  case (Inl e)
  then have "set_config P m timeout = (\<lambda>s w. (Err (EncodeFailed e), s, w))"
    by (simp add: set_config_def fun_eq_iff)
  then show "session_op P (set_config P m timeout)" by (simp add: refuse_op)
next
  case (Inr pl)
  then have "set_config P m timeout = command P (TYPE_SET_CONFIG P) pl timeout (expect_set_config P)"
    by (simp add: set_config_def fun_eq_iff)
  then show "session_op P (set_config P m timeout)" by (simp add: command_op)
qed

lemma transmit_cases:
  "data = [] \<Longrightarrow> transmit P data skip timeout = (\<lambda>s w. (Err Length, s, w))"
  "data \<noteq> [] \<Longrightarrow> MAX_PAYLOAD_FIELD P \<le> length data \<Longrightarrow> transmit P data skip timeout = (\<lambda>s w. (Panic, s, w))"
  "data \<noteq> [] \<Longrightarrow> length data < MAX_PAYLOAD_FIELD P \<Longrightarrow> transmit P data skip timeout =
     command P (TYPE_TX P) (tx_flags_byte P skip # data) timeout (expect_tx_done P)"
  by (simp_all add: transmit_def fun_eq_iff)

interpretation transmit_op: session_op P "transmit P data skip timeout" for P data skip timeout
proof -
  consider "data = []" | "data \<noteq> []" "MAX_PAYLOAD_FIELD P \<le> length data"
    | "data \<noteq> []" "length data < MAX_PAYLOAD_FIELD P" by fastforce
  then show "session_op P (transmit P data skip timeout)"
    by cases (simp_all add: transmit_cases refuse_op command_op)
qed

subsection \<open>Reading in pieces\<close>

text \<open>The decoder over several reads: its state and all frames, in order.\<close>
fun feed_all :: "('i, 'm, 'rx, 'd) proto \<Rightarrow> 'd \<Rightarrow> bytes list \<Rightarrow> 'd \<times> frame_result list" where
  "feed_all P d [] = (d, [])"
| "feed_all P d (b # bs) =
     (let (d1, r1) = decoder_feed P d b; (d2, r2) = feed_all P d1 bs in (d2, r1 @ r2))"

lemma small_ops_decoder:
  "chan_send c r (s\<lparr>decoder := d\<rparr>) = (chan_send c r s)\<lparr>decoder := d\<rparr>"
  "pending_insert tag p (s\<lparr>decoder := d\<rparr>) = (pending_insert tag p s)\<lparr>decoder := d\<rparr>"
  "push_rx x (s\<lparr>decoder := d\<rparr>) = (push_rx x s)\<lparr>decoder := d\<rparr>"
  "push_err e (s\<lparr>decoder := d\<rparr>) = (push_err e s)\<lparr>decoder := d\<rparr>"
  "pending_take tag (s\<lparr>decoder := d\<rparr>) = map_prod id (\<lambda>t. t\<lparr>decoder := d\<rparr>) (pending_take tag s)"
  by (simp_all add: chan_send_def pending_insert_def drop_sender_def push_rx_def push_err_def pending_take_def
      split: option.split)

lemma dispatch_async_decoder:
  "dispatch_async P ty pl (s\<lparr>decoder := d\<rparr>) = (dispatch_async P ty pl s)\<lparr>decoder := d\<rparr>"
  by (simp add: dispatch_async_def small_ops_decoder split: option.split)

lemma dispatch_decoder:
  "dispatch P ty tag pl (s\<lparr>decoder := d\<rparr>) = (dispatch P ty tag pl s)\<lparr>decoder := d\<rparr>"
proof (cases "pending_take tag s")
  case (Pair r s')
  then show ?thesis
    by (cases r) (simp_all add: dispatch_def small_ops_decoder dispatch_async_decoder)
qed

lemma handle_work_decoder: "handle_work P w (s\<lparr>decoder := d\<rparr>) = (handle_work P w s)\<lparr>decoder := d\<rparr>"
  by (cases w) (simp_all add: dispatch_decoder small_ops_decoder)

lemma fold_handle_work_decoder:
  "fold (handle_work P) ws (s\<lparr>decoder := d\<rparr>) = (fold (handle_work P) ws s)\<lparr>decoder := d\<rparr>"
  by (induction ws arbitrary: s) (simp_all add: handle_work_decoder)

lemma small_ops_running [simp]:
  "reader_running (chan_send c r s) = reader_running s" "reader_running (pending_insert tag p s) = reader_running s"
  "reader_running (push_rx x s) = reader_running s" "reader_running (push_err e s) = reader_running s"
  "reader_running (snd (pending_take tag s)) = reader_running s"
  by (simp_all add: chan_send_def pending_insert_def drop_sender_def push_rx_def push_err_def pending_take_def
      split: option.split)

lemma dispatch_running [simp]: "reader_running (dispatch P ty tag pl s) = reader_running s"
proof (cases "pending_take tag s")
  case (Pair r s')
  then have "reader_running s' = reader_running s" using small_ops_running(5) [of tag s] by simp
  with Pair show ?thesis
    by (cases r) (simp_all add: dispatch_def dispatch_async_def split: option.split)
qed

lemma handle_work_running [simp]: "reader_running (handle_work P w s) = reader_running s"
  by (cases w) simp_all

lemma fold_handle_work_running [simp]:
  "reader_running (fold (handle_work P) ws s) = reader_running s"
  by (induction ws arbitrary: s) simp_all

lemma fold_handle_work_closed [simp]: "closed (fold (handle_work P) ws s) = closed s"
  using link_view_works [of P ws s] by (simp add: link_view_def)

text \<open>
  However the bytes are cut into reads, the session ends up where handling all decoded frames in
  order takes it.
\<close>

lemma reader_loop_chunks:
  assumes "reader_running s" "\<not> closed s" "[] \<notin> set bs"
  shows "reader_loop P (map ReadOk bs) s =
    (fold (handle_work P) (map frame_work_of (snd (feed_all P (decoder s) bs))) s)
      \<lparr>decoder := fst (feed_all P (decoder s) bs)\<rparr>"
  using assms
proof (induction bs arbitrary: s)
  case Nil
  then show ?case by simp
next
  case (Cons b bs)
  obtain d1 r1 where f: "decoder_feed P (decoder s) b = (d1, r1)" by fastforce
  let ?s1 = "(fold (handle_work P) (map frame_work_of r1) s)\<lparr>decoder := d1\<rparr>"
  have "b \<noteq> []" using Cons.prems(3) by auto
  then have step: "reader_iter P (ReadOk b) s = ?s1"
    using Cons.prems f by (simp add: reader_iter_def reader_chunk_def fold_handle_work_decoder)
  have "reader_running ?s1" "\<not> closed ?s1" "[] \<notin> set bs" using Cons.prems by simp_all
  from Cons.IH [OF this] show ?case
    by (simp add: step f fold_handle_work_decoder split: prod.splits)
qed

text \<open>With a stream decoder only the bytes matter, not their division.\<close>

lemma feed_all_concat:
  assumes "\<And>d a b. decoder_feed P d (a @ b) =
      (let (d1, r1) = decoder_feed P d a; (d2, r2) = decoder_feed P d1 b in (d2, r1 @ r2))"
  shows "bs \<noteq> [] \<Longrightarrow> feed_all P d bs = decoder_feed P d (concat bs)"
proof (induction bs arbitrary: d)
  case (Cons b bs)
  then show ?case
    by (cases "bs = []") (simp_all add: assms split: prod.splits)
qed simp

lemma feed_all_cong:
  assumes "\<And>d bs. bs \<noteq> [] \<Longrightarrow> feed_all P d bs = decoder_feed P d (concat bs)"
    "[] \<notin> set bs" "[] \<notin> set cs" "concat bs = concat cs"
  shows "feed_all P d bs = feed_all P d cs"
proof -
  have "bs = [] \<longleftrightarrow> cs = []" using assms(2-4) by (cases bs; cases cs) auto
  with assms(1) assms(4) show ?thesis by (cases "bs = []") auto
qed

lemma reader_iter_idle:
  assumes inv: "session_inv s" and c: "c \<notin> wakers s"
  shows "chans (reader_iter P rd s) c = chans s c \<and> c \<notin> wakers (reader_iter P rd s)"
proof -
  have idle: "chans (reader_exit s) c = chans s c \<and> c \<notin> wakers (reader_exit s)"
    using c by (simp add: reader_exit_def wake_all_eq)
  have works: "chans (fold (handle_work P) ws t) c = chans t c \<and> c \<notin> wakers (fold (handle_work P) ws t)"
    if "session_inv t" "c \<notin> wakers t" for ws and t :: "('a, 'b, 'c, 'd) session"
    using that
  proof (induction ws arbitrary: t)
    case (Cons w ws)
    from Cons.IH [OF handle_work_inv [OF Cons.prems(1)]] handle_work_idle [OF Cons.prems, of P w]
    show ?case by simp
  qed simp
  have "chans (reader_chunk P bs s) c = chans s c \<and> c \<notin> wakers (reader_chunk P bs s)" for bs
    using works [of "s\<lparr>decoder := d\<rparr>" for d] inv c by (auto simp: reader_chunk_def split: prod.splits)
  with idle c show ?thesis by (auto simp: reader_iter_def split: read_result.splits)
qed

lemma reader_loop_idle:
  "session_inv s \<Longrightarrow> c \<notin> wakers s \<Longrightarrow> chans (reader_loop P rs s) c = chans s c"
proof (induction rs arbitrary: s)
  case (Cons rd rs)
  from Cons.IH [OF reader_iter_inv [OF Cons.prems(1)]] reader_iter_idle [OF Cons.prems, of P rd]
  show ?case by simp
qed simp

text \<open>
  The wait returns the response if the reads up to the deadline produce one; reads that come
  after the deciding one cannot change it.
\<close>

lemma await_loop_answered:
  assumes "session_inv s" "\<forall>(a, rd) \<in> set pre. a \<le> dl"
    "chans (reader_loop P (map snd pre) s) c = ChanSent resp"
  shows "\<exists>now' rest s'. await_loop P c dl now (pre @ post) s = (ChanSent resp, now', rest, s')"
  using assms
proof (induction pre arbitrary: s now)
  case Nil
  then show ?case by (cases post) auto
next
  case (Cons e pre)
  obtain a rd where e: "e = (a, rd)" by fastforce
  show ?case
  proof (cases "chans s c = ChanOpen")
    case True
    have "chans (reader_loop P (map snd pre) (reader_iter P rd s)) c = ChanSent resp"
      using Cons.prems(3) by (simp add: e)
    with Cons.IH [OF reader_iter_inv [OF Cons.prems(1)]] Cons.prems(2) True show ?thesis by (simp add: e)
  next
    case False
    then have "c \<notin> wakers s" using session_invD(6) [OF Cons.prems(1)] by auto
    from reader_loop_idle [OF Cons.prems(1) this, of P "map snd (e # pre)"] Cons.prems(3)
    have "chans s c = ChanSent resp" by (simp only:)
    then show ?thesis by (simp add: e)
  qed
qed

text \<open>After the reader has ended, nothing decides an open channel.\<close>

lemma await_loop_dead:
  "\<not> reader_running s \<Longrightarrow> chans s c = ChanOpen \<Longrightarrow> now \<le> dl \<Longrightarrow>
    \<exists>rest. await_loop P c dl now arr s = (ChanOpen, dl, rest, s)"
proof (induction P c dl now arr s rule: await_loop.induct)
  case (2 P c dl now a rd arr s)
  then show ?case by (auto simp: reader_iter_def)
qed simp

lemma registered_fields [simp]:
  "reader_running (registered ty s) = reader_running s" "decoder (registered ty s) = decoder s"
  "closed (registered ty s) = closed s"
  by (simp_all add: registered_def pending_insert_def drop_sender_def split: option.split)

lemma reader_loop_append: "reader_loop P (as @ bs) s = reader_loop P bs (reader_loop P as s)"
  by (induction as arbitrary: s) simp_all

text \<open>A command written to a session whose reader has ended only waits for its deadline.\<close>

lemma sleep_dead: "\<not> reader_running s \<Longrightarrow> sleep P t s w = (s', w') \<Longrightarrow> s' = s"
proof -
  have "snd (sleep_loop P till arr s) = s" if "\<not> reader_running s" for till arr
    using that by (induction P till arr s rule: sleep_loop.induct) (simp_all add: reader_iter_def)
  then show "\<not> reader_running s \<Longrightarrow> sleep P t s w = (s', w') \<Longrightarrow> s' = s"
    by (auto simp: sleep_def split: prod.splits dest: arg_cong [where f = snd])
qed

lemma send_command_dead:
  assumes inv: "session_inv s" and op: "\<not> closed s" and dead: "\<not> reader_running s"
    and enc: "encode_frame P ty (next_tag s) pl = Inr wire" and wr: "write_outcomes w (writes w) = WriteOk"
  obtains s' w' where "send_command P ty pl timeout s w = (Err (Timeout (describe_cmd P ty)), s', w')"
    "clock w' = clock w + write_time w (writes w) + timeout"
proof -
  obtain r s' w' where run: "send_command P ty pl timeout s w = (r, s', w')" by (metis prod_cases3)
  let ?s3 = "(registered ty s)\<lparr>written := written s @ [wire]\<rparr>"
  have dead3: "\<not> reader_running ?s3" using dead by simp
  have p: "pending_of ?s3 (next_tag s) = Some \<lparr>cmd_type = ty, waker = next_chan s\<rparr>"
    by (simp add: registered_pending [OF inv])
  have "session_inv ?s3" using registered_inv [OF inv] by simp
  then have o: "chans ?s3 (next_chan s) = ChanOpen"
    using session_invD(6) map_of_pending_in [OF p] by force
  from run op have "r = Err (Timeout (describe_cmd P ty)) \<and> clock w' = clock w + write_time w (writes w) + timeout"
  proof (cases rule: send_command_cases)
    case (sent wire' s3 w3 ch now rest s4)
    have "s3 = ?s3" using sleep_dead [OF _ sent(2)] dead sent(1) enc by simp
    with await_loop_dead [OF dead3 o, of "clock w3" "clock w3 + timeout" P "arrivals w3"] sent
      sleep_keeps [OF sent(2)] show ?thesis by auto
  qed (use enc wr in \<open>auto split: if_splits\<close>)
  with run that show ?thesis by blast
qed

text \<open>The same when some of the reads already happened during the write.\<close>

lemma await_loop_after_sleep:
  assumes inv: "session_inv s" and sl: "sleep P t s w = (s3, w3)" and arr: "arrivals w = pre @ post"
    and pre: "\<forall>(a, rd) \<in> set pre. a \<le> dl"
    and sent: "chans (reader_loop P (map snd pre) s) c = ChanSent resp"
  shows "\<exists>now' rest s'. await_loop P c dl now (arrivals w3) s3 = (ChanSent resp, now', rest, s')"
proof -
  from sl obtain pre' where split: "pre @ post = pre' @ arrivals w3" and s3: "s3 = reader_loop P (map snd pre') s"
    unfolding arr [symmetric] by (auto simp: sleep_def split: prod.splits dest!: sleep_loop_split)
  have inv3: "session_inv s3" unfolding s3 using inv by (rule reader_loop_inv)
  from split consider us where "pre = pre' @ us" "arrivals w3 = us @ post"
    | us where "pre' = pre @ us" by (auto simp: append_eq_append_conv2)
  then show ?thesis
  proof cases
    case 1
    with sent have "chans (reader_loop P (map snd us) s3) c = ChanSent resp"
      by (simp add: s3 reader_loop_append)
    with await_loop_answered [OF inv3, of us] pre 1 show ?thesis by simp
  next
    case 2
    have "c \<notin> wakers (reader_loop P (map snd pre) s)"
      using session_invD(6) [OF reader_loop_inv [OF inv, of P "map snd pre"]] sent by force
    with 2 sent reader_loop_idle [OF reader_loop_inv [OF inv]] have "chans (reader_loop P [] s3) c = ChanSent resp"
      by (simp add: s3 reader_loop_append)
    with await_loop_answered [OF inv3, of "[]"] show ?thesis by simp
  qed
qed

text \<open>
  Round trip of a command: what the caller gets is the reading of the first completing frame among
  those decoded from the reads up to the deadline.
\<close>

lemma send_command_answered:
  assumes inv: "session_inv s" and op: "\<not> closed s" and run: "reader_running s"
    and enc: "encode_frame P ty (next_tag s) pl = Inr wire"
    and wr: "write_outcomes w (writes w) = WriteOk"
    and arr: "arrivals w = map (\<lambda>(a, b). (a, ReadOk b)) pre @ post"
    and pre: "\<forall>(a, b) \<in> set pre. a \<le> clock w + write_time w (writes w) + timeout \<and> b \<noteq> []"
    and first: "find (completes P ty (next_tag s))
      (map frame_work_of (snd (feed_all P (decoder s) (map snd pre)))) = Some wk"
  shows "fst (send_command P ty pl timeout s w) = Ok (work_response P ty wk)"
proof -
  let ?s3 = "(registered ty s)\<lparr>written := written s @ [wire]\<rparr>"
  let ?p = "\<lparr>cmd_type = ty, waker = next_chan s\<rparr>"
  let ?pre = "map (\<lambda>(a, b). (a, ReadOk b)) pre"
  have inv3: "session_inv ?s3" using registered_inv [OF inv] by simp
  have p3: "pending_of ?s3 (next_tag s) = Some ?p" by (simp add: registered_pending [OF inv])
  have m: "map snd ?pre = map ReadOk (map snd pre)" by auto
  have "[] \<notin> set (map snd pre)" using pre by auto
  moreover have "reader_running ?s3" "\<not> closed ?s3" "decoder ?s3 = decoder s" using op run by simp_all
  ultimately have rl: "reader_loop P (map snd ?pre) ?s3 =
      (fold (handle_work P) (map frame_work_of (snd (feed_all P (decoder s) (map snd pre)))) ?s3)
        \<lparr>decoder := fst (feed_all P (decoder s) (map snd pre))\<rparr>"
    unfolding m using reader_loop_chunks [of ?s3 "map snd pre" P] by simp
  have decided: "chans (reader_loop P (map snd ?pre) ?s3) (next_chan s) = ChanSent (work_response P ty wk)"
    using fold_handle_work_first [OF inv3 p3, of P "map frame_work_of (snd (feed_all P (decoder s) (map snd pre)))"]
    unfolding rl by (simp add: first)
  obtain r s' w' where sc: "send_command P ty pl timeout s w = (r, s', w')"
    by (metis prod_cases3)
  from sc op have "r = Ok (work_response P ty wk)"
  proof (cases rule: send_command_cases)
    case (sent wire' s3 w3 ch now rest s4)
    have dl: "\<forall>(a, rd) \<in> set ?pre. a \<le> clock w3 + timeout"
      using pre sleep_keeps [OF sent(2)] by auto
    have "\<exists>now' rest s'. await_loop P (next_chan s) (clock w3 + timeout) (clock w3) (arrivals w3) s3
        = (ChanSent (work_response P ty wk), now', rest, s')"
      by (rule await_loop_after_sleep [OF inv3 _ _ dl decided, where w = "w\<lparr>writes := Suc (writes w)\<rparr>" and post = post])
        (use sent(1,2) enc arr in auto)
    with sent(4,6) show ?thesis by auto
  qed (use enc wr in \<open>auto split: if_splits\<close>)
  with sc show ?thesis by simp
qed

subsection \<open>Receiving\<close>

lemma session_inv_rx_queue [simp]: "session_inv (s\<lparr>rx_queue := q\<rparr>) = session_inv s"
  by (simp add: session_inv_def)

lemma try_recv_rx_keeps:
  "try_recv_rx s = Some (x, s') \<Longrightarrow> link_view s' = link_view s \<and> session_inv s' = session_inv s
    \<and> pending_map s' = pending_map s"
  by (auto simp: try_recv_rx_def link_view_def split: list.splits)

lemma recv_loop_keeps:
  "recv_loop P dl now arr s = (r, now', rest, s') \<Longrightarrow>
    now \<le> now' \<and> link_view s' = link_view s \<and> (session_inv s \<longrightarrow> session_inv s')"
proof (induction P dl now arr s rule: recv_loop.induct)
  case (1 P dl now s)
  then show ?case
    by (auto split: option.splits if_splits dest: try_recv_rx_keeps)
next
  case (2 P dl now a rd arr s)
  then show ?case
    by (auto simp: frame_simps split: option.splits if_splits intro: keeps_inv dest: try_recv_rx_keeps)
qed

lemma recv_loop_stream:
  "recv_loop P dl now arr s = (r, now', rest, s') \<Longrightarrow>
    rx_stream P s arr = (case r of Some (Some x) \<Rightarrow> [x] | _ \<Rightarrow> []) @ rx_stream P s' rest"
proof (induction P dl now arr s rule: recv_loop.induct)
  case (1 P dl now s)
  then show ?case by (auto split: option.splits if_splits dest: try_recv_rx_stream)
next
  case (2 P dl now a rd arr s)
  then show ?case
    by (auto split: option.splits if_splits dest: try_recv_rx_stream simp del: rx_stream_read)
      (simp_all)
qed

lemma recv_rx_keeps:
  "recv_rx P t s w = (x, s', w') \<Longrightarrow>
    link_view s' = link_view s \<and> (session_inv s \<longrightarrow> session_inv s') \<and> clock w \<le> clock w'"
  by (auto simp: recv_rx_def split: prod.splits option.splits dest!: recv_loop_keeps)

lemma next_rx_keeps:
  "next_rx P s w = (x, s', w') \<Longrightarrow>
    link_view s' = link_view s \<and> (session_inv s \<longrightarrow> session_inv s') \<and> clock w \<le> clock w'"
  by (auto simp: next_rx_def split: prod.splits dest!: recv_loop_keeps)

lemma recv_rx_stream:
  "recv_rx P t s w = (x, s', w') \<Longrightarrow>
    rx_stream P s (arrivals w) = (case x of Some p \<Rightarrow> [p] | None \<Rightarrow> []) @ rx_stream P s' (arrivals w')"
  by (auto simp: recv_rx_def split: prod.splits option.splits dest!: recv_loop_stream)

lemma next_rx_stream:
  "next_rx P s w = (x, s', w') \<Longrightarrow>
    rx_stream P s (arrivals w) = (case x of Some (Some p) \<Rightarrow> [p] | _ \<Rightarrow> []) @ rx_stream P s' (arrivals w')"
  by (auto simp: next_rx_def split: prod.splits dest!: recv_loop_stream)

lemma close_inv [keeps_inv]: "session_inv s \<Longrightarrow> session_inv (close s)"
  using wake_all_inv [of "s\<lparr>closed := True\<rparr>" "''session closed''"]
  by (auto simp: close_def session_inv_def Let_def)

lemma close_closed [simp]: "closed (close s)"
  by (simp add: close_def wake_all_eq Let_def)

lemma close_written [simp]: "written (close s) = written s"
  by (simp add: close_def wake_all_eq Let_def)

end
