(* ===== verification/Interleaving.thy ===== *)
theory Interleaving
  imports Commands
begin

text \<open>
  The session as a concurrent system. Any number of tasks call \<^verbatim>\<open>send_command\<close> or
  \<^verbatim>\<open>close\<close> while the reader task runs; a step is what one task does between two points at
  which another may run (an \<^verbatim>\<open>await\<close>, or the end of a critical section), so the step relation
  has every interleaving. The rules use the operations of the session theory. A caller may also
  drop its future at any await, which leaves the call abandoned where it stands.

  Two fields are there for the specification only: \<open>meta\<close> remembers for which command type and tag a
  channel was created, \<open>taken\<close> lists the tagged frames for which the reader took an entry out of the
  map.
\<close>

subsection \<open>State\<close>

datatype ('i, 'm) task =
    Idle
  | Checked u8 bytes
  | Registering u8 bytes u16 nat
  | Writing u8 bytes u16 nat
  | Waiting u8 u16 nat
  | CleaningUp client_error u8 u16 nat
  | Returned "('i, 'm) session_response client_result" u8 u16 nat
  | Abandoned u8 u16 nat
  | Refused
  | CloseTaking
  | CloseWaking "pending list"
  | CloseAborting
  | CloseDone
  | CloseDropped

datatype reader_pc =
    RTop
  | RReading
  | RWorking "frame_work list"
  | RHolding pending u8 u16 bytes "frame_work list"
  | RLeaving
  | RWaking "pending list"
  | RGone

record ('i, 'm, 'rx, 'd) sys =
  sess :: "('i, 'm, 'rx, 'd) session"
  tasks :: "nat \<Rightarrow> ('i, 'm) task"
  reader :: reader_pc
  aborting :: bool
  meta :: "nat \<Rightarrow> u8 \<times> u16"
  taken :: "frame_work list"

definition sys_init :: "('i, 'm, 'rx, 'd) proto \<Rightarrow> ('i, 'm, 'rx, 'd) sys" where
  "sys_init P =
     \<lparr>sess = spawn P, tasks = (\<lambda>_. Idle), reader = RTop, aborting = False,
      meta = (\<lambda>_. (0, 0)), taken = []\<rparr>"

subsection \<open>Steps of a caller\<close>

inductive call_step ::
    "('i, 'm, 'rx, 'd) proto \<Rightarrow> nat \<Rightarrow> ('i, 'm, 'rx, 'd) sys \<Rightarrow> ('i, 'm, 'rx, 'd) sys \<Rightarrow> bool"
  for P i where
  refuse: "tasks S i = Idle \<Longrightarrow> closed (sess S) \<Longrightarrow> call_step P i S (S\<lparr>tasks := (tasks S)(i := Refused)\<rparr>)"
| check: "tasks S i = Idle \<Longrightarrow> \<not> closed (sess S) \<Longrightarrow>
    call_step P i S (S\<lparr>tasks := (tasks S)(i := Checked ty pl)\<rparr>)"
| alloc: "tasks S i = Checked ty pl \<Longrightarrow> alloc_tag (sess S) = (tag, s1) \<Longrightarrow> c = next_chan s1 \<Longrightarrow>
    call_step P i S (S\<lparr>sess := s1\<lparr>next_chan := Suc c\<rparr>,
      tasks := (tasks S)(i := Registering ty pl tag c), meta := (meta S)(c := (ty, tag))\<rparr>)"
| register: "tasks S i = Registering ty pl tag c \<Longrightarrow>
    call_step P i S (S\<lparr>sess := pending_insert tag \<lparr>cmd_type = ty, waker = c\<rparr> (sess S),
      tasks := (tasks S)(i := Writing ty pl tag c)\<rparr>)"
| write_ok: "tasks S i = Writing ty pl tag c \<Longrightarrow> encode_frame P ty tag pl = Inr wire \<Longrightarrow>
    call_step P i S (S\<lparr>sess := (sess S)\<lparr>written := written (sess S) @ [wire]\<rparr>,
      tasks := (tasks S)(i := Waiting ty tag c)\<rparr>)"
| encode_fail: "tasks S i = Writing ty pl tag c \<Longrightarrow> encode_frame P ty tag pl = Inl e \<Longrightarrow>
    call_step P i S (S\<lparr>tasks := (tasks S)(i := CleaningUp (EncodeFailed e) ty tag c)\<rparr>)"
| write_fail: "tasks S i = Writing ty pl tag c \<Longrightarrow> encode_frame P ty tag pl = Inr wire \<Longrightarrow>
    call_step P i S (S\<lparr>tasks := (tasks S)(i := CleaningUp (Io e) ty tag c)\<rparr>)"
| flush_fail: "tasks S i = Writing ty pl tag c \<Longrightarrow> encode_frame P ty tag pl = Inr wire \<Longrightarrow>
    call_step P i S (S\<lparr>sess := (sess S)\<lparr>written := written (sess S) @ [wire]\<rparr>,
      tasks := (tasks S)(i := CleaningUp (Io e) ty tag c)\<rparr>)"
| answered: "tasks S i = Waiting ty tag c \<Longrightarrow> chans (sess S) c = ChanSent r \<Longrightarrow>
    call_step P i S (S\<lparr>tasks := (tasks S)(i := Returned (Ok r) ty tag c)\<rparr>)"
| sender_gone: "tasks S i = Waiting ty tag c \<Longrightarrow> chans (sess S) c = ChanDropped \<Longrightarrow>
    call_step P i S (S\<lparr>tasks := (tasks S)(i := CleaningUp ReaderExited ty tag c)\<rparr>)"
| timeout: "tasks S i = Waiting ty tag c \<Longrightarrow> chans (sess S) c = ChanOpen \<Longrightarrow>
    call_step P i S (S\<lparr>tasks := (tasks S)(i := CleaningUp (Timeout (describe_cmd P ty)) ty tag c)\<rparr>)"
| cleanup: "tasks S i = CleaningUp e ty tag c \<Longrightarrow>
    call_step P i S (S\<lparr>sess := pending_remove tag (sess S),
      tasks := (tasks S)(i := Returned (Err e) ty tag c)\<rparr>)"
| cancel_early: "tasks S i = Registering ty pl tag c \<Longrightarrow>
    call_step P i S (S\<lparr>sess := drop_sender c (sess S), tasks := (tasks S)(i := Abandoned ty tag c)\<rparr>)"
| cancel: "tasks S i \<in> {Writing ty pl tag c, Waiting ty tag c, CleaningUp e ty tag c} \<Longrightarrow>
    call_step P i S (S\<lparr>tasks := (tasks S)(i := Abandoned ty tag c)\<rparr>)"

text \<open>
  Steps of a task that closes the session. It takes the whole map under the lock and fires the senders
  after it has released it, one by one; a hash map is traversed in any order. The abort only asks the
  reader to stop. A close that is dropped at one of its two awaits goes no further.
\<close>

inductive close_step :: "nat \<Rightarrow> ('i, 'm, 'rx, 'd) sys \<Rightarrow> ('i, 'm, 'rx, 'd) sys \<Rightarrow> bool" for i where
  store: "tasks S i = Idle \<Longrightarrow>
    close_step i S (S\<lparr>sess := (sess S)\<lparr>closed := True\<rparr>, tasks := (tasks S)(i := CloseTaking)\<rparr>)"
| take: "tasks S i = CloseTaking \<Longrightarrow>
    close_step i S (S\<lparr>sess := (sess S)\<lparr>pending_map := []\<rparr>,
      tasks := (tasks S)(i := CloseWaking (map snd (pending_map (sess S))))\<rparr>)"
| wake: "tasks S i = CloseWaking ps \<Longrightarrow> p \<in> set ps \<Longrightarrow>
    close_step i S (S\<lparr>sess := chan_send (waker p) (RespErr (TransportClosed ''session closed'')) (sess S),
      tasks := (tasks S)(i := CloseWaking (remove1 p ps))\<rparr>)"
| woken: "tasks S i = CloseWaking [] \<Longrightarrow> close_step i S (S\<lparr>tasks := (tasks S)(i := CloseAborting)\<rparr>)"
| give_up: "tasks S i \<in> {CloseTaking, CloseAborting} \<Longrightarrow>
    close_step i S (S\<lparr>tasks := (tasks S)(i := CloseDropped)\<rparr>)"
| abort: "tasks S i = CloseAborting \<Longrightarrow>
    close_step i S (S\<lparr>sess := (sess S)\<lparr>reader_handle := False\<rparr>, aborting := (aborting S \<or> reader_handle (sess S)),
      tasks := (tasks S)(i := CloseDone)\<rparr>)"

subsection \<open>Steps of the reader\<close>

text \<open>
  An aborted task stops at an await: not between taking an entry and firing its sender, and not while
  it fires the senders of the map it has taken.
\<close>

fun stoppable :: "reader_pc \<Rightarrow> bool" where
  "stoppable (RHolding p ty tag pl ws) = False"
| "stoppable (RWaking ps) = False"
| "stoppable RGone = False"
| "stoppable _ = True"

definition absorbs :: "('i, 'm, 'rx, 'd) proto \<Rightarrow> pending \<Rightarrow> u8 \<Rightarrow> bool" where
  "absorbs P p ty \<longleftrightarrow> cmd_type p = TYPE_TX P \<and> ty = TYPE_OK P"

inductive reader_step ::
    "('i, 'm, 'rx, 'd) proto \<Rightarrow> ('i, 'm, 'rx, 'd) sys \<Rightarrow> ('i, 'm, 'rx, 'd) sys \<Rightarrow> bool" for P where
  top_closed: "reader S = RTop \<Longrightarrow> closed (sess S) \<Longrightarrow> reader_step P S (S\<lparr>reader := RLeaving\<rparr>)"
| top_open: "reader S = RTop \<Longrightarrow> \<not> closed (sess S) \<Longrightarrow> reader_step P S (S\<lparr>reader := RReading\<rparr>)"
| read_end: "reader S = RReading \<Longrightarrow> reader_step P S (S\<lparr>reader := RLeaving\<rparr>)"
| read_bytes: "reader S = RReading \<Longrightarrow> bs \<noteq> [] \<Longrightarrow> decoder_feed P (decoder (sess S)) bs = (d, results) \<Longrightarrow>
    reader_step P S (S\<lparr>sess := (sess S)\<lparr>decoder := d\<rparr>, reader := RWorking (map frame_work_of results)\<rparr>)"
| batch_done: "reader S = RWorking [] \<Longrightarrow> reader_step P S (S\<lparr>reader := RTop\<rparr>)"
| bad_frame: "reader S = RWorking (WorkFrame # ws) \<Longrightarrow>
    reader_step P S (S\<lparr>sess := handle_work P WorkFrame (sess S), reader := RWorking ws\<rparr>)"
| async_frame: "reader S = RWorking (WorkOk ty 0 pl # ws) \<Longrightarrow>
    reader_step P S (S\<lparr>sess := dispatch_async P ty pl (sess S), reader := RWorking ws\<rparr>)"
| no_entry: "reader S = RWorking (WorkOk ty tag pl # ws) \<Longrightarrow> tag \<noteq> 0 \<Longrightarrow> pending_of (sess S) tag = None \<Longrightarrow>
    reader_step P S (S\<lparr>reader := RWorking ws\<rparr>)"
| take_entry: "reader S = RWorking (WorkOk ty tag pl # ws) \<Longrightarrow> tag \<noteq> 0 \<Longrightarrow>
    pending_take tag (sess S) = (Some p, s') \<Longrightarrow>
    reader_step P S (S\<lparr>sess := s', reader := RHolding p ty tag pl ws, taken := taken S @ [WorkOk ty tag pl]\<rparr>)"
| reinsert: "reader S = RHolding p ty tag pl ws \<Longrightarrow> absorbs P p ty \<Longrightarrow>
    reader_step P S (S\<lparr>sess := pending_insert tag p (sess S), reader := RWorking ws\<rparr>)"
| fire: "reader S = RHolding p ty tag pl ws \<Longrightarrow> \<not> absorbs P p ty \<Longrightarrow>
    reader_step P S (S\<lparr>sess := chan_send (waker p) (response_for P (cmd_type p) ty pl) (sess S), reader := RWorking ws\<rparr>)"
| leave: "reader S = RLeaving \<Longrightarrow>
    reader_step P S (S\<lparr>sess := (sess S)\<lparr>pending_map := []\<rparr>, reader := RWaking (map snd (pending_map (sess S)))\<rparr>)"
| wake_one: "reader S = RWaking ps \<Longrightarrow> p \<in> set ps \<Longrightarrow>
    reader_step P S (S\<lparr>sess := chan_send (waker p) (RespErr (TransportClosed ''reader exited'')) (sess S),
      reader := RWaking (remove1 p ps)\<rparr>)"
| left: "reader S = RWaking [] \<Longrightarrow>
    reader_step P S (S\<lparr>sess := (sess S)\<lparr>reader_running := False\<rparr>, reader := RGone\<rparr>)"
| aborted: "aborting S \<Longrightarrow> stoppable (reader S) \<Longrightarrow>
    reader_step P S (S\<lparr>sess := (sess S)\<lparr>reader_running := False\<rparr>, reader := RGone\<rparr>)"
| aborted_holding: "aborting S \<Longrightarrow> reader S = RHolding p ty tag pl ws \<Longrightarrow> absorbs P p ty \<Longrightarrow>
    reader_step P S (S\<lparr>sess := (drop_sender (waker p) (sess S))\<lparr>reader_running := False\<rparr>, reader := RGone\<rparr>)"

text \<open>A user taking packets or draining errors.\<close>

inductive event_step :: "('i, 'm, 'rx, 'd) sys \<Rightarrow> ('i, 'm, 'rx, 'd) sys \<Rightarrow> bool" where
  recv: "try_recv_rx (sess S) = Some (x, s') \<Longrightarrow> event_step S (S\<lparr>sess := s'\<rparr>)"
| drain: "drain_async_errors (sess S) = (es, s') \<Longrightarrow> event_step S (S\<lparr>sess := s'\<rparr>)"

inductive sys_step ::
    "('i, 'm, 'rx, 'd) proto \<Rightarrow> ('i, 'm, 'rx, 'd) sys \<Rightarrow> ('i, 'm, 'rx, 'd) sys \<Rightarrow> bool" for P where
  call: "call_step P i S T \<Longrightarrow> sys_step P S T"
| close: "close_step i S T \<Longrightarrow> sys_step P S T"
| read: "reader_step P S T \<Longrightarrow> sys_step P S T"
| event: "event_step S T \<Longrightarrow> sys_step P S T"

inductive reachable :: "('i, 'm, 'rx, 'd) proto \<Rightarrow> ('i, 'm, 'rx, 'd) sys \<Rightarrow> bool" for P where
  init: "reachable P (sys_init P)"
| step: "reachable P S \<Longrightarrow> sys_step P S T \<Longrightarrow> reachable P T"

subsection \<open>Ownership of senders\<close>

text \<open>
  \<open>owned_ok X s\<close>: the channels with an unfired sender are exactly those of the map's entries and
  those in \<open>X\<close>, whose senders are held elsewhere, and no channel has two owners.
\<close>
definition owned_ok :: "nat set \<Rightarrow> ('i, 'm, 'rx, 'd) session \<Rightarrow> bool" where
  "owned_ok X s \<longleftrightarrow>
     next_tag s \<noteq> 0 \<and> distinct (map fst (pending_map s)) \<and> 0 \<notin> fst ` set (pending_map s)
     \<and> inj_on (\<lambda>e. waker (snd e)) (set (pending_map s))
     \<and> wakers s \<inter> X = {}
     \<and> (\<forall>c. c \<in> wakers s \<union> X \<longleftrightarrow> c < next_chan s \<and> chans s c = ChanOpen)
     \<and> (\<forall>c \<ge> next_chan s. chans s c = ChanOpen)"

lemma owned_ok_spawn: "owned_ok {} (spawn P)"
  by (simp add: owned_ok_def spawn_def)

lemma owned_ok_update [simp]:
  "owned_ok X (s\<lparr>decoder := d\<rparr>) = owned_ok X s" "owned_ok X (s\<lparr>written := y\<rparr>) = owned_ok X s"
  "owned_ok X (s\<lparr>closed := b\<rparr>) = owned_ok X s" "owned_ok X (s\<lparr>reader_handle := b\<rparr>) = owned_ok X s"
  "owned_ok X (s\<lparr>reader_running := b\<rparr>) = owned_ok X s" "owned_ok X (s\<lparr>rx_queue := q\<rparr>) = owned_ok X s"
  "owned_ok X (s\<lparr>async_err_queue := es\<rparr>) = owned_ok X s"
  by (simp_all add: owned_ok_def)

lemma owned_ok_alloc:
  assumes "owned_ok X s" "alloc_tag s = (tag, s1)"
  shows "owned_ok (insert (next_chan s1) X) (s1\<lparr>next_chan := Suc (next_chan s1)\<rparr>)" "tag \<noteq> 0"
    "next_chan s1 = next_chan s"
proof -
  have s1: "pending_map s1 = pending_map s" "chans s1 = chans s" "next_chan s1 = next_chan s" "tag = next_tag s"
      "next_tag s1 \<noteq> 0"
    using assms(2) by (auto simp: alloc_tag_def Let_def split: if_splits)
  then show "tag \<noteq> 0" "next_chan s1 = next_chan s" using assms(1) by (simp_all add: owned_ok_def)
  have "next_chan s \<notin> wakers s" using assms(1) by (auto simp: owned_ok_def)
  then show "owned_ok (insert (next_chan s1) X) (s1\<lparr>next_chan := Suc (next_chan s1)\<rparr>)"
    using assms(1) s1 by (auto simp: owned_ok_def less_Suc_eq)
qed

lemma owned_ok_set_chan:
  assumes "owned_ok X s" "c \<in> X" "x \<noteq> ChanOpen"
  shows "owned_ok (X - {c}) (s\<lparr>chans := (chans s)(c := x)\<rparr>)"
proof -
  have "c < next_chan s" "c \<notin> wakers s" using assms(1,2) by (auto simp: owned_ok_def)
  with assms show ?thesis by (auto simp: owned_ok_def)
qed

lemma owned_ok_send: "owned_ok X s \<Longrightarrow> c \<in> X \<Longrightarrow> owned_ok (X - {c}) (chan_send c r s)"
  unfolding chan_send_def by (rule owned_ok_set_chan) simp_all

lemma owned_ok_drop: "owned_ok X s \<Longrightarrow> c \<in> X \<Longrightarrow> owned_ok (X - {c}) (drop_sender c s)"
  unfolding drop_sender_def by (rule owned_ok_set_chan) simp_all

lemma owned_ok_take:
  assumes ok: "owned_ok X s" and take: "pending_take tag s = (Some p, s')"
  shows "owned_ok (insert (waker p) X) s'" "waker p \<notin> X" "(tag, p) \<in> set (pending_map s)"
proof -
  show mem: "(tag, p) \<in> set (pending_map s)"
    using take by (auto simp: pending_take_def intro: map_of_pending_in)
  then have w: "waker p \<in> wakers s" by force
  then show "waker p \<notin> X" using ok by (auto simp: owned_ok_def)
  have s': "s' = s\<lparr>pending_map := AList.delete tag (pending_map s)\<rparr>"
    using take by (simp add: pending_take_def)
  have inj: "inj_on (\<lambda>e. waker (snd e)) (set (pending_map s))" and d: "distinct (map fst (pending_map s))"
    using ok by (simp_all add: owned_ok_def)
  have ws: "wakers s' = wakers s - {waker p}"
  proof -
    have "waker (snd e) = waker p \<longleftrightarrow> fst e = tag" if "e \<in> set (pending_map s)" for e
    proof
      assume "waker (snd e) = waker p"
      then have "e = (tag, p)" using inj_onD [OF inj, of e "(tag, p)"] that mem by simp
      then show "fst e = tag" by simp
    next
      assume "fst e = tag"
      with that mem d have "snd e = p" by (metis eq_key_imp_eq_value prod.collapse)
      then show "waker (snd e) = waker p" by simp
    qed
    then show ?thesis by (auto simp: s' set_delete)
  qed
  have "inj_on (\<lambda>e. waker (snd e)) (set (pending_map s'))"
    using inj by (rule inj_on_subset) (auto simp: s' set_delete)
  with ok w ws show "owned_ok (insert (waker p) X) s'"
    unfolding owned_ok_def by (auto simp: s' AList.distinct_delete set_delete)
qed

lemma owned_ok_remove:
  assumes ok: "owned_ok X s"
  shows "owned_ok X (pending_remove tag s)"
proof (cases "pending_of s tag")
  case None
  then have "AList.delete tag (pending_map s) = pending_map s"
    by (auto simp: map_of_eq_None_iff AList.delete_idem)
  with None ok show ?thesis by (simp add: pending_remove_def pending_take_def)
next
  case (Some p)
  then obtain s' where take: "pending_take tag s = (Some p, s')" by (simp add: pending_take_def)
  note t = owned_ok_take [OF ok take]
  have "owned_ok (insert (waker p) X - {waker p}) (drop_sender (waker p) s')"
    using t(1) by (rule owned_ok_drop) simp
  with take t(2) show ?thesis by (simp add: pending_remove_def)
qed

lemma pending_insert_remove:
  "pending_insert tag p s =
    (let s' = pending_remove tag s in s'\<lparr>pending_map := AList.update tag p (pending_map s)\<rparr>)"
  by (auto simp: pending_insert_def pending_remove_def pending_take_def drop_sender_def split: option.splits)

lemma owned_ok_insert:
  assumes ok: "owned_ok X s" and x: "waker p \<in> X" and t: "tag \<noteq> 0"
  shows "owned_ok (X - {waker p}) (pending_insert tag p s)"
proof -
  let ?s = "pending_remove tag s"
  have ok': "owned_ok X ?s" by (rule owned_ok_remove [OF ok])
  have d: "distinct (map fst (pending_map s))" using ok by (simp add: owned_ok_def)
  have set: "set (AList.update tag p (pending_map s)) = insert (tag, p) (set (pending_map ?s))"
    using d by (simp add: set_update_distinct set_delete)
  have "waker p \<notin> wakers ?s" using ok' x by (auto simp: owned_ok_def)
  then have "inj_on (\<lambda>e. waker (snd e)) (insert (tag, p) (set (pending_map ?s)))"
    using ok' by (auto simp: owned_ok_def)
  with ok' x t d set show ?thesis
    unfolding owned_ok_def pending_insert_remove Let_def
    by (auto simp: AList.distinct_update simp del: pending_map_remove)
qed

lemma owned_ok_wake_all:
  assumes ok: "owned_ok X s"
  shows "owned_ok X (wake_all why s)"
  using assms by (auto simp: owned_ok_def wake_all_eq dest: linorder_not_less [THEN iffD2])

text \<open>Taking the whole map.\<close>

lemma owned_ok_clear:
  assumes "owned_ok X s"
  shows "owned_ok (X \<union> wakers s) (s\<lparr>pending_map := []\<rparr>)" "wakers s \<inter> X = {}"
    "distinct (map waker (map snd (pending_map s)))"
proof -
  show "owned_ok (X \<union> wakers s) (s\<lparr>pending_map := []\<rparr>)" "wakers s \<inter> X = {}"
    using assms by (auto simp: owned_ok_def)
  have "distinct (pending_map s)" "inj_on (\<lambda>e. waker (snd e)) (set (pending_map s))"
    using assms by (auto simp: owned_ok_def distinct_map)
  then show "distinct (map waker (map snd (pending_map s)))" by (simp add: distinct_map comp_def)
qed

lemma wakers_entries: "waker ` set (map snd (pending_map s)) = wakers s"
  by (auto simp: image_iff)

text \<open>Firing one of the senders taken.\<close>

lemma wakers_remove1:
  assumes "distinct (map waker ps)" "p \<in> set ps"
  shows "waker ` set (remove1 p ps) = waker ` set ps - {waker p}" "distinct (map waker (remove1 p ps))"
proof -
  have d: "distinct ps" "inj_on waker (set ps)" using assms(1) by (simp_all add: distinct_map)
  with assms(2) show "waker ` set (remove1 p ps) = waker ` set ps - {waker p}"
    by (auto simp: set_remove1_eq dest: inj_onD)
  show "distinct (map waker (remove1 p ps))"
    using d by (auto simp: distinct_map intro: inj_on_subset)
qed

lemma owned_ok_dispatch_async: "owned_ok X s \<Longrightarrow> owned_ok X (dispatch_async P ty pl s)"
  by (auto simp: dispatch_async_def push_rx_def push_err_def split: option.split)

subsection \<open>The ownership invariant of the system\<close>

fun held :: "reader_pc \<Rightarrow> nat set" where
  "held (RHolding p ty tag pl ws) = {waker p}"
| "held (RWaking ps) = waker ` set ps"
| "held _ = {}"

text \<open>Senders in the hands of a task: before they are in the map, or after a close has taken it.\<close>
fun carried :: "('i, 'm) task \<Rightarrow> nat set" where
  "carried (Registering ty pl tag c) = {c}"
| "carried (CloseWaking ps) = waker ` set ps"
| "carried _ = {}"

fun task_distinct :: "('i, 'm) task \<Rightarrow> bool" where
  "task_distinct (CloseWaking ps) = distinct (map waker ps)"
| "task_distinct _ = True"

fun reader_distinct :: "reader_pc \<Rightarrow> bool" where
  "reader_distinct (RWaking ps) = distinct (map waker ps)"
| "reader_distinct _ = True"

text \<open>The call a task makes: command type, tag and channel.\<close>
fun call_of :: "('i, 'm) task \<Rightarrow> (u8 \<times> u16 \<times> nat) option" where
  "call_of (Registering ty pl tag c) = Some (ty, tag, c)"
| "call_of (Writing ty pl tag c) = Some (ty, tag, c)"
| "call_of (Waiting ty tag c) = Some (ty, tag, c)"
| "call_of (CleaningUp e ty tag c) = Some (ty, tag, c)"
| "call_of (Returned r ty tag c) = Some (ty, tag, c)"
| "call_of (Abandoned ty tag c) = Some (ty, tag, c)"
| "call_of _ = None"

text \<open>
  The invariant in terms of what it depends on: the session, the reader, the senders in the hands of
  each task and the calls made so far.
\<close>
definition own_cond ::
    "('i, 'm, 'rx, 'd) session \<Rightarrow> reader_pc \<Rightarrow> (nat \<Rightarrow> nat set) \<Rightarrow> (nat \<Rightarrow> (u8 \<times> u16 \<times> nat) option) \<Rightarrow> bool" where
  "own_cond s rd U C \<longleftrightarrow>
     owned_ok (held rd \<union> (\<Union>i. U i)) s
     \<and> held rd \<inter> (\<Union>i. U i) = {}
     \<and> (\<forall>i j. i \<noteq> j \<longrightarrow> U i \<inter> U j = {})
     \<and> (\<forall>i ty tag c. C i = Some (ty, tag, c) \<longrightarrow> tag \<noteq> 0 \<and> c < next_chan s)
     \<and> (\<forall>i j ty tag c ty' tag'. C i = Some (ty, tag, c) \<longrightarrow> C j = Some (ty', tag', c) \<longrightarrow> i = j)
     \<and> (\<forall>p ty tag pl ws. rd = RHolding p ty tag pl ws \<longrightarrow> tag \<noteq> 0)"

abbreviation carrying :: "('i, 'm, 'rx, 'd) sys \<Rightarrow> nat set" where
  "carrying S \<equiv> (\<Union>i. carried (tasks S i))"

abbreviation calls :: "('i, 'm, 'rx, 'd) sys \<Rightarrow> nat \<Rightarrow> (u8 \<times> u16 \<times> nat) option" where
  "calls S \<equiv> (\<lambda>i. call_of (tasks S i))"

definition own_inv :: "('i, 'm, 'rx, 'd) sys \<Rightarrow> bool" where
  "own_inv S \<longleftrightarrow>
     own_cond (sess S) (reader S) (\<lambda>i. carried (tasks S i)) (calls S)
     \<and> (\<forall>i. task_distinct (tasks S i)) \<and> reader_distinct (reader S)"

lemma own_invD:
  assumes "own_inv S"
  shows "owned_ok (held (reader S) \<union> carrying S) (sess S)" "held (reader S) \<inter> carrying S = {}"
    "call_of (tasks S i) = Some (ty, tag, c) \<Longrightarrow> tag \<noteq> 0 \<and> c < next_chan (sess S)"
    "call_of (tasks S i) = Some (ty, tag, c) \<Longrightarrow> call_of (tasks S j) = Some (ty', tag', c) \<Longrightarrow> i = j"
    "reader S = RHolding p ty tag pl ws \<Longrightarrow> tag \<noteq> 0"
    "c \<in> carried (tasks S i) \<Longrightarrow> c \<in> carried (tasks S j) \<Longrightarrow> i = j"
    "task_distinct (tasks S i)" "reader_distinct (reader S)"
  using assms unfolding own_inv_def own_cond_def by auto

lemma next_chan_ops [simp]:
  "next_chan (chan_send c r s) = next_chan s" "next_chan (drop_sender c s) = next_chan s"
  "next_chan (pending_insert tag p s) = next_chan s" "next_chan (pending_remove tag s) = next_chan s"
  "next_chan (wake_all why s) = next_chan s" "next_chan (dispatch_async P ty pl s) = next_chan s"
  "next_chan (reader_exit s) = next_chan s" "next_chan (push_err e s) = next_chan s"
  using link_view_session_ops(1) [of c r s] link_view_session_ops(2) [of c s]
    link_view_session_ops(3) [of tag p s] link_view_session_ops(5) [of tag s]
    link_view_session_ops(6) [of why s] link_view_session_ops(11) [of P ty pl s]
    link_view_session_ops(10) [of s] link_view_session_ops(8) [of e s]
  by (simp_all add: link_view_def)

text \<open>The senders in the hands of the other tasks.\<close>
abbreviation others :: "('i, 'm, 'rx, 'd) sys \<Rightarrow> nat \<Rightarrow> nat set" where
  "others S i \<equiv> (\<Union>j \<in> - {i}. carried (tasks S j))"

lemma carrying_others: "carrying S = carried (tasks S i) \<union> others S i"
  by blast

lemma carrying_update:
  "(\<Union>j. carried (((tasks S)(i := t)) j)) = carried t \<union> others S i"
  by (force split: if_splits)

lemma others_disjoint: "own_inv S \<Longrightarrow> carried (tasks S i) \<inter> others S i = {}"
  using own_invD(6) [of S _ i] by blast

text \<open>A step of one task, whose call stays the same, from what it then carries.\<close>

lemma own_inv_moved:
  assumes inv: "own_inv S" and call: "call_of t = call_of (tasks S i)" and "task_distinct t"
    and sep: "carried t \<inter> (held (reader S) \<union> others S i) = {}"
    and ok: "owned_ok (held (reader S) \<union> (carried t \<union> others S i)) s'" and nc: "next_chan s' = next_chan (sess S)"
  shows "own_inv (S\<lparr>sess := s', tasks := (tasks S)(i := t)\<rparr>)"
proof -
  let ?U = "\<lambda>j. carried (((tasks S)(i := t)) j)"
  have u: "(\<Union>j. ?U j) = carried t \<union> others S i" by (rule carrying_update)
  have "held (reader S) \<inter> (\<Union>j. ?U j) = {}"
    unfolding u using sep own_invD(2) [OF inv] by blast
  moreover have "?U j \<inter> ?U k = {}" if "j \<noteq> k" for j k
    using that sep own_invD(6) [OF inv, of _ j k] by (auto split: if_splits)
  moreover have cl: "(\<lambda>j. call_of (((tasks S)(i := t)) j)) = calls S" using call by auto
  ultimately have "own_cond s' (reader S) ?U (calls S)"
    unfolding own_cond_def u using ok nc own_invD(3-5) [OF inv] by (metis (no_types, lifting))
  moreover have "\<forall>j. task_distinct (((tasks S)(i := t)) j)" using assms(3) own_invD(7) [OF inv] by simp
  ultimately show ?thesis using own_invD(8) [OF inv] by (simp add: own_inv_def cl del: fun_upd_apply)
qed

text \<open>A step of one task that neither creates nor hands over a sender.\<close>

lemma own_inv_quiet:
  assumes inv: "own_inv S" and "call_of t = call_of (tasks S i)"
    and "carried t = {}" "carried (tasks S i) = {}"
    and "owned_ok (held (reader S) \<union> carrying S) s'" "next_chan s' = next_chan (sess S)"
  shows "own_inv (S\<lparr>sess := s', tasks := (tasks S)(i := t)\<rparr>)"
proof -
  have "task_distinct t" using assms(3) by (cases t) auto
  moreover have "carrying S = others S i" using carrying_others [of S i] assms(4) by blast
  ultimately show ?thesis using assms by (intro own_inv_moved [OF inv]) simp_all
qed

text \<open>Handing over one of the senders in the hands of a task.\<close>

lemma own_inv_handover:
  assumes inv: "own_inv S" and c: "c \<in> carried (tasks S i)"
    and "call_of t = call_of (tasks S i)" "carried t = carried (tasks S i) - {c}" "task_distinct t"
    and ok: "owned_ok ((held (reader S) \<union> carrying S) - {c}) s'" "next_chan s' = next_chan (sess S)"
  shows "own_inv (S\<lparr>sess := s', tasks := (tasks S)(i := t)\<rparr>)"
proof -
  have "c \<notin> held (reader S)" "c \<notin> others S i"
    using c own_invD(2) [OF inv] others_disjoint [OF inv, of i] by blast+
  then have e: "(held (reader S) \<union> carrying S) - {c} = held (reader S) \<union> (carried t \<union> others S i)"
    unfolding assms(4) carrying_others [of S i] by blast
  show ?thesis
  proof (rule own_inv_moved [OF inv assms(3,5)])
    show "carried t \<inter> (held (reader S) \<union> others S i) = {}"
      unfolding assms(4) using own_invD(2) [OF inv] others_disjoint [OF inv, of i] by blast
    show "owned_ok (held (reader S) \<union> (carried t \<union> others S i)) s'" using ok(1) unfolding e .
  qed (rule ok(2))
qed

lemma own_inv_alloc:
  assumes inv: "own_inv S" and task: "tasks S i = Checked ty pl"
    and al: "alloc_tag (sess S) = (tag, s1)"
  shows "own_inv (S\<lparr>sess := s1\<lparr>next_chan := Suc (next_chan s1)\<rparr>,
    tasks := (tasks S)(i := Registering ty pl tag (next_chan s1)), meta := m\<rparr>)"
proof -
  let ?c = "next_chan s1" and ?t = "Registering ty pl tag (next_chan s1) :: ('a, 'b) task"
  let ?U = "\<lambda>j. carried (((tasks S)(i := ?t)) j)"
  note ok = own_invD(1) [OF inv]
  note a = owned_ok_alloc [OF ok al]
  have "carrying S = others S i" using carrying_others [of S i] task by simp
  then have u: "(\<Union>j. ?U j) = insert ?c (carrying S)" by (simp add: carrying_update del: fun_upd_apply)
  have cl: "(\<lambda>j. call_of (((tasks S)(i := ?t)) j)) = (calls S)(i := Some (ty, tag, ?c))"
    by auto
  have fresh: "?c \<notin> held (reader S) \<union> carrying S" using ok a(3) by (auto simp: owned_ok_def)
  have lt: "d < ?c" if "call_of (tasks S j) = Some (ty', tag', d)" for j ty' tag' d
    using own_invD(3) [OF inv that] a(3) by simp
  have "own_cond (s1\<lparr>next_chan := Suc ?c\<rparr>) (reader S) ?U ((calls S)(i := Some (ty, tag, ?c)))"
    unfolding own_cond_def u
  proof (intro conjI allI impI)
    show "owned_ok (held (reader S) \<union> insert ?c (carrying S)) (s1\<lparr>next_chan := Suc ?c\<rparr>)" using a(1) by simp
    show "held (reader S) \<inter> insert ?c (carrying S) = {}" using own_invD(2) [OF inv] fresh by blast
    show "?U j \<inter> ?U k = {}" if "j \<noteq> k" for j k
      using that fresh own_invD(6) [OF inv, of _ j k] by (auto split: if_splits)
    show "tag' \<noteq> 0" if "((calls S)(i := Some (ty, tag, ?c))) j = Some (ty', tag', d)" for j ty' tag' d
      using that own_invD(3) [OF inv, of j] a(2) by (auto split: if_splits)
    show "d < next_chan (s1\<lparr>next_chan := Suc ?c\<rparr>)"
      if "((calls S)(i := Some (ty, tag, ?c))) j = Some (ty', tag', d)" for j ty' tag' d
      using that lt [of j] by (force split: if_splits)
    show "j = k" if "((calls S)(i := Some (ty, tag, ?c))) j = Some (ty', tag', d)"
      "((calls S)(i := Some (ty, tag, ?c))) k = Some (ty'', tag'', d)" for j k ty' tag' d ty'' tag''
      using that lt own_invD(4) [OF inv] by (fastforce split: if_splits)
    show "tag' \<noteq> 0" if "reader S = RHolding p ty' tag' pl' ws" for p ty' tag' pl' ws
      using own_invD(5) [OF inv that] .
  qed
  moreover have "\<forall>j. task_distinct (((tasks S)(i := ?t)) j)" using own_invD(7) [OF inv] by simp
  ultimately show ?thesis using own_invD(8) [OF inv] by (simp add: own_inv_def cl del: fun_upd_apply)
qed

lemma own_inv_task:
  assumes "own_inv S" "call_of t = call_of (tasks S i)" "carried t = {}" "carried (tasks S i) = {}"
  shows "own_inv (S\<lparr>tasks := (tasks S)(i := t)\<rparr>)"
  using own_inv_quiet [OF assms, of "sess S"] own_invD(1) [OF assms(1)] by simp

lemma own_inv_call:
  assumes inv: "own_inv S" and step: "call_step P i S T"
  shows "own_inv T"
  using step
proof cases
  case (alloc ty pl tag s1 c)
  with own_inv_alloc [OF inv] show ?thesis by simp
next
  case (register ty pl tag c)
  have c: "c \<in> carried (tasks S i)" using register by simp
  then have "c \<in> held (reader S) \<union> carrying S" by blast
  moreover have "tag \<noteq> 0" using own_invD(3) [OF inv, of i ty tag c] register by simp
  ultimately have "owned_ok ((held (reader S) \<union> carrying S) - {c})
      (pending_insert tag \<lparr>cmd_type = ty, waker = c\<rparr> (sess S))"
    using owned_ok_insert [OF own_invD(1) [OF inv], of "\<lparr>cmd_type = ty, waker = c\<rparr>" tag] by simp
  with register show ?thesis by (simp add: own_inv_handover [OF inv c])
next
  case (cancel_early ty pl tag c)
  have c: "c \<in> carried (tasks S i)" using cancel_early by simp
  then have "c \<in> held (reader S) \<union> carrying S" by blast
  from owned_ok_drop [OF own_invD(1) [OF inv] this] cancel_early show ?thesis
    by (simp add: own_inv_handover [OF inv c])
next
  case (cleanup e ty tag c)
  with owned_ok_remove [OF own_invD(1) [OF inv], of tag] show ?thesis
    by (simp add: own_inv_quiet [OF inv])
next
  case (write_ok ty pl tag c wire)
  with own_invD(1) [OF inv] show ?thesis by (simp add: own_inv_quiet [OF inv])
next
  case (flush_fail ty pl tag c wire e)
  with own_invD(1) [OF inv] show ?thesis by (simp add: own_inv_quiet [OF inv])
next
  case (cancel ty pl tag c e)
  then show ?thesis by (auto intro: own_inv_task [OF inv])
qed (simp_all add: own_inv_task [OF inv])

lemma own_inv_close:
  assumes inv: "own_inv S" and step: "close_step i S T"
  shows "own_inv T"
  using step
proof cases
  case store
  with own_invD(1) [OF inv] show ?thesis by (simp add: own_inv_quiet [OF inv])
next
  case take
  note cl = owned_ok_clear [OF own_invD(1) [OF inv]]
  have o: "carrying S = others S i" using carrying_others [of S i] take by simp
  let ?t = "CloseWaking (map snd (pending_map (sess S))) :: ('a, 'b) task"
  have w: "carried ?t = wakers (sess S)" using wakers_entries [of "sess S"] by simp
  have "own_inv (S\<lparr>sess := (sess S)\<lparr>pending_map := []\<rparr>, tasks := (tasks S)(i := ?t)\<rparr>)"
  proof (rule own_inv_moved [OF inv])
    show "carried ?t \<inter> (held (reader S) \<union> others S i) = {}" unfolding w using cl(2) o by blast
    have "held (reader S) \<union> carrying S \<union> wakers (sess S) = held (reader S) \<union> (carried ?t \<union> others S i)"
      unfolding w o by blast
    with cl(1) show "owned_ok (held (reader S) \<union> (carried ?t \<union> others S i)) ((sess S)\<lparr>pending_map := []\<rparr>)" by simp
  qed (use take cl(3) in simp_all)
  with take show ?thesis by simp
next
  case (wake ps p)
  then have c: "waker p \<in> carried (tasks S i)" and d: "distinct (map waker ps)"
    using own_invD(7) [OF inv, of i] by auto
  then have "waker p \<in> held (reader S) \<union> carrying S" by blast
  note send = owned_ok_send [OF own_invD(1) [OF inv] this]
  have "own_inv (S\<lparr>sess := chan_send (waker p) (RespErr (TransportClosed ''session closed'')) (sess S),
      tasks := (tasks S)(i := CloseWaking (remove1 p ps))\<rparr>)"
    by (rule own_inv_handover [OF inv c _ _ _ send]) (use wake wakers_remove1 [OF d wake(3)] in simp_all)
  with wake show ?thesis by simp
next
  case woken
  then show ?thesis by (simp add: own_inv_task [OF inv])
next
  case give_up
  then show ?thesis by (auto intro: own_inv_task [OF inv])
next
  case abort
  have "own_inv (S\<lparr>sess := (sess S)\<lparr>reader_handle := False\<rparr>, tasks := (tasks S)(i := CloseDone)\<rparr>)"
    using abort own_invD(1) [OF inv] by (simp add: own_inv_quiet [OF inv])
  with abort show ?thesis by (simp add: own_inv_def)
qed

text \<open>A step of the reader, from what it then holds.\<close>

lemma own_inv_reader_moved:
  assumes inv: "own_inv S" and "reader_distinct rd" "held rd \<inter> carrying S = {}"
    and "\<And>p ty tag pl ws. rd = RHolding p ty tag pl ws \<Longrightarrow> tag \<noteq> 0"
    and "owned_ok (held rd \<union> carrying S) s'" "next_chan s' = next_chan (sess S)"
  shows "own_inv (S\<lparr>sess := s', reader := rd\<rparr>)"
  using assms by (simp add: own_inv_def own_cond_def)

lemma own_inv_reader_quiet:
  assumes inv: "own_inv S" and "held rd = {}" "held (reader S) = {}"
    and "owned_ok (held (reader S) \<union> carrying S) s'" "next_chan s' = next_chan (sess S)"
  shows "own_inv (S\<lparr>sess := s', reader := rd\<rparr>)"
proof -
  have "reader_distinct rd" "rd \<noteq> RHolding p ty tag pl ws" for p ty tag pl ws
    using assms(2) by (cases rd; auto)+
  with assms show ?thesis by (intro own_inv_reader_moved [OF inv]) simp_all
qed

lemma own_inv_reader_release:
  assumes inv: "own_inv S" and "c \<in> held (reader S)" "held rd = held (reader S) - {c}" "reader_distinct rd"
    and "\<And>p ty tag pl ws. rd \<noteq> RHolding p ty tag pl ws"
    and "owned_ok ((held (reader S) \<union> carrying S) - {c}) s'" "next_chan s' = next_chan (sess S)"
  shows "own_inv (S\<lparr>sess := s', reader := rd\<rparr>)"
proof -
  have "(held (reader S) \<union> carrying S) - {c} = held rd \<union> carrying S"
    using assms(2,3) own_invD(2) [OF inv] by blast
  moreover have "held rd \<inter> carrying S = {}" using assms(3) own_invD(2) [OF inv] by blast
  ultimately show ?thesis
    using assms(4-7) by (intro own_inv_reader_moved [OF inv]) (simp_all, blast)
qed

lemma own_inv_reader:
  assumes inv: "own_inv S" and step: "reader_step P S T"
  shows "own_inv T"
  using step
proof cases
  case (take_entry ty tag pl ws p s')
  note t = owned_ok_take [OF own_invD(1) [OF inv] take_entry(4)]
  have "next_chan s' = next_chan (sess S)" using take_entry(4) by (auto simp: pending_take_def)
  moreover have "held (reader S) = {}" using take_entry by simp
  ultimately have "own_inv (S\<lparr>sess := s', reader := RHolding p ty tag pl ws\<rparr>)"
    using t take_entry(3) by (intro own_inv_reader_moved [OF inv]) simp_all
  with take_entry(1) show ?thesis by (simp add: own_inv_def)
next
  case (reinsert p ty tag pl ws)
  then have "waker p \<in> held (reader S) \<union> carrying S" "tag \<noteq> 0" using own_invD(5) [OF inv] by auto
  from owned_ok_insert [OF own_invD(1) [OF inv] this] reinsert show ?thesis
    by (simp add: own_inv_reader_release [OF inv, of "waker p"])
next
  case (fire p ty tag pl ws)
  then have "waker p \<in> held (reader S) \<union> carrying S" by simp
  from owned_ok_send [OF own_invD(1) [OF inv] this] fire show ?thesis
    by (simp add: own_inv_reader_release [OF inv, of "waker p"])
next
  case (aborted_holding p ty tag pl ws)
  then have "waker p \<in> held (reader S) \<union> carrying S" by simp
  from owned_ok_drop [OF own_invD(1) [OF inv] this] aborted_holding show ?thesis
    by (simp add: own_inv_reader_release [OF inv, of "waker p"])
next
  case leave
  note cl = owned_ok_clear [OF own_invD(1) [OF inv]]
  let ?rd = "RWaking (map snd (pending_map (sess S)))"
  have h: "held (reader S) = {}" using leave by simp
  have w: "held ?rd = wakers (sess S)" using wakers_entries [of "sess S"] by simp
  have "own_inv (S\<lparr>sess := (sess S)\<lparr>pending_map := []\<rparr>, reader := ?rd\<rparr>)"
  proof (rule own_inv_reader_moved [OF inv])
    show "held ?rd \<inter> carrying S = {}" unfolding w using cl(2) by blast
    show "owned_ok (held ?rd \<union> carrying S) ((sess S)\<lparr>pending_map := []\<rparr>)"
      unfolding w using cl(1) h by (simp add: Un_commute)
  qed (use cl(3) in simp_all)
  with leave show ?thesis by simp
next
  case (wake_one ps p)
  then have c: "waker p \<in> held (reader S)" and d: "distinct (map waker ps)"
    using own_invD(8) [OF inv] by auto
  then have "waker p \<in> held (reader S) \<union> carrying S" by blast
  note send = owned_ok_send [OF own_invD(1) [OF inv] this]
  have "own_inv (S\<lparr>sess := chan_send (waker p) (RespErr (TransportClosed ''reader exited'')) (sess S),
      reader := RWaking (remove1 p ps)\<rparr>)"
    by (rule own_inv_reader_release [OF inv c _ _ _ send]) (use wake_one wakers_remove1 [OF d wake_one(3)] in simp_all)
  with wake_one show ?thesis by simp
next
  case left
  with own_invD(1) [OF inv] show ?thesis by (simp add: own_inv_reader_quiet [OF inv])
next
  case (async_frame ty pl ws)
  with owned_ok_dispatch_async [OF own_invD(1) [OF inv], of P ty pl] show ?thesis
    by (simp add: own_inv_reader_quiet [OF inv])
next
  case (bad_frame ws)
  with own_invD(1) [OF inv] show ?thesis
    by (simp add: own_inv_reader_quiet [OF inv] push_err_def)
next
  case (read_bytes bs d results)
  with own_invD(1) [OF inv] show ?thesis by (simp add: own_inv_reader_quiet [OF inv])
next
  case aborted
  then have "held (reader S) = {}" by (cases "reader S") simp_all
  with aborted own_invD(1) [OF inv] show ?thesis by (simp add: own_inv_reader_quiet [OF inv])
qed (use own_inv_reader_quiet [OF inv, of _ "sess S"] own_invD(1) [OF inv] in simp_all)

lemma own_inv_event:
  assumes inv: "own_inv S" and step: "event_step S T"
  shows "own_inv T"
  using step
proof cases
  case (recv x s')
  then have "owned_ok (held (reader S) \<union> carrying S) s'" "next_chan s' = next_chan (sess S)"
    using own_invD(1) [OF inv] by (auto simp: try_recv_rx_def split: list.splits)
  with recv inv show ?thesis by (auto simp: own_inv_def own_cond_def)
next
  case (drain es s')
  then have "owned_ok (held (reader S) \<union> carrying S) s'" "next_chan s' = next_chan (sess S)"
    using own_invD(1) [OF inv] by (auto simp: drain_async_errors_def drain_loop_eq)
  with drain inv show ?thesis by (auto simp: own_inv_def own_cond_def)
qed

lemma own_inv_init: "own_inv (sys_init P)"
  using owned_ok_spawn [of P] by (simp add: own_inv_def own_cond_def sys_init_def)

lemma own_inv_step: "own_inv S \<Longrightarrow> sys_step P S T \<Longrightarrow> own_inv T"
  by (auto elim!: sys_step.cases intro: own_inv_call own_inv_close own_inv_reader own_inv_event)

lemma reachable_run: "reachable P S \<longleftrightarrow> (sys_step P)\<^sup>*\<^sup>* (sys_init P) S"
proof
  assume "reachable P S"
  then show "(sys_step P)\<^sup>*\<^sup>* (sys_init P) S" by induction auto
next
  assume "(sys_step P)\<^sup>*\<^sup>* (sys_init P) S"
  then show "reachable P S" by (induction rule: rtranclp_induct) (auto intro: reachable.intros)
qed

interpretation own: step_invariant "sys_init P" "sys_step P" own_inv for P
  by unfold_locales (auto intro: own_inv_init own_inv_step)

lemma reachable_own_inv: "reachable P S \<Longrightarrow> own_inv S"
  unfolding reachable_run by (rule own.run_inv)

subsection \<open>Where a response comes from\<close>

text \<open>
  A response to a command of type and tag \<open>m\<close> is legitimate if the session was closing down, or if
  it is the reading of a taken frame with that tag that completes such a command.
\<close>
definition legit ::
    "('i, 'm, 'rx, 'd) proto \<Rightarrow> frame_work list \<Rightarrow> u8 \<times> u16 \<Rightarrow> ('i, 'm) session_response \<Rightarrow> bool" where
  "legit P L m r \<longleftrightarrow>
     r = RespErr (TransportClosed ''session closed'') \<or> r = RespErr (TransportClosed ''reader exited'')
     \<or> (\<exists>w \<in> set L. completes P (fst m) (snd m) w \<and> r = work_response P (fst m) w)"

lemma legit_mono: "legit P L m r \<Longrightarrow> legit P (L @ L') m r"
  by (auto simp: legit_def)

definition prov_sess ::
    "('i, 'm, 'rx, 'd) proto \<Rightarrow> (nat \<Rightarrow> u8 \<times> u16) \<Rightarrow> frame_work list \<Rightarrow> ('i, 'm, 'rx, 'd) session \<Rightarrow> bool" where
  "prov_sess P m L s \<longleftrightarrow>
     (\<forall>e \<in> set (pending_map s). m (waker (snd e)) = (cmd_type (snd e), fst e))
     \<and> (\<forall>c r. chans s c = ChanSent r \<longrightarrow> legit P L (m c) r)"

lemma prov_sess_mono: "prov_sess P m L s \<Longrightarrow> prov_sess P m (L @ L') s"
  by (auto simp: prov_sess_def intro: legit_mono)

lemma prov_sess_drop: "prov_sess P m L s \<Longrightarrow> prov_sess P m L (drop_sender c s)"
  by (auto simp: prov_sess_def drop_sender_def)

lemma prov_sess_send: "prov_sess P m L s \<Longrightarrow> legit P L (m c) r \<Longrightarrow> prov_sess P m L (chan_send c r s)"
  by (auto simp: prov_sess_def)

lemma prov_sess_remove: "prov_sess P m L s \<Longrightarrow> prov_sess P m L (pending_remove tag s)"
  by (auto simp: prov_sess_def pending_remove_def pending_take_def drop_sender_def set_delete split: option.splits)

lemma prov_sess_insert:
  assumes "prov_sess P m L s" "m (waker p) = (cmd_type p, tag)" "distinct (map fst (pending_map s))"
  shows "prov_sess P m L (pending_insert tag p s)"
  using prov_sess_remove [OF assms(1), of tag] assms
  by (auto simp: prov_sess_def pending_insert_remove Let_def set_update_distinct)

lemma prov_sess_clear: "prov_sess P m L s \<Longrightarrow> prov_sess P m L (s\<lparr>pending_map := []\<rparr>)"
  by (simp add: prov_sess_def)

lemma legit_closing [simp]:
  "legit P L m (RespErr (TransportClosed ''session closed''))"
  "legit P L m (RespErr (TransportClosed ''reader exited''))"
  by (simp_all add: legit_def)

lemma prov_sess_dispatch_async [simp]: "prov_sess P m L (dispatch_async Q ty pl s) = prov_sess P m L s"
  by (simp add: prov_sess_def)

text \<open>Tasks: a call is the one its channel was made for, and an answer is legitimate.\<close>
definition prov_task ::
    "('i, 'm, 'rx, 'd) proto \<Rightarrow> (nat \<Rightarrow> u8 \<times> u16) \<Rightarrow> frame_work list \<Rightarrow> ('i, 'm) task \<Rightarrow> bool" where
  "prov_task P m L t \<longleftrightarrow>
     (\<forall>ty tag c. call_of t = Some (ty, tag, c) \<longrightarrow> m c = (ty, tag))
     \<and> (\<forall>r ty tag c. t = Returned (Ok r) ty tag c \<longrightarrow> legit P L (ty, tag) r)"

lemma prov_task_mono: "prov_task P m L t \<Longrightarrow> prov_task P m (L @ L') t"
  by (auto simp: prov_task_def intro: legit_mono)

fun prov_reader :: "(nat \<Rightarrow> u8 \<times> u16) \<Rightarrow> frame_work list \<Rightarrow> reader_pc \<Rightarrow> bool" where
  "prov_reader m L (RHolding p ty tag pl ws) \<longleftrightarrow>
     m (waker p) = (cmd_type p, tag) \<and> WorkOk ty tag pl \<in> set L"
| "prov_reader m L _ \<longleftrightarrow> True"

definition prov_inv :: "('i, 'm, 'rx, 'd) proto \<Rightarrow> ('i, 'm, 'rx, 'd) sys \<Rightarrow> bool" where
  "prov_inv P S \<longleftrightarrow>
     prov_sess P (meta S) (taken S) (sess S) \<and> prov_reader (meta S) (taken S) (reader S)
     \<and> (\<forall>i. prov_task P (meta S) (taken S) (tasks S i))"

lemma prov_inv_task:
  assumes "prov_inv P S" "call_of t = call_of (tasks S i)" "\<And>r ty tag c. t \<noteq> Returned (Ok r) ty tag c"
    "prov_sess P (meta S) (taken S) s'"
  shows "prov_inv P (S\<lparr>sess := s', tasks := (tasks S)(i := t)\<rparr>)"
  using assms by (auto simp: prov_inv_def prov_task_def)

lemma prov_inv_call:
  assumes own: "own_inv S" and inv: "prov_inv P S" and step: "call_step P i S T"
  shows "prov_inv P T"
proof -
  have ps: "prov_sess P (meta S) (taken S) (sess S)"
    and pt: "prov_task P (meta S) (taken S) (tasks S i)" using inv by (simp_all add: prov_inv_def)
  note quiet = prov_inv_task [OF inv] and same = prov_inv_task [OF inv _ _ ps, simplified]
  note ok = own_invD(1) [OF own]
  show ?thesis using step
  proof cases
    case (alloc ty pl tag s1 c)
    let ?c = "next_chan (sess S)"
    have s1: "pending_map s1 = pending_map (sess S)" "chans s1 = chans (sess S)" "c = ?c"
      using alloc by (auto simp: alloc_tag_def Let_def)
    have "?c \<notin> wakers (sess S)" "chans (sess S) ?c = ChanOpen" "?c \<notin> held (reader S)"
      using ok by (auto simp: owned_ok_def)
    then have 1: "prov_sess P ((meta S)(c := (ty, tag))) (taken S) (s1\<lparr>next_chan := Suc c\<rparr>)"
      and 2: "prov_reader ((meta S)(c := (ty, tag))) (taken S) (reader S)"
      using inv s1 by (auto simp: prov_inv_def prov_sess_def image_iff) (cases "reader S"; force)+
    have "prov_task P ((meta S)(c := (ty, tag))) (taken S) (tasks S j)" for j
      using inv own_invD(3) [OF own, of j] s1(3) by (fastforce simp: prov_inv_def prov_task_def)
    moreover have "prov_task P ((meta S)(c := (ty, tag))) (taken S) (Registering ty pl tag c)"
      by (simp add: prov_task_def)
    ultimately show ?thesis using alloc(1) 1 2 by (simp add: prov_inv_def)
  next
    case (register ty pl tag c)
    moreover have "meta S c = (ty, tag)" using pt register by (simp add: prov_task_def)
    ultimately show ?thesis
      using prov_sess_insert [OF ps, of "\<lparr>cmd_type = ty, waker = c\<rparr>" tag] ok
      by (simp add: quiet owned_ok_def)
  next
    case (answered ty tag c r)
    moreover have "meta S c = (ty, tag)" using pt answered by (simp add: prov_task_def)
    moreover have "legit P (taken S) (meta S c) r"
      using ps answered by (simp add: prov_sess_def)
    ultimately show ?thesis using inv by (auto simp: prov_inv_def prov_task_def)
  next
    case (cleanup e ty tag c)
    then show ?thesis by (simp add: quiet prov_sess_remove [OF ps])
  next
    case (cancel_early ty pl tag c)
    then show ?thesis by (simp add: quiet prov_sess_drop [OF ps])
  next
    case (write_ok ty pl tag c wire)
    then show ?thesis using ps by (simp add: quiet prov_sess_def)
  next
    case (flush_fail ty pl tag c wire e)
    then show ?thesis using ps by (simp add: quiet prov_sess_def)
  next
    case (cancel ty pl tag c e)
    then show ?thesis by (auto intro: same)
  qed (simp_all add: same)
qed

lemma prov_inv_close:
  assumes inv: "prov_inv P S" and step: "close_step i S T"
  shows "prov_inv P T"
proof -
  have ps: "prov_sess P (meta S) (taken S) (sess S)" using inv by (simp add: prov_inv_def)
  note quiet = prov_inv_task [OF inv]
  show ?thesis using step
  proof cases
    case store
    then show ?thesis using ps by (simp add: quiet prov_sess_def)
  next
    case take
    then show ?thesis by (simp add: quiet prov_sess_clear [OF ps])
  next
    case (wake ps p)
    then show ?thesis by (simp add: quiet prov_sess_send [OF ps])
  next
    case woken
    then show ?thesis by (simp add: quiet [OF _ _ ps, simplified])
  next
    case give_up
    then show ?thesis by (auto intro: quiet [OF _ _ ps, simplified])
  next
    case abort
    have "prov_inv P (S\<lparr>sess := (sess S)\<lparr>reader_handle := False\<rparr>, tasks := (tasks S)(i := CloseDone)\<rparr>)"
      using abort ps by (simp add: quiet prov_sess_def)
    with abort show ?thesis by (simp add: prov_inv_def)
  qed
qed

lemma prov_inv_sess_reader:
  assumes "prov_inv P S" "prov_sess P (meta S) (taken S) s'" "prov_reader (meta S) (taken S) rd"
  shows "prov_inv P (S\<lparr>sess := s', reader := rd\<rparr>)"
  using assms by (simp add: prov_inv_def)

lemma prov_inv_reader:
  assumes own: "own_inv S" and inv: "prov_inv P S" and step: "reader_step P S T"
  shows "prov_inv P T"
proof -
  have ps: "prov_sess P (meta S) (taken S) (sess S)" and pr: "prov_reader (meta S) (taken S) (reader S)"
    using inv by (simp_all add: prov_inv_def)
  note upd = prov_inv_sess_reader [OF inv] and same = prov_inv_sess_reader [OF inv ps, simplified]
  have d: "distinct (map fst (pending_map (sess S)))" using own_invD(1) [OF own] by (simp add: owned_ok_def)
  show ?thesis using step
  proof cases
    case (take_entry ty tag pl ws p s')
    have s': "s' = (sess S)\<lparr>pending_map := AList.delete tag (pending_map (sess S))\<rparr>"
      and mem: "(tag, p) \<in> set (pending_map (sess S))"
      using take_entry(4) by (auto simp: pending_take_def intro: map_of_pending_in)
    have "prov_sess P (meta S) (taken S @ [WorkOk ty tag pl]) s'"
      using prov_sess_mono [OF ps] by (auto simp: s' prov_sess_def set_delete)
    moreover have "meta S (waker p) = (cmd_type p, tag)" using ps mem by (force simp: prov_sess_def)
    ultimately show ?thesis using inv take_entry by (simp add: prov_inv_def prov_task_mono)
  next
    case (reinsert p ty tag pl ws)
    with pr prov_sess_insert [OF ps _ d, of p tag] show ?thesis by (simp add: upd)
  next
    case (fire p ty tag pl ws)
    with pr have m: "meta S (waker p) = (cmd_type p, tag)" and mem: "WorkOk ty tag pl \<in> set (taken S)" by simp_all
    have "legit P (taken S) (meta S (waker p)) (response_for P (cmd_type p) ty pl)"
      using fire mem by (force simp: legit_def m absorbs_def)
    with fire show ?thesis by (simp add: upd prov_sess_send [OF ps])
  next
    case (aborted_holding p ty tag pl ws)
    with prov_sess_drop [OF ps, of "waker p"] show ?thesis by (simp add: upd prov_sess_def)
  next
    case leave
    then show ?thesis by (simp add: upd prov_sess_clear [OF ps])
  next
    case (wake_one ps p)
    then show ?thesis by (simp add: upd prov_sess_send [OF ps])
  next
    case left
    with ps show ?thesis by (simp add: upd prov_sess_def)
  next
    case (async_frame ty pl ws)
    with ps show ?thesis by (simp add: upd)
  next
    case (bad_frame ws)
    with ps show ?thesis by (simp add: upd prov_sess_def)
  next
    case (read_bytes bs d results)
    with ps show ?thesis by (simp add: upd prov_sess_def)
  next
    case aborted
    with ps show ?thesis by (simp add: upd prov_sess_def)
  qed (simp_all add: same)
qed

lemma prov_inv_event:
  assumes inv: "prov_inv P S" and step: "event_step S T"
  shows "prov_inv P T"
  using step inv
  by cases (auto simp: prov_inv_def prov_sess_def try_recv_rx_def drain_async_errors_def drain_loop_eq split: list.splits)

interpretation prov: step_invariant "sys_init P" "sys_step P" "\<lambda>S. own_inv S \<and> prov_inv P S" for P
proof
  show "own_inv (sys_init P) \<and> prov_inv P (sys_init P)"
    by (simp add: own_inv_init) (simp add: prov_inv_def prov_sess_def prov_task_def sys_init_def spawn_def)
  show "own_inv T \<and> prov_inv P T" if "own_inv S \<and> prov_inv P S" "sys_step P S T" for S T
    using that(2,1)
    by cases (auto intro: own_inv_call own_inv_close own_inv_reader own_inv_event
        prov_inv_call prov_inv_close prov_inv_reader prov_inv_event)
qed

lemma reachable_prov_inv: "reachable P S \<Longrightarrow> prov_inv P S"
  unfolding reachable_run using prov.run_inv by blast

text \<open>
  Where the sender of a waiting command is: in the map, or in the hands of whoever has taken it out,
  the reader or a close that is about to fire it.
\<close>
definition in_reach :: "('i, 'm, 'rx, 'd) sys \<Rightarrow> u8 \<Rightarrow> u16 \<Rightarrow> nat \<Rightarrow> bool" where
  "in_reach S ty tag c \<longleftrightarrow>
     pending_of (sess S) tag = Some \<lparr>cmd_type = ty, waker = c\<rparr>
     \<or> (\<exists>ty' pl ws. reader S = RHolding \<lparr>cmd_type = ty, waker = c\<rparr> ty' tag pl ws)
     \<or> (\<exists>ps. reader S = RWaking ps \<and> c \<in> waker ` set ps)
     \<or> (\<exists>j ps. tasks S j = CloseWaking ps \<and> c \<in> waker ` set ps)"

lemma waiting_sender:
  assumes r: "reachable P S" and t: "tasks S i = Waiting ty tag c" and o: "chans (sess S) c = ChanOpen"
  shows "in_reach S ty tag c"
proof -
  note own = reachable_own_inv [OF r] and prov = reachable_prov_inv [OF r]
  have m: "meta S c = (ty, tag)" using prov t by (auto simp: prov_inv_def prov_task_def dest!: spec [of _ i])
  have "c < next_chan (sess S)" using own_invD(3) [OF own, of i ty tag c] t by simp
  then have "c \<in> wakers (sess S) \<union> (held (reader S) \<union> carrying S)"
    using own_invD(1) [OF own] o by (auto simp: owned_ok_def)
  then consider "c \<in> wakers (sess S)" | "c \<in> held (reader S)" | j where "c \<in> carried (tasks S j)" by blast
  then show ?thesis
  proof cases
    case 1
    then obtain e where e: "e \<in> set (pending_map (sess S))" "waker (snd e) = c" by blast
    then have "cmd_type (snd e) = ty" "fst e = tag" using prov m by (auto simp: prov_inv_def prov_sess_def)
    with e(2) have "e = (tag, \<lparr>cmd_type = ty, waker = c\<rparr>)" by (cases e, cases "snd e") simp
    with e(1) have "(tag, \<lparr>cmd_type = ty, waker = c\<rparr>) \<in> set (pending_map (sess S))" by simp
    moreover have "distinct (map fst (pending_map (sess S)))"
      using own_invD(1) [OF own] by (simp add: owned_ok_def)
    ultimately show ?thesis by (simp add: in_reach_def map_of_SomeI)
  next
    case 2
    then consider p ty' tag' pl ws where "reader S = RHolding p ty' tag' pl ws" "waker p = c"
      | ps where "reader S = RWaking ps" "c \<in> waker ` set ps"
      by (cases "reader S") auto
    then show ?thesis
    proof cases
      case (1 p ty' tag' pl ws)
      with prov m have "cmd_type p = ty" "tag' = tag" by (auto simp: prov_inv_def)
      with 1 show ?thesis by (cases p) (auto simp: in_reach_def)
    qed (auto simp: in_reach_def)
  next
    case (3 j)
    then consider ty' pl' tag' where "tasks S j = Registering ty' pl' tag' c"
      | ps where "tasks S j = CloseWaking ps" "c \<in> waker ` set ps"
      by (cases "tasks S j") auto
    then show ?thesis
    proof cases
      case (1 ty' pl' tag')
      with own_invD(4) [OF own, of i ty tag c j ty' tag'] t show ?thesis by auto
    next
      case (2 ps)
      then show ?thesis unfolding in_reach_def by blast
    qed
  qed
qed

text \<open>A sender that is not in the map moves on: its holder can decide the channel or put the entry back.\<close>

lemma in_reach_moves:
  assumes "in_reach S ty tag c"
  shows "pending_of (sess S) tag = Some \<lparr>cmd_type = ty, waker = c\<rparr>
    \<or> (\<exists>T. (reader_step P S T \<or> (\<exists>j. close_step j S T))
         \<and> (chans (sess T) c \<noteq> ChanOpen \<or> pending_of (sess T) tag = Some \<lparr>cmd_type = ty, waker = c\<rparr>))"
  using assms unfolding in_reach_def
proof (elim disjE exE conjE)
  fix ty' pl ws
  assume h: "reader S = RHolding \<lparr>cmd_type = ty, waker = c\<rparr> ty' tag pl ws"
  show ?thesis
  proof (cases "absorbs P \<lparr>cmd_type = ty, waker = c\<rparr> ty'")
    case True
    show ?thesis
      by (rule disjI2, rule exI, rule conjI, rule disjI1, rule reader_step.reinsert [OF h True])
        (simp add: pending_insert_remove Let_def update_conv')
  next
    case False
    show ?thesis
      by (rule disjI2, rule exI, rule conjI, rule disjI1, rule reader_step.fire [OF h False]) (simp add: chan_send_def)
  qed
next
  fix ps assume "reader S = RWaking ps" "c \<in> waker ` set ps"
  then obtain p where p: "reader S = RWaking ps" "p \<in> set ps" "waker p = c" by blast
  show ?thesis
    by (rule disjI2, rule exI, rule conjI, rule disjI1, rule reader_step.wake_one [OF p(1,2)])
      (simp add: chan_send_def p(3))
next
  fix j ps assume "tasks S j = CloseWaking ps" "c \<in> waker ` set ps"
  then obtain p where p: "tasks S j = CloseWaking ps" "p \<in> set ps" "waker p = c" by blast
  show ?thesis
    by (rule disjI2, rule exI, rule conjI, rule disjI2, rule exI, rule close_step.wake [OF p(1,2)])
      (simp add: chan_send_def p(3))
qed simp

subsection \<open>The type of a response\<close>

text \<open>
  Which responses a command of a type can get. A TX\_DONE is delivered to whatever command has its
  tag, an error to any; the intermediate OK never reaches a transmission.
\<close>
fun response_type :: "('i, 'm, 'rx, 'd) proto \<Rightarrow> u8 \<Rightarrow> ('i, 'm) session_response \<Rightarrow> bool" where
  "response_type P ty RespEmpty \<longleftrightarrow> ty \<noteq> TYPE_TX P \<and> ty \<noteq> TYPE_GET_INFO P \<and> ty \<noteq> TYPE_SET_CONFIG P"
| "response_type P ty (RespInfo i) \<longleftrightarrow> ty = TYPE_GET_INFO P"
| "response_type P ty (RespSetConfig r) \<longleftrightarrow> ty = TYPE_SET_CONFIG P"
| "response_type P ty (RespTxDone td) \<longleftrightarrow> True"
| "response_type P ty (RespErr e) \<longleftrightarrow> True"

lemma work_response_typed:
  assumes "ok_payloads_typed P" "completes P ty tag w"
  shows "response_type P ty (work_response P ty w)"
proof (cases w)
  case (WorkOk ty' t pl)
  show ?thesis
  proof (cases "ty' = TYPE_OK P")
    case True
    have "case parse_ok_for P ty pl of None \<Rightarrow> True
        | Some OkEmpty \<Rightarrow> ty \<noteq> TYPE_GET_INFO P \<and> ty \<noteq> TYPE_SET_CONFIG P
        | Some (OkInfo i) \<Rightarrow> ty = TYPE_GET_INFO P
        | Some (OkSetConfig r) \<Rightarrow> ty = TYPE_SET_CONFIG P"
      using assms(1) unfolding ok_payloads_typed_def by blast
    with True assms(2) WorkOk show ?thesis
      by (auto simp: response_for_def split: option.splits ok_payload.splits)
  next
    case False
    then show ?thesis by (simp add: WorkOk response_for_def split: option.split)
  qed
qed (use assms(2) in simp)

lemma returned_response_typed:
  assumes "reachable P S" "tasks S i = Returned (Ok r) ty tag c" "ok_payloads_typed P"
  shows "response_type P ty r"
proof -
  have "prov_task P (meta S) (taken S) (tasks S i)"
    using reachable_prov_inv [OF assms(1)] by (simp add: prov_inv_def)
  with assms(2) have "legit P (taken S) (ty, tag) r" by (simp add: prov_task_def)
  then show ?thesis using work_response_typed [OF assms(3)] by (auto simp: legit_def)
qed

text \<open>
  Hence the catch-all arms of the typed commands are for a stray TX\_DONE only, and the one of a
  transmission is never taken.
\<close>

lemma typed_expect:
  assumes "distinct_types P" "response_type P ty r" "\<And>td. r \<noteq> RespTxDone td"
  shows "ty = TYPE_GET_INFO P \<Longrightarrow> (\<exists>i. r = RespInfo i \<and> expect_info P r = Ok i) \<or> (\<exists>e. r = RespErr e)"
    "ty = TYPE_SET_CONFIG P \<Longrightarrow> (\<exists>c. r = RespSetConfig c \<and> expect_set_config P r = Ok c) \<or> (\<exists>e. r = RespErr e)"
    "ty \<in> {TYPE_PING P, TYPE_RX_START P, TYPE_RX_STOP P} \<Longrightarrow> (\<exists>e. r = RespErr e) \<or> expect_empty P name r = Ok ()"
    "ty = TYPE_TX P \<Longrightarrow> \<exists>e. r = RespErr e"
  using assms by (cases r; auto simp: distinct_types_def)+

subsection \<open>Runs\<close>

lemma reach_call: "reachable P S \<Longrightarrow> call_step P i S T \<Longrightarrow> reachable P T"
  by (blast intro: reachable.step sys_step.call)

lemma reach_close: "reachable P S \<Longrightarrow> close_step i S T \<Longrightarrow> reachable P T"
  by (blast intro: reachable.step sys_step.close)

lemma reach_read: "reachable P S \<Longrightarrow> reader_step P S T \<Longrightarrow> reachable P T"
  by (blast intro: reachable.step sys_step.read)

text \<open>A command from its check to the wait for its answer.\<close>

lemma run_call:
  assumes "reachable P S" "tasks S i = Idle" "\<not> closed (sess S)"
    "encode_frame P ty (next_tag (sess S)) pl = Inr wire"
  shows "reachable P (S\<lparr>meta := (meta S)(next_chan (sess S) := (ty, next_tag (sess S))),
    sess := (registered ty (sess S))\<lparr>written := written (sess S) @ [wire]\<rparr>,
    tasks := (tasks S)(i := Waiting ty (next_tag (sess S)) (next_chan (sess S)))\<rparr>)"
proof -
  let ?tag = "next_tag (sess S)" and ?c = "next_chan (sess S)"
  obtain s1 where al: "alloc_tag (sess S) = (?tag, s1)" "next_chan s1 = ?c" "written s1 = written (sess S)"
    by (simp add: alloc_tag_def Let_def)
  let ?m = "(meta S)(?c := (ty, ?tag))"
  let ?S1 = "S\<lparr>tasks := (tasks S)(i := Checked ty pl)\<rparr>"
  let ?S2 = "?S1\<lparr>sess := s1\<lparr>next_chan := Suc ?c\<rparr>, tasks := (tasks S)(i := Registering ty pl ?tag ?c), meta := ?m\<rparr>"
  let ?S3 = "?S2\<lparr>sess := registered ty (sess S), tasks := (tasks S)(i := Writing ty pl ?tag ?c)\<rparr>"
  have "call_step P i S ?S1" using assms(2,3) by (rule call_step.check)
  from reach_call [OF assms(1) this] have 1: "reachable P ?S1" .
  have "call_step P i ?S1 ?S2"
    using call_step.alloc [of ?S1 i ty pl ?tag s1 ?c P] al by simp
  from reach_call [OF 1 this] have 2: "reachable P ?S2" .
  have reg: "registered ty (sess S) = pending_insert ?tag \<lparr>cmd_type = ty, waker = ?c\<rparr> (s1\<lparr>next_chan := Suc ?c\<rparr>)"
    using al by (simp add: registered_def)
  have "call_step P i ?S2 ?S3"
    using call_step.register [of ?S2 i ty pl ?tag ?c P] unfolding reg by simp
  from reach_call [OF 2 this] have 3: "reachable P ?S3" .
  have "written (registered ty (sess S)) = written (sess S)"
    using al(3) unfolding reg by (simp add: pending_insert_def drop_sender_def split: option.split)
  then have "call_step P i ?S3 (?S3\<lparr>sess := (sess ?S3)\<lparr>written := written (sess S) @ [wire]\<rparr>,
      tasks := (tasks S)(i := Waiting ty ?tag ?c)\<rparr>)"
    using call_step.write_ok [of ?S3 i ty pl ?tag ?c P wire] assms(4) by simp
  from reach_call [OF 3 this] show ?thesis by simp
qed

text \<open>The reader reads and handles one frame that completes a command.\<close>

lemma run_answer:
  assumes "reachable P S" "reader S = RTop" "\<not> closed (sess S)" "bs \<noteq> []"
    "decoder_feed P (decoder (sess S)) bs = (d, [FrameOk ty tag pl])" "tag \<noteq> 0"
    "pending_take tag ((sess S)\<lparr>decoder := d\<rparr>) = (Some p, s')" "\<not> absorbs P p ty"
  shows "reachable P (S\<lparr>taken := taken S @ [WorkOk ty tag pl],
    sess := chan_send (waker p) (response_for P (cmd_type p) ty pl) s', reader := RTop\<rparr>)"
proof -
  let ?S1 = "S\<lparr>reader := RReading\<rparr>"
  let ?S2 = "?S1\<lparr>sess := (sess S)\<lparr>decoder := d\<rparr>, reader := RWorking [WorkOk ty tag pl]\<rparr>"
  let ?S3 = "?S2\<lparr>sess := s', reader := RHolding p ty tag pl [], taken := taken S @ [WorkOk ty tag pl]\<rparr>"
  let ?S4 = "?S3\<lparr>sess := chan_send (waker p) (response_for P (cmd_type p) ty pl) s', reader := RWorking []\<rparr>"
  have "reader_step P S ?S1" using assms(2,3) by (rule reader_step.top_open)
  from reach_read [OF assms(1) this] have 1: "reachable P ?S1" .
  have "reader_step P ?S1 ?S2"
    using reader_step.read_bytes [of ?S1 bs P d "[FrameOk ty tag pl]"] assms(4,5) by simp
  from reach_read [OF 1 this] have 2: "reachable P ?S2" .
  have "reader_step P ?S2 ?S3"
    using reader_step.take_entry [of ?S2 ty tag pl "[]" p s' P] assms(6,7) by simp
  from reach_read [OF 2 this] have 3: "reachable P ?S3" .
  have "reader_step P ?S3 ?S4" using reader_step.fire [of ?S3 p ty tag pl "[]" P] assms(8) by simp
  from reach_read [OF 3 this] have 4: "reachable P ?S4" .
  have "reader_step P ?S4 (?S4\<lparr>reader := RTop\<rparr>)" by (rule reader_step.batch_done) simp
  from reach_read [OF 4 this] show ?thesis by simp
qed

lemma run_return:
  assumes "reachable P S" "tasks S i = Waiting ty tag c" "chans (sess S) c = ChanSent r"
  shows "reachable P (S\<lparr>tasks := (tasks S)(i := Returned (Ok r) ty tag c)\<rparr>)"
  using reach_call [OF assms(1) call_step.answered [OF assms(2,3)]] .

end
