(* ===== verification/Float32.thy ===== *)
theory Float32
  imports Prelude
begin

text \<open>
  The single-precision arithmetic the back-off of \<^verbatim>\<open>Dongle::tx_with_retry\<close> uses: the cast
  from \<^verbatim>\<open>u32\<close>, multiplication, and the saturating cast back. A finite number is
  sign, mantissa and exponent, its value \<open>mantissa * 2 ^ exponent\<close>; rounding is to nearest,
  ties to even, at 24 bits of precision with the least exponent -149.
\<close>

datatype f32 = F32_NaN | F32_Inf bool | F32_Fin bool nat int

fun bit_length :: "nat \<Rightarrow> nat" where
  "bit_length n = (if n = 0 then 0 else Suc (bit_length (n div 2)))"

declare bit_length.simps [simp del]

definition round_even :: "nat \<Rightarrow> nat \<Rightarrow> nat" where
  "round_even m k =
     (let q = m div 2 ^ k; r = m mod 2 ^ k; half = 2 ^ (k - 1)
      in if half < r \<or> (r = half \<and> odd q) then Suc q else q)"

definition round_f32 :: "bool \<Rightarrow> nat \<Rightarrow> int \<Rightarrow> f32" where
  "round_f32 neg m e =
     (let s = max (int (bit_length m) - 24) (- 149 - e);
          q = (if s \<le> 0 then m else round_even m (nat s));
          e' = (if s \<le> 0 then e else e + s)
      in if 0 \<le> e' \<and> 2 ^ 128 \<le> q * 2 ^ nat e' then F32_Inf neg else F32_Fin neg q e')"

definition f32_of_u32 :: "u32 \<Rightarrow> f32" where
  "f32_of_u32 w = round_f32 False (unat w) 0"

fun f32_mul :: "f32 \<Rightarrow> f32 \<Rightarrow> f32" where
  "f32_mul F32_NaN _ = F32_NaN"
| "f32_mul _ F32_NaN = F32_NaN"
| "f32_mul (F32_Inf a) (F32_Inf b) = F32_Inf (a \<noteq> b)"
| "f32_mul (F32_Inf a) (F32_Fin b m e) = (if m = 0 then F32_NaN else F32_Inf (a \<noteq> b))"
| "f32_mul (F32_Fin a m e) (F32_Inf b) = (if m = 0 then F32_NaN else F32_Inf (a \<noteq> b))"
| "f32_mul (F32_Fin a m e) (F32_Fin b n f) = round_f32 (a \<noteq> b) (m * n) (e + f)"

text \<open>\<^verbatim>\<open>as u32\<close>: truncates, and saturates at both ends; a NaN is zero.\<close>
fun f32_to_u32 :: "f32 \<Rightarrow> u32" where
  "f32_to_u32 F32_NaN = 0"
| "f32_to_u32 (F32_Inf neg) = (if neg then 0 else - 1)"
| "f32_to_u32 (F32_Fin neg m e) =
     (if neg then 0
      else let v = (if 0 \<le> e then m * 2 ^ nat e else m div 2 ^ nat (- e))
           in if v < 2 ^ 32 then of_nat v else - 1)"

subsection \<open>Exactness on small integers\<close>

lemma bit_length_le: "n < 2 ^ k \<Longrightarrow> bit_length n \<le> k"
proof (induction k arbitrary: n)
  case 0
  then show ?case by (simp add: bit_length.simps)
next
  case (Suc k)
  then have "n div 2 < 2 ^ k" by simp
  then have "bit_length (n div 2) \<le> k" by (rule Suc.IH)
  then show ?case by (subst bit_length.simps) simp
qed

lemma round_f32_exact:
  assumes "m < 2 ^ 24"
  shows "round_f32 neg m 0 = F32_Fin neg m 0"
proof -
  have "bit_length m \<le> 24" using assms by (rule bit_length_le)
  moreover have "\<not> 2 ^ 128 \<le> m" using assms by simp
  ultimately show ?thesis by (simp add: round_f32_def)
qed

text \<open>A whole multiplier acts as integer multiplication as long as the product has 24 bits.\<close>

lemma f32_scale_exact:
  assumes "unat w * k < 2 ^ 24" and "0 < k"
  shows "f32_to_u32 (f32_mul (f32_of_u32 w) (F32_Fin False k 0)) = of_nat (unat w * k)"
proof -
  from assms(2) have "unat w \<le> unat w * k" by simp
  with assms(1) have "unat w < 2 ^ 24" by linarith
  then have "f32_of_u32 w = F32_Fin False (unat w) 0"
    by (simp only: f32_of_u32_def round_f32_exact)
  moreover have "round_f32 False (unat w * k) 0 = F32_Fin False (unat w * k) 0"
    using assms(1) by (rule round_f32_exact)
  moreover have "unat w * k < 2 ^ 32" using assms(1) by simp
  ultimately show ?thesis by simp
qed

text \<open>The cast is exact up to \<open>2 ^ 24\<close> and no further: the next integer is rounded.\<close>

lemma f32_of_u32_inexact: "f32_to_u32 (f32_of_u32 16777217) = 16777216"
  by (simp add: f32_of_u32_def round_f32_def round_even_def bit_length.simps)

subsection \<open>Division and printing\<close>

text \<open>The cast \<^verbatim>\<open>as f32\<close> of a signed integer.\<close>
definition f32_of_int :: "int \<Rightarrow> f32" where
  "f32_of_int x = round_f32 (x < 0) (nat \<bar>x\<bar>) 0"

text \<open>
  A quotient of finite numbers: enough bits of it for the rounding to be exact, and one more bit
  that says whether anything was cut off.
\<close>
fun f32_div :: "f32 \<Rightarrow> f32 \<Rightarrow> f32" where
  "f32_div F32_NaN _ = F32_NaN"
| "f32_div _ F32_NaN = F32_NaN"
| "f32_div (F32_Inf a) (F32_Inf b) = F32_NaN"
| "f32_div (F32_Inf a) (F32_Fin b n f) = F32_Inf (a \<noteq> b)"
| "f32_div (F32_Fin a m e) (F32_Inf b) = F32_Fin (a \<noteq> b) 0 0"
| "f32_div (F32_Fin a m e) (F32_Fin b n f) =
     (if n = 0 then (if m = 0 then F32_NaN else F32_Inf (a \<noteq> b))
      else let k = 26 + bit_length n - bit_length m;
               q = m * 2 ^ k div n;
               rest = (if m * 2 ^ k mod n = 0 then 0 else 1)
           in round_f32 (a \<noteq> b) (2 * q + rest) (e - f - int k - 1))"

text \<open>The digits of \<^verbatim>\<open>{:.1}\<close>: the tenths, rounded from the exact value.\<close>
fun f32_tenths :: "f32 \<Rightarrow> (bool \<times> nat) option" where
  "f32_tenths (F32_Fin neg m e) =
     Some (neg, if 0 \<le> e then 10 * m * 2 ^ nat e else round_even (10 * m) (nat (- e)))"
| "f32_tenths _ = None"

lemma round_even_near:
  assumes "0 < k"
  shows "round_even m k * 2 ^ k \<le> m + 2 ^ (k - 1)" "m \<le> round_even m k * 2 ^ k + 2 ^ (k - 1)"
proof -
  define h q r where "h = (2::nat) ^ (k - 1)" "q = m div 2 ^ k" "r = m mod 2 ^ k"
  have two: "(2::nat) ^ k = 2 * h" using assms by (cases k) (simp_all add: h_q_r_def)
  have m: "m = q * (2 * h) + r" using div_mult_mod_eq [of m "2 ^ k"] unfolding h_q_r_def(2,3) two by simp
  have r: "r < 2 * h" unfolding two [symmetric] h_q_r_def(3) by simp
  have "round_even m k = (if h < r \<or> r = h \<and> odd q then Suc q else q)"
    by (simp add: round_even_def Let_def h_q_r_def)
  then show "round_even m k * 2 ^ k \<le> m + 2 ^ (k - 1)" "m \<le> round_even m k * 2 ^ k + 2 ^ (k - 1)"
    using m r unfolding two h_q_r_def(1) [symmetric] by auto
qed

lemma round_even_eq:
  assumes "0 < k" "m < t * 2 ^ k + 2 ^ (k - 1)" "t * 2 ^ k < m + 2 ^ (k - 1)"
  shows "round_even m k = t"
proof -
  have two: "(2::nat) ^ k = 2 * 2 ^ (k - 1)" using assms(1) by (cases k) simp_all
  have "round_even m k * 2 ^ k < Suc t * 2 ^ k" "t * 2 ^ k < Suc (round_even m k) * 2 ^ k"
    using round_even_near [OF assms(1), of m] assms(2,3) two by (simp_all add: algebra_simps)
  then have "round_even m k < Suc t" "t < Suc (round_even m k)" by (simp_all del: mult_Suc)
  then show ?thesis by simp
qed

lemma bit_length_ge: "2 ^ k \<le> n \<Longrightarrow> k < bit_length n"
proof (induction k arbitrary: n)
  case 0
  then show ?case by (subst bit_length.simps) simp
next
  case (Suc k)
  then have "2 ^ k \<le> n div 2" by simp
  then have "k < bit_length (n div 2)" by (rule Suc.IH)
  moreover have "n \<noteq> 0" using Suc.prems by (auto intro: ccontr)
  ultimately show ?case by (subst bit_length.simps) simp
qed

lemma bit_length_bound: "n < 2 ^ bit_length n"
proof (rule ccontr)
  assume "\<not> n < 2 ^ bit_length n"
  then have "bit_length n < bit_length n" by (intro bit_length_ge) simp
  then show False by simp
qed

text \<open>Rounding a number of at most 28 bits moves it by at most 8.\<close>

lemma round_f32_near:
  assumes "M < 2 ^ 28" "- 100 \<le> E" "E < - 4"
  obtains q s where "round_f32 neg M E = F32_Fin neg q (E + int s)" "s \<le> 4"
    "q * 2 ^ s \<le> M + 8" "M \<le> q * 2 ^ s + 8"
proof -
  have bl: "bit_length M \<le> 28" using assms(1) by (rule bit_length_le)
  show ?thesis
  proof (cases "bit_length M \<le> 24")
    case True
    then have "round_f32 neg M E = F32_Fin neg M (E + int 0)"
      using assms(2,3) by (simp add: round_f32_def)
    then show ?thesis by (rule that) simp_all
  next
    case False
    define s where "s = bit_length M - 24"
    have s: "0 < s" "s \<le> 4" using False bl by (auto simp: s_def)
    have sh: "max (int (bit_length M) - 24) (- 149 - E) = int s" using assms(2) False by (simp add: s_def)
    have eq: "round_f32 neg M E = F32_Fin neg (round_even M s) (E + int s)"
      unfolding round_f32_def sh Let_def using s assms(3) by auto
    have "(2::nat) ^ (s - 1) \<le> 2 ^ 3" using s(2) by (intro power_increasing) simp_all
    then have h: "(2::nat) ^ (s - 1) \<le> 8" by simp
    show ?thesis
      by (rule that [OF eq s(2)]) (use round_even_near [OF s(1), of M] h in simp_all)
  qed
qed

text \<open>
  A number of tenths survives the detour through single precision: divided by ten and printed with
  one decimal, it comes out digit for digit.
\<close>

lemma tenths_exact_pos:
  assumes "0 < m" "m < 2 ^ 16"
  shows "f32_tenths (f32_div (F32_Fin neg m 0) (F32_Fin False 10 0)) = Some (neg, m)"
proof -
  define k where "k = 30 - bit_length m"
  have b10: "bit_length 10 = 4" by (simp add: bit_length.simps)
  have bm: "bit_length m \<le> 16" using assms(2) by (rule bit_length_le)
  then have k: "14 \<le> k" "k \<le> 30" "26 + bit_length 10 - bit_length m = k" by (simp_all add: k_def b10)
  define N where "N = m * 2 ^ k"
  have "m * 2 ^ k < 2 ^ bit_length m * 2 ^ k" using bit_length_bound [of m] by simp
  also have "\<dots> = 2 ^ 30" using bm by (simp add: k_def flip: power_add)
  finally have N: "N < 2 ^ 30" by (simp add: N_def)
  define M where "M = 2 * (N div 10) + (if N mod 10 = 0 then 0 else 1)"
  have M: "5 * M \<le> N + 5" "N \<le> 5 * M + 5" "M < 2 ^ 28"
    using N unfolding M_def by (auto split: if_splits)
  have div: "f32_div (F32_Fin neg m 0) (F32_Fin False 10 0) = round_f32 neg M (- int k - 1)"
    using k(3) by (simp add: M_def N_def Let_def)
  obtain q s where r: "round_f32 neg M (- int k - 1) = F32_Fin neg q (- int k - 1 + int s)"
    and s: "s \<le> 4" and near: "q * 2 ^ s \<le> M + 8" "M \<le> q * 2 ^ s + 8"
    using M(3) k by (elim round_f32_near [of M "- int k - 1" neg]) simp_all
  define j where "j = k + 1 - s"
  have j: "nat (- (- int k - 1 + int s)) = j" "\<not> 0 \<le> - int k - 1 + int s" "0 < j" "s + j = Suc k"
    using s k by (auto simp: j_def)
  have pow: "2 ^ s * 2 ^ j = 2 * (2::nat) ^ k" using j(4) by (simp flip: power_add)
  have half: "2 ^ s * 2 ^ (j - 1) = (2::nat) ^ k" using pow j(3) by (cases j) simp_all
  have big: "100 < (2::nat) ^ k"
    using power_increasing [of 14 k "2::nat"] k(1) by simp
  have scaled: "10 * (q * 2 ^ s) \<le> 2 * N + 95" "2 * N \<le> 10 * (q * 2 ^ s) + 95" using near M by simp_all
  have N2: "2 * N = m * (2 ^ s * 2 ^ j)" by (simp add: pow N_def)
  have "2 ^ s * (10 * q) < 2 ^ s * (m * 2 ^ j + 2 ^ (j - 1))"
    using scaled(1) big unfolding N2 distrib_left half by (simp add: ac_simps)
  then have "10 * q < m * 2 ^ j + 2 ^ (j - 1)" by (simp only: mult_less_cancel1)
  moreover have "2 ^ s * (m * 2 ^ j) < 2 ^ s * (10 * q + 2 ^ (j - 1))"
    using scaled(2) big unfolding N2 distrib_left half by (simp add: ac_simps)
  then have "m * 2 ^ j < 10 * q + 2 ^ (j - 1)" by (simp only: mult_less_cancel1)
  ultimately have "round_even (10 * q) j = m" by (rule round_even_eq [OF j(3)])
  with j(1,2) show ?thesis unfolding div r by simp
qed

lemma tenths_exact:
  assumes "\<bar>x\<bar> < 2 ^ 16"
  shows "f32_tenths (f32_div (f32_of_int x) (F32_Fin False 10 0)) = Some (x < 0, nat \<bar>x\<bar>)"
proof (cases "x = 0")
  case True
  have b: "bit_length 0 = 0" "bit_length 10 = 4" by (simp_all add: bit_length.simps)
  have "f32_of_int 0 = F32_Fin False 0 0" using round_f32_exact [of 0 False] by (simp add: f32_of_int_def)
  moreover have "round_f32 False 0 (- 31) = F32_Fin False 0 (- 31)" by (simp add: round_f32_def b)
  ultimately show ?thesis using True by (simp add: b round_even_def)
next
  case False
  have "nat \<bar>x\<bar> < 2 ^ 24" using assms by simp
  then have "f32_of_int x = F32_Fin (x < 0) (nat \<bar>x\<bar>) 0" unfolding f32_of_int_def by (rule round_f32_exact)
  moreover have "0 < nat \<bar>x\<bar>" "nat \<bar>x\<bar> < 2 ^ 16" using assms False by simp_all
  ultimately show ?thesis using tenths_exact_pos by simp
qed

end
