(* ===== verification/Retry.thy ===== *)
theory Retry
  imports Protocol RustStd Float32
begin

text \<open>
  \<^verbatim>\<open>src/retry.rs\<close>: the retry policy, its jitter, the per-attempt log and its summary, and the
  back-off step that \<^verbatim>\<open>Dongle::tx_with_retry\<close> takes between two attempts. The random number
  generator of the crate \<^verbatim>\<open>rand\<close> is a parameter: \<open>random_range spread\<close> is one draw from
  \<^verbatim>\<open>0..=spread\<close>.
\<close>

record retry_policy =
  max_attempts :: u8
  backoff_ms_min :: u32
  backoff_ms_max :: u32
  backoff_multiplier :: f32
  backoff_cap_ms :: u32
  per_attempt_timeout :: duration
  skip_cad :: bool

definition default_policy :: retry_policy where
  "default_policy =
     \<lparr>max_attempts = 3, backoff_ms_min = 20, backoff_ms_max = 100,
      backoff_multiplier = F32_Fin False 2 0, backoff_cap_ms = 500,
      per_attempt_timeout = from_secs 5, skip_cad = False\<rparr>"

definition jitter_ms :: "(u32 \<Rightarrow> u32) \<Rightarrow> retry_policy \<Rightarrow> u32" where
  "jitter_ms random_range policy =
     (let spread = saturating_sub (backoff_ms_max policy) (backoff_ms_min policy)
      in if spread = 0 then 0 else random_range spread)"

record tx_attempt =
  attempt :: u8
  attempt_result :: "tx_done client_result"
  attempt_elapsed :: duration

record tx_outcome =
  final_airtime_us :: u32
  attempts :: "tx_attempt list"

definition attempts_used :: "tx_outcome \<Rightarrow> u8" where
  "attempts_used out = of_nat (length (attempts out))"

definition had_retries :: "tx_outcome \<Rightarrow> bool" where
  "had_retries out \<longleftrightarrow> 1 < length (attempts out)"

text \<open>The floor of the next wait: scaled in single precision, then capped.\<close>
definition next_delay :: "retry_policy \<Rightarrow> u32 \<Rightarrow> u32" where
  "next_delay policy delay_ms =
     min (f32_to_u32 (f32_mul (f32_of_u32 delay_ms) (backoff_multiplier policy))) (backoff_cap_ms policy)"

text \<open>The wait itself, a sum in \<^verbatim>\<open>u64\<close> of two \<^verbatim>\<open>u32\<close> values.\<close>
definition backoff_wait :: "u32 \<Rightarrow> u32 \<Rightarrow> duration" where
  "backoff_wait delay_ms jitter = from_millis (unat (ucast delay_ms + ucast jitter :: 64 word))"

subsection \<open>Lemmas\<close>

lemma unat_less_2_32: "unat (w::u32) < 2 ^ 32"
  using unsigned_less [of w, where ?'a = nat] by simp

lemma backoff_wait_sum: "backoff_wait d j = from_millis (unat d + unat j)"
proof -
  have "unat (ucast d + ucast j :: 64 word) = unat d + unat j"
    using unat_less_2_32 [of d] unat_less_2_32 [of j] by (simp add: unat_word_ariths unsigned_ucast_eq take_bit_nat_eq_self)
  then show ?thesis by (simp add: backoff_wait_def)
qed

lemma unat_saturating_sub: "unat (saturating_sub a b) = unat a - unat b"
  by (auto simp: saturating_sub_def word_less_nat_alt unat_sub word_le_nat_alt not_less)

lemma jitter_bounded:
  assumes "\<And>s. r s \<le> s"
  shows "unat (jitter_ms r policy) \<le> unat (backoff_ms_max policy) - unat (backoff_ms_min policy)"
  using assms [of "saturating_sub (backoff_ms_max policy) (backoff_ms_min policy)"]
  by (simp add: jitter_ms_def Let_def word_le_nat_alt unat_saturating_sub)

lemma next_delay_capped: "next_delay policy d \<le> backoff_cap_ms policy"
  by (simp add: next_delay_def)

lemma next_delay_default:
  assumes "unat d \<le> 500"
  shows "unat (next_delay default_policy d) = min (2 * unat d) 500"
proof -
  have "f32_to_u32 (f32_mul (f32_of_u32 d) (F32_Fin False 2 0)) = of_nat (unat d * 2)"
    using assms by (intro f32_scale_exact) simp_all
  moreover have "unat (of_nat (unat d * 2) :: u32) = unat d * 2"
    using assms by (subst unsigned_of_nat) (simp add: take_bit_nat_eq_self)
  ultimately show ?thesis
    by (simp add: next_delay_def default_policy_def min_def word_le_nat_alt)
qed

end
