(* ===== verification/Dongle.thy ===== *)
theory Dongle
  imports Commands Retry
begin

text \<open>
  \<^verbatim>\<open>src/dongle.rs\<close>: the user-facing radio. Its state holds the session, the cached device
  information, the transport it runs on, the last configuration the firmware confirmed, whether
  continuous reception was started, the time of the last write and the close flag. An operation is a
  function of the dongle and the world that runs from its first statement to its return.
\<close>

subsection \<open>State\<close>

datatype transport_kind = Serial string | MuxUnix string | MuxTcp string

fun short_label :: "transport_kind \<Rightarrow> string" where
  "short_label (Serial p) = (case path_file_name p of None \<Rightarrow> p | Some f \<Rightarrow> f)"
| "short_label (MuxUnix _) = ''mux:unix''"
| "short_label (MuxTcp _) = ''mux:tcp''"

fun is_mux :: "transport_kind \<Rightarrow> bool" where
  "is_mux (MuxUnix _) = True"
| "is_mux (MuxTcp _) = True"
| "is_mux (Serial _) = False"

record ('i, 'm, 'rx, 'd) dongle =
  d_session :: "('i, 'm, 'rx, 'd) session"
  info :: 'i
  d_transport_kind :: transport_kind
  applied_config :: "'m option"
  rx_started :: bool
  last_write_at :: instant
  d_closed :: bool
  keepalive_handle :: bool

definition KEEPALIVE_INTERVAL :: duration where
  "KEEPALIVE_INTERVAL = from_millis 500"

definition new ::
    "('i, 'm, 'rx, 'd) session \<Rightarrow> 'i \<Rightarrow> transport_kind \<Rightarrow> 'm option \<Rightarrow> bool \<Rightarrow> world \<Rightarrow> ('i, 'm, 'rx, 'd) dongle" where
  "new s inf0 kind applied keepalive w =
     \<lparr>d_session = s, info = inf0, d_transport_kind = kind, applied_config = applied, rx_started = False,
      last_write_at = clock w, d_closed = False, keepalive_handle = keepalive\<rparr>"

definition config :: "('i, 'm, 'rx, 'd) dongle \<Rightarrow> 'm option" where
  "config d = applied_config d"

subsection \<open>Internals\<close>

definition check_open :: "('i, 'm, 'rx, 'd) dongle \<Rightarrow> unit client_result" where
  "check_open d = (if d_closed d then Err (TransportClosed ''dongle closed'') else Ok ())"

definition mark_write :: "world \<Rightarrow> ('i, 'm, 'rx, 'd) dongle \<Rightarrow> ('i, 'm, 'rx, 'd) dongle" where
  "mark_write w d = d\<lparr>last_write_at := clock w\<rparr>"

text \<open>A call into the session.\<close>
definition on_session ::
    "(('i, 'm, 'rx, 'd) session \<Rightarrow> world \<Rightarrow> 'a \<times> ('i, 'm, 'rx, 'd) session \<times> world)
      \<Rightarrow> ('i, 'm, 'rx, 'd) dongle \<Rightarrow> world \<Rightarrow> 'a \<times> ('i, 'm, 'rx, 'd) dongle \<times> world" where
  "on_session f d w = (case f (d_session d) w of (r, s, w') \<Rightarrow> (r, d\<lparr>d_session := s\<rparr>, w'))"

definition reapply_config ::
    "('i, 'm, 'rx, 'd) proto \<Rightarrow> ('i, 'm, 'rx, 'd) dongle \<Rightarrow> world
      \<Rightarrow> unit client_result \<times> ('i, 'm, 'rx, 'd) dongle \<times> world" where
  "reapply_config P d w =
     (case applied_config d of
        None \<Rightarrow> (Err NotConfigured, d, w)
      | Some cfg \<Rightarrow>
          (case on_session (Commands.set_config P cfg (from_secs 2)) d w of
             (Ok r, d', w') \<Rightarrow> (Ok (), d'\<lparr>applied_config := Some (current r)\<rparr>, w')
           | (Err e, d', w') \<Rightarrow> (Err e, d', w')
           | (Panic, d', w') \<Rightarrow> (Panic, d', w')))"

definition recover_and_retry_tx ::
    "('i, 'm, 'rx, 'd) proto \<Rightarrow> bytes \<Rightarrow> bool \<Rightarrow> duration \<Rightarrow> ('i, 'm, 'rx, 'd) dongle \<Rightarrow> world
      \<Rightarrow> tx_done client_result \<times> ('i, 'm, 'rx, 'd) dongle \<times> world" where
  "recover_and_retry_tx P data skip timeout d w =
     (case reapply_config P d w of
        (Ok _, d', w') \<Rightarrow> on_session (transmit P data skip timeout) d' w'
      | (Err e, d', w') \<Rightarrow> (Err e, d', w')
      | (Panic, d', w') \<Rightarrow> (Panic, d', w'))"

subsection \<open>Transmitting\<close>

definition tx_with_timeout ::
    "('i, 'm, 'rx, 'd) proto \<Rightarrow> bytes \<Rightarrow> bool \<Rightarrow> duration \<Rightarrow> ('i, 'm, 'rx, 'd) dongle \<Rightarrow> world
      \<Rightarrow> tx_done client_result \<times> ('i, 'm, 'rx, 'd) dongle \<times> world" where
  "tx_with_timeout P data skip timeout d w =
     (case check_open d of
        Err e \<Rightarrow> (Err e, d, w)
      | Panic \<Rightarrow> (Panic, d, w)
      | Ok _ \<Rightarrow>
          (case on_session (transmit P data skip timeout) (mark_write w d) w of
             (Err NotConfigured, d', w') \<Rightarrow> recover_and_retry_tx P data skip timeout d' w'
           | other \<Rightarrow> other))"

definition tx ::
    "('i, 'm, 'rx, 'd) proto \<Rightarrow> bytes \<Rightarrow> ('i, 'm, 'rx, 'd) dongle \<Rightarrow> world
      \<Rightarrow> tx_done client_result \<times> ('i, 'm, 'rx, 'd) dongle \<times> world" where
  "tx P data = tx_with_timeout P data False (from_secs 10)"

definition dongle_sleep ::
    "('i, 'm, 'rx, 'd) proto \<Rightarrow> duration \<Rightarrow> ('i, 'm, 'rx, 'd) dongle \<Rightarrow> world
      \<Rightarrow> ('i, 'm, 'rx, 'd) dongle \<times> world" where
  "dongle_sleep P t d w = (case sleep P t (d_session d) w of (s, w') \<Rightarrow> (d\<lparr>d_session := s\<rparr>, w'))"

text \<open>
  The loop of \<^verbatim>\<open>tx_with_retry\<close>: \<open>n\<close> attempts are left, \<open>k\<close> is the number of the next one. Each
  wait has a place of its own in the sequence of random draws.
\<close>
fun retry_loop ::
    "('i, 'm, 'rx, 'd) proto \<Rightarrow> bytes \<Rightarrow> retry_policy \<Rightarrow> nat \<Rightarrow> nat \<Rightarrow> u32 \<Rightarrow> tx_attempt list
      \<Rightarrow> ('i, 'm, 'rx, 'd) dongle \<Rightarrow> world \<Rightarrow> tx_outcome client_result \<times> ('i, 'm, 'rx, 'd) dongle \<times> world" where
  "retry_loop P data policy 0 k delay_ms log d w =
     (Err (Other ''tx_with_retry exited without result''), d, w)"
| "retry_loop P data policy (Suc n) k delay_ms log d w =
     (case on_session (transmit P data (skip_cad policy) (per_attempt_timeout policy)) (mark_write w d) w of
        (Ok td, d', w') \<Rightarrow>
          (let entry = \<lparr>attempt = of_nat k, attempt_result = Ok td, attempt_elapsed = clock w' - clock w\<rparr>
           in (Ok \<lparr>final_airtime_us = airtime_us td, attempts = log @ [entry]\<rparr>, d', w'))
      | (Err e, d', w') \<Rightarrow>
          (let entry = \<lparr>attempt = of_nat k, attempt_result = Err (clone_kind e), attempt_elapsed = clock w' - clock w\<rparr>
           in if \<not> is_retryable e \<or> of_nat k = max_attempts policy then (Err e, d', w')
              else (case dongle_sleep P (backoff_wait delay_ms (jitter_ms (random_range w' (draws w')) policy))
                           d' (w'\<lparr>draws := Suc (draws w')\<rparr>) of
                      (d'', w'') \<Rightarrow>
                        retry_loop P data policy n (Suc k) (next_delay policy delay_ms) (log @ [entry]) d'' w''))
      | (Panic, d', w') \<Rightarrow> (Panic, d', w'))"

definition tx_with_retry ::
    "('i, 'm, 'rx, 'd) proto \<Rightarrow> bytes \<Rightarrow> retry_policy \<Rightarrow> ('i, 'm, 'rx, 'd) dongle \<Rightarrow> world
      \<Rightarrow> tx_outcome client_result \<times> ('i, 'm, 'rx, 'd) dongle \<times> world" where
  "tx_with_retry P data policy d w =
     (case check_open d of
        Err e \<Rightarrow> (Err e, d, w)
      | Panic \<Rightarrow> (Panic, d, w)
      | Ok _ \<Rightarrow> retry_loop P data policy (unat (max_attempts policy)) 1 (backoff_ms_min policy) [] d w)"

subsection \<open>Receiving\<close>

definition d_rx_start ::
    "('i, 'm, 'rx, 'd) proto \<Rightarrow> ('i, 'm, 'rx, 'd) dongle \<Rightarrow> world
      \<Rightarrow> unit client_result \<times> ('i, 'm, 'rx, 'd) dongle \<times> world" where
  "d_rx_start P d w =
     (case check_open d of
        Err e \<Rightarrow> (Err e, d, w)
      | Panic \<Rightarrow> (Panic, d, w)
      | Ok _ \<Rightarrow>
          (let d1 = mark_write w d
           in if rx_started d1 then (Ok (), d1, w)
              else (case on_session (rx_start P (from_secs 2)) d1 w of
                      (Err NotConfigured, d2, w2) \<Rightarrow>
                        (case reapply_config P d2 w2 of
                           (Ok _, d3, w3) \<Rightarrow>
                             (case on_session (rx_start P (from_secs 2)) d3 w3 of
                                (Ok _, d4, w4) \<Rightarrow> (Ok (), d4\<lparr>rx_started := True\<rparr>, w4)
                              | (Err e, d4, w4) \<Rightarrow> (Err e, d4, w4)
                              | (Panic, d4, w4) \<Rightarrow> (Panic, d4, w4))
                         | (Err e, d3, w3) \<Rightarrow> (Err e, d3, w3)
                         | (Panic, d3, w3) \<Rightarrow> (Panic, d3, w3))
                    | (Err e, d2, w2) \<Rightarrow> (Err e, d2, w2)
                    | (Ok _, d2, w2) \<Rightarrow> (Ok (), d2\<lparr>rx_started := True\<rparr>, w2)
                    | (Panic, d2, w2) \<Rightarrow> (Panic, d2, w2))))"

definition d_rx_stop ::
    "('i, 'm, 'rx, 'd) proto \<Rightarrow> ('i, 'm, 'rx, 'd) dongle \<Rightarrow> world
      \<Rightarrow> unit client_result \<times> ('i, 'm, 'rx, 'd) dongle \<times> world" where
  "d_rx_stop P d w =
     (case check_open d of
        Err e \<Rightarrow> (Err e, d, w)
      | Panic \<Rightarrow> (Panic, d, w)
      | Ok _ \<Rightarrow>
          (case on_session (rx_stop P (from_secs 2)) (mark_write w d) w of
             (Ok _, d', w') \<Rightarrow> (Ok (), d'\<lparr>rx_started := False\<rparr>, w')
           | other \<Rightarrow> other))"

text \<open>Start reception if needed; whether receiving may go ahead.\<close>
definition ensure_rx ::
    "('i, 'm, 'rx, 'd) proto \<Rightarrow> ('i, 'm, 'rx, 'd) dongle \<Rightarrow> world
      \<Rightarrow> unit client_result \<times> ('i, 'm, 'rx, 'd) dongle \<times> world" where
  "ensure_rx P d w = (if rx_started d then (Ok (), d, w) else d_rx_start P d w)"

definition recv ::
    "('i, 'm, 'rx, 'd) proto \<Rightarrow> duration \<Rightarrow> ('i, 'm, 'rx, 'd) dongle \<Rightarrow> world
      \<Rightarrow> 'rx option client_result \<times> ('i, 'm, 'rx, 'd) dongle \<times> world" where
  "recv P timeout d w =
     (if d_closed d then (Ok None, d, w)
      else (case ensure_rx P d w of
              (Ok _, d', w') \<Rightarrow> (case on_session (recv_rx P timeout) d' w' of (x, d'', w'') \<Rightarrow> (Ok x, d'', w''))
            | (Err _, d', w') \<Rightarrow> (Ok None, d', w')
            | (Panic, d', w') \<Rightarrow> (Panic, d', w')))"

text \<open>The inner option is the returned value; \<open>Ok None\<close> is a call that is still waiting.\<close>
definition d_next_rx ::
    "('i, 'm, 'rx, 'd) proto \<Rightarrow> ('i, 'm, 'rx, 'd) dongle \<Rightarrow> world
      \<Rightarrow> 'rx option option client_result \<times> ('i, 'm, 'rx, 'd) dongle \<times> world" where
  "d_next_rx P d w =
     (if d_closed d then (Ok (Some None), d, w)
      else (case ensure_rx P d w of
              (Ok _, d', w') \<Rightarrow> (case on_session (next_rx P) d' w' of (x, d'', w'') \<Rightarrow> (Ok x, d'', w''))
            | (Err _, d', w') \<Rightarrow> (Ok (Some None), d', w')
            | (Panic, d', w') \<Rightarrow> (Panic, d', w')))"

subsection \<open>Configuring, probing, closing\<close>

definition d_set_config ::
    "('i, 'm, 'rx, 'd) proto \<Rightarrow> 'm \<Rightarrow> ('i, 'm, 'rx, 'd) dongle \<Rightarrow> world
      \<Rightarrow> unit client_result \<times> ('i, 'm, 'rx, 'd) dongle \<times> world" where
  "d_set_config P modulation d w =
     (case check_open d of
        Err e \<Rightarrow> (Err e, d, w)
      | Panic \<Rightarrow> (Panic, d, w)
      | Ok _ \<Rightarrow>
          (case on_session (Commands.set_config P modulation (from_secs 2)) (mark_write w d) w of
             (Ok r, d', w') \<Rightarrow> (Ok (), d'\<lparr>applied_config := Some (current r), rx_started := False\<rparr>, w')
           | (Err e, d', w') \<Rightarrow> (Err e, d', w')
           | (Panic, d', w') \<Rightarrow> (Panic, d', w')))"

definition d_ping ::
    "('i, 'm, 'rx, 'd) proto \<Rightarrow> ('i, 'm, 'rx, 'd) dongle \<Rightarrow> world
      \<Rightarrow> unit client_result \<times> ('i, 'm, 'rx, 'd) dongle \<times> world" where
  "d_ping P d w =
     (case check_open d of
        Err e \<Rightarrow> (Err e, d, w)
      | Panic \<Rightarrow> (Panic, d, w)
      | Ok _ \<Rightarrow> on_session (ping P (from_secs 2)) (mark_write w d) w)"

definition d_drain_async_errors ::
    "('i, 'm, 'rx, 'd) dongle \<Rightarrow> client_error list \<times> ('i, 'm, 'rx, 'd) dongle" where
  "d_drain_async_errors d =
     (case drain_async_errors (d_session d) of (es, s) \<Rightarrow> (es, d\<lparr>d_session := s\<rparr>))"

definition abort_keepalive :: "('i, 'm, 'rx, 'd) dongle \<Rightarrow> ('i, 'm, 'rx, 'd) dongle" where
  "abort_keepalive d = d\<lparr>keepalive_handle := False\<rparr>"

definition d_close :: "('i, 'm, 'rx, 'd) dongle \<Rightarrow> ('i, 'm, 'rx, 'd) dongle" where
  "d_close d =
     (if d_closed d then d
      else (let d1 = abort_keepalive (d\<lparr>d_closed := True\<rparr>) in d1\<lparr>d_session := close (d_session d1)\<rparr>))"

definition drop_dongle :: "('i, 'm, 'rx, 'd) dongle \<Rightarrow> ('i, 'm, 'rx, 'd) dongle" where
  "drop_dongle d = abort_keepalive d"

subsection \<open>The keepalive task\<close>

text \<open>One turn of the loop: sleep, then maybe ping; \<open>False\<close> when the task returns.\<close>
definition keepalive_iter ::
    "('i, 'm, 'rx, 'd) proto \<Rightarrow> ('i, 'm, 'rx, 'd) dongle \<Rightarrow> world
      \<Rightarrow> bool \<times> ('i, 'm, 'rx, 'd) dongle \<times> world" where
  "keepalive_iter P d0 w0 =
     (case dongle_sleep P KEEPALIVE_INTERVAL d0 w0 of (d, w) \<Rightarrow>
        if d_closed d then (False, d, w)
        else if clock w - last_write_at d < KEEPALIVE_INTERVAL then (True, d, w)
        else (case on_session (ping P (from_secs 2)) d w of
                (Ok _, d', w') \<Rightarrow> (True, mark_write w' d', w')
              | (Err NotConfigured, d', w') \<Rightarrow>
                  (case applied_config d' of
                     None \<Rightarrow> (True, d', w')
                   | Some m \<Rightarrow>
                       (case on_session (Commands.set_config P m (from_secs 2)) d' w' of
                          (Ok _, d'', w'') \<Rightarrow> (True, mark_write w'' d'', w'')
                        | (Err _, d'', w'') \<Rightarrow> (True, d'', w'')
                        | (Panic, d'', w'') \<Rightarrow> (False, d'', w'')))
              | (Err _, d', w') \<Rightarrow> (True, d', w')
              | (Panic, d', w') \<Rightarrow> (False, d', w')))"

subsection \<open>Invariant and effect of an operation\<close>

definition dongle_inv :: "('i, 'm, 'rx, 'd) dongle \<Rightarrow> world \<Rightarrow> bool" where
  "dongle_inv d w \<longleftrightarrow>
     session_inv (d_session d) \<and> last_write_at d \<le> clock w \<and> d_closed d = closed (d_session d)
     \<and> (d_closed d \<longrightarrow> \<not> keepalive_handle d)"

text \<open>
  What an operation that writes at most \<open>n\<close> frames and hands out the packets \<open>out\<close> may do to the
  dongle: keep the invariant, leave identity, close flag and keepalive handle alone, move the clock
  forward, extend the wire, and take exactly \<open>out\<close> from the front of the stream of packets.
\<close>
definition effect ::
    "('i, 'm, 'rx, 'd) proto \<Rightarrow> nat \<Rightarrow> 'rx list \<Rightarrow> ('i, 'm, 'rx, 'd) dongle \<Rightarrow> world
      \<Rightarrow> ('i, 'm, 'rx, 'd) dongle \<Rightarrow> world \<Rightarrow> bool" where
  "effect P n out d w d' w' \<longleftrightarrow>
     (dongle_inv d w \<longrightarrow> dongle_inv d' w')
     \<and> info d' = info d \<and> d_transport_kind d' = d_transport_kind d \<and> d_closed d' = d_closed d
     \<and> keepalive_handle d' = keepalive_handle d \<and> clock w \<le> clock w'
     \<and> (\<exists>fs. length fs \<le> n \<and> written (d_session d') = written (d_session d) @ fs)
     \<and> rx_stream P (d_session d) (arrivals w) = out @ rx_stream P (d_session d') (arrivals w')"

abbreviation silent_effect where
  "silent_effect P n d w d' w' \<equiv> effect P n [] d w d' w'"

lemma effect_refl [simp]: "silent_effect P n d w d w"
  by (simp add: effect_def)

lemma effect_trans:
  assumes "effect P n xs d w d1 w1" "effect P m ys d1 w1 d2 w2" "n + m \<le> k"
  shows "effect P k (xs @ ys) d w d2 w2"
proof -
  obtain fs1 where fs1: "length fs1 \<le> n" "written (d_session d1) = written (d_session d) @ fs1"
    using assms(1) by (auto simp: effect_def)
  obtain fs2 where fs2: "length fs2 \<le> m" "written (d_session d2) = written (d_session d1) @ fs2"
    using assms(2) by (auto simp: effect_def)
  have "length (fs1 @ fs2) \<le> k" "written (d_session d2) = written (d_session d) @ (fs1 @ fs2)"
    using fs1 fs2 assms(3) by simp_all
  then have "\<exists>fs. length fs \<le> k \<and> written (d_session d2) = written (d_session d) @ fs" by blast
  with assms(1,2) show ?thesis by (simp add: effect_def)
qed

lemma silent_effect_trans:
  "silent_effect P n d w d1 w1 \<Longrightarrow> silent_effect P m d1 w1 d2 w2 \<Longrightarrow> n + m \<le> k \<Longrightarrow> silent_effect P k d w d2 w2"
  using effect_trans [of P n "[]" d w d1 w1 m "[]"] by simp

lemma effect_mono: "effect P n xs d w d' w' \<Longrightarrow> n \<le> k \<Longrightarrow> effect P k xs d w d' w'"
  unfolding effect_def by (meson le_trans)

lemma effect_updates [simp]:
  "silent_effect P n d w (d\<lparr>applied_config := x\<rparr>) w" "silent_effect P n d w (d\<lparr>rx_started := b\<rparr>) w"
  "silent_effect P n d w (d\<lparr>applied_config := x, rx_started := b\<rparr>) w" "silent_effect P n d w (mark_write w d) w"
  by (simp_all add: effect_def dongle_inv_def mark_write_def)

lemma effect_draws [simp]: "effect P n xs d (w\<lparr>draws := x\<rparr>) d' w' = effect P n xs d w d' w'"
  by (simp add: effect_def dongle_inv_def)

lemma effect_update_after:
  assumes "silent_effect P n d w d' w'"
  shows "silent_effect P n d w (d'\<lparr>applied_config := x\<rparr>) w'" "silent_effect P n d w (d'\<lparr>rx_started := b\<rparr>) w'"
    "silent_effect P n d w (d'\<lparr>applied_config := x, rx_started := b\<rparr>) w'" "silent_effect P n d w (mark_write w' d') w'"
  by (rule silent_effect_trans [OF assms, of 0], simp_all)+

lemma effect_mark: "silent_effect P n (mark_write w d) w d' w' \<Longrightarrow> silent_effect P n d w d' w'"
  by (rule silent_effect_trans [of P 0 d w "mark_write w d" w n]) simp_all

text \<open>Calls into the session, from the contract of a session operation.\<close>

context session_op
begin

lemma on_session_effect:
  assumes "on_session op d w = (r, d', w')"
  shows "silent_effect P (Suc 0) d w d' w'"
proof -
  obtain s where run: "op (d_session d) w = (r, s, w')" and d': "d' = d\<lparr>d_session := s\<rparr>"
    using assms by (auto simp: on_session_def split: prod.splits)
  show ?thesis
    using op_inv [OF run] op_flag [OF run] op_clock [OF run] op_written [OF run] op_stream [OF run]
    by (auto simp: effect_def dongle_inv_def d')
qed

lemma on_session_fields:
  "on_session op d w = (r, d', w') \<Longrightarrow> applied_config d' = applied_config d \<and> rx_started d' = rx_started d"
  by (auto simp: on_session_def split: prod.splits)

end

lemma link_viewD:
  "link_view s' = link_view s \<Longrightarrow> written s' = written s \<and> closed s' = closed s"
  by (simp add: link_view_def)

lemma recv_effect:
  "on_session (recv_rx P t) d w = (x, d', w') \<Longrightarrow> effect P 0 (case x of Some p \<Rightarrow> [p] | None \<Rightarrow> []) d w d' w'"
  "on_session (next_rx P) d w = (y, d', w') \<Longrightarrow> effect P 0 (case y of Some (Some p) \<Rightarrow> [p] | _ \<Rightarrow> []) d w d' w'"
proof -
  assume "on_session (recv_rx P t) d w = (x, d', w')"
  then obtain s where run: "recv_rx P t (d_session d) w = (x, s, w')" and d': "d' = d\<lparr>d_session := s\<rparr>"
    by (auto simp: on_session_def split: prod.splits)
  show "effect P 0 (case x of Some p \<Rightarrow> [p] | None \<Rightarrow> []) d w d' w'"
    using recv_rx_keeps [OF run] recv_rx_stream [OF run] link_viewD
    by (auto simp: effect_def dongle_inv_def d')
next
  assume "on_session (next_rx P) d w = (y, d', w')"
  then obtain s where run: "next_rx P (d_session d) w = (y, s, w')" and d': "d' = d\<lparr>d_session := s\<rparr>"
    by (auto simp: on_session_def split: prod.splits)
  show "effect P 0 (case y of Some (Some p) \<Rightarrow> [p] | _ \<Rightarrow> []) d w d' w'"
    using next_rx_keeps [OF run] next_rx_stream [OF run] link_viewD
    by (auto simp: effect_def dongle_inv_def d')
qed

lemma dongle_sleep_effect: "dongle_sleep P t d w = (d', w') \<Longrightarrow> silent_effect P 0 d w d' w'"
proof -
  assume "dongle_sleep P t d w = (d', w')"
  then obtain s where run: "sleep P t (d_session d) w = (s, w')" and d': "d' = d\<lparr>d_session := s\<rparr>"
    by (auto simp: dongle_sleep_def split: prod.splits)
  show ?thesis
    using sleep_keeps [OF run] sleep_stream [OF run] link_viewD by (auto simp: effect_def dongle_inv_def d')
qed

lemma reapply_config_effect: "reapply_config P d w = (r, d', w') \<Longrightarrow> silent_effect P (Suc 0) d w d' w'"
  by (auto simp: reapply_config_def split: option.splits prod.splits client_result.splits
      intro: effect_update_after set_config_op.on_session_effect)

lemma recover_effect: "recover_and_retry_tx P data skip t d w = (r, d', w') \<Longrightarrow> silent_effect P 2 d w d' w'"
  by (auto simp: recover_and_retry_tx_def split: prod.splits client_result.splits
      intro: effect_mono silent_effect_trans dest!: reapply_config_effect transmit_op.on_session_effect)

lemma tx_effect: "tx_with_timeout P data skip t d w = (r, d', w') \<Longrightarrow> silent_effect P 3 d w d' w'"
proof (cases "d_closed d")
  case False
  assume run: "tx_with_timeout P data skip t d w = (r, d', w')"
  obtain r1 d1 w1 where first: "on_session (transmit P data skip t) (mark_write w d) w = (r1, d1, w1)"
    by (metis prod_cases3)
  have e1: "silent_effect P (Suc 0) d w d1 w1"
    by (rule effect_mark) (rule transmit_op.on_session_effect [OF first])
  show ?thesis
  proof (cases "r1 = Err NotConfigured")
    case True
    with run first False have "recover_and_retry_tx P data skip t d1 w1 = (r, d', w')"
      by (simp add: tx_with_timeout_def check_open_def)
    from silent_effect_trans [OF e1 recover_effect [OF this]] show ?thesis by simp
  next
    case other: False
    with run first False have "d' = d1" "w' = w1"
      by (auto simp: tx_with_timeout_def check_open_def split: client_result.splits client_error.splits)
    with effect_mono [OF e1] show ?thesis by simp
  qed
qed (simp add: tx_with_timeout_def check_open_def)

lemma retry_loop_effect:
  "retry_loop P data policy n k delay log d w = (r, d', w') \<Longrightarrow> silent_effect P n d w d' w'"
proof (induction n arbitrary: k delay log d w)
  case (Suc n)
  obtain r1 d1 w1 where first: "on_session (transmit P data (skip_cad policy) (per_attempt_timeout policy))
      (mark_write w d) w = (r1, d1, w1)" by (metis prod_cases3)
  have e1: "silent_effect P (Suc 0) d w d1 w1"
    by (rule effect_mark) (rule transmit_op.on_session_effect [OF first])
  show ?case
  proof (cases "\<exists>e. r1 = Err e \<and> is_retryable e \<and> of_nat k \<noteq> max_attempts policy")
    case False
    with Suc.prems first have "d' = d1" "w' = w1"
      by (auto simp: Let_def split: client_result.splits if_splits prod.splits)
    with effect_mono [OF e1] show ?thesis by simp
  next
    case True
    then obtain e where e: "r1 = Err e" "is_retryable e" "of_nat k \<noteq> max_attempts policy" by blast
    let ?w = "w1\<lparr>draws := Suc (draws w1)\<rparr>"
    obtain d2 w2 where sl: "dongle_sleep P (backoff_wait delay (jitter_ms (random_range w1 (draws w1)) policy)) d1 ?w
        = (d2, w2)" by fastforce
    have "silent_effect P 0 d1 w1 d2 w2" using dongle_sleep_effect [OF sl] by simp
    then have e2: "silent_effect P (Suc 0) d w d2 w2" using silent_effect_trans [OF e1] by simp
    have "\<exists>log'. retry_loop P data policy n (Suc k) (next_delay policy delay) log' d2 w2 = (r, d', w')"
      using Suc.prems first e sl by (auto simp: Let_def)
    with Suc.IH have "silent_effect P n d2 w2 d' w'" by blast
    with silent_effect_trans [OF e2 this] show ?thesis by simp
  qed
qed simp

lemma rx_start_effect: "d_rx_start P d w = (r, d', w') \<Longrightarrow> silent_effect P 3 d w d' w'"
proof (cases "d_closed d \<or> rx_started d")
  case True
  assume "d_rx_start P d w = (r, d', w')"
  with True show ?thesis
    by (auto simp: d_rx_start_def check_open_def Let_def mark_write_def effect_def dongle_inv_def split: if_splits)
next
  case False
  assume run: "d_rx_start P d w = (r, d', w')"
  obtain r1 d1 w1 where first: "on_session (rx_start P (from_secs 2)) (mark_write w d) w = (r1, d1, w1)"
    by (metis prod_cases3)
  have e1: "silent_effect P (Suc 0) d w d1 w1"
    by (rule effect_mark) (rule rx_start_op.on_session_effect [OF first])
  show ?thesis
  proof (cases "r1 = Err NotConfigured")
    case n: False
    with run first False have "d' = d1 \<and> w' = w1 \<or> d' = d1\<lparr>rx_started := True\<rparr> \<and> w' = w1"
      by (auto simp: d_rx_start_def check_open_def mark_write_def Let_def
          split: client_result.splits client_error.splits)
    with effect_mono [OF e1, of 3] effect_mono [OF effect_update_after(2) [OF e1, of True], of 3]
    show ?thesis by auto
  next
    case True
    obtain r2 d2 w2 where second: "reapply_config P d1 w1 = (r2, d2, w2)" by (metis prod_cases3)
    have e2: "silent_effect P 2 d w d2 w2" using silent_effect_trans [OF e1 reapply_config_effect [OF second]] by simp
    obtain r3 d3 w3 where third: "on_session (rx_start P (from_secs 2)) d2 w2 = (r3, d3, w3)" by (metis prod_cases3)
    have e3: "silent_effect P 3 d w d3 w3" using silent_effect_trans [OF e2 rx_start_op.on_session_effect [OF third]] by simp
    from run first False True second third
    have "d' = d2 \<and> w' = w2 \<or> d' = d3 \<and> w' = w3 \<or> d' = d3\<lparr>rx_started := True\<rparr> \<and> w' = w3"
      by (auto simp: d_rx_start_def check_open_def mark_write_def Let_def split: client_result.splits)
    with effect_mono [OF e2] e3 effect_update_after(2) [OF e3] show ?thesis by auto
  qed
qed

lemma rx_stop_effect: "d_rx_stop P d w = (r, d', w') \<Longrightarrow> silent_effect P (Suc 0) d w d' w'"
proof (cases "d_closed d")
  case False
  assume run: "d_rx_stop P d w = (r, d', w')"
  obtain r1 d1 w1 where first: "on_session (rx_stop P (from_secs 2)) (mark_write w d) w = (r1, d1, w1)"
    by (metis prod_cases3)
  have e1: "silent_effect P (Suc 0) d w d1 w1"
    by (rule effect_mark) (rule rx_stop_op.on_session_effect [OF first])
  with run first False show ?thesis
    by (cases r1) (auto simp: d_rx_stop_def check_open_def effect_update_after)
qed (simp add: d_rx_stop_def check_open_def)

lemma set_config_effect: "d_set_config P m d w = (r, d', w') \<Longrightarrow> silent_effect P (Suc 0) d w d' w'"
proof (cases "d_closed d")
  case False
  assume run: "d_set_config P m d w = (r, d', w')"
  obtain r1 d1 w1 where first: "on_session (Commands.set_config P m (from_secs 2)) (mark_write w d) w = (r1, d1, w1)"
    by (metis prod_cases3)
  have e1: "silent_effect P (Suc 0) d w d1 w1"
    by (rule effect_mark) (rule set_config_op.on_session_effect [OF first])
  with run first False show ?thesis
    by (cases r1) (auto simp: d_set_config_def check_open_def effect_update_after)
qed (simp add: d_set_config_def check_open_def)

lemma ping_effect: "d_ping P d w = (r, d', w') \<Longrightarrow> silent_effect P (Suc 0) d w d' w'"
proof (cases "d_closed d")
  case False
  assume run: "d_ping P d w = (r, d', w')"
  obtain r1 d1 w1 where first: "on_session (ping P (from_secs 2)) (mark_write w d) w = (r1, d1, w1)"
    by (metis prod_cases3)
  have e1: "silent_effect P (Suc 0) d w d1 w1"
    by (rule effect_mark) (rule ping_op.on_session_effect [OF first])
  with run first False show ?thesis
    by (cases r1) (auto simp: d_ping_def check_open_def)
qed (simp add: d_ping_def check_open_def)

lemma ensure_rx_effect: "ensure_rx P d w = (r, d', w') \<Longrightarrow> silent_effect P 3 d w d' w'"
  by (auto simp: ensure_rx_def split: if_splits intro: rx_start_effect)

text \<open>The packets a call hands out.\<close>

fun recv_packets :: "'rx option client_result \<Rightarrow> 'rx list" where
  "recv_packets (Ok (Some p)) = [p]"
| "recv_packets _ = []"

fun next_rx_packets :: "'rx option option client_result \<Rightarrow> 'rx list" where
  "next_rx_packets (Ok (Some (Some p))) = [p]"
| "next_rx_packets _ = []"

lemma recv_op_effect:
  assumes "recv P t d w = (r, d', w')"
  shows "effect P 3 (recv_packets r) d w d' w'"
proof (cases "d_closed d")
  case True
  with assms show ?thesis by (auto simp: recv_def)
next
  case False
  obtain r1 d1 w1 where first: "ensure_rx P d w = (r1, d1, w1)" by (metis prod_cases3)
  obtain x d2 w2 where second: "on_session (recv_rx P t) d1 w1 = (x, d2, w2)" by (metis prod_cases3)
  note e1 = ensure_rx_effect [OF first]
  from effect_trans [OF e1 recv_effect(1) [OF second], of 3]
  have e2: "effect P 3 (case x of Some p \<Rightarrow> [p] | None \<Rightarrow> []) d w d2 w2" by simp
  from assms False first second e1 e2 show ?thesis
    by (cases r1; cases x) (auto simp: recv_def)
qed

lemma next_rx_op_effect:
  assumes "d_next_rx P d w = (r, d', w')"
  shows "effect P 3 (next_rx_packets r) d w d' w'"
proof (cases "d_closed d")
  case True
  with assms show ?thesis by (auto simp: d_next_rx_def)
next
  case False
  obtain r1 d1 w1 where first: "ensure_rx P d w = (r1, d1, w1)" by (metis prod_cases3)
  obtain x d2 w2 where second: "on_session (next_rx P) d1 w1 = (x, d2, w2)" by (metis prod_cases3)
  note e1 = ensure_rx_effect [OF first]
  from effect_trans [OF e1 recv_effect(2) [OF second], of 3]
  have e2: "effect P 3 (case x of Some (Some p) \<Rightarrow> [p] | _ \<Rightarrow> []) d w d2 w2" by simp
  from assms False first second e1 e2 show ?thesis
    by (cases r1) (auto simp: d_next_rx_def split: option.splits)
qed

end
