(* ===== verification/DongleOps.thy ===== *)
theory DongleOps
  imports Dongle
begin

text \<open>
  The contract of the operations of \<^verbatim>\<open>Dongle\<close> as an interface, its instances, sequences of calls
  on one dongle, the log and the timing of \<^verbatim>\<open>tx_with_retry\<close>, recovery from a lost
  configuration, and the cadence of the keepalive task.
\<close>

subsection \<open>Interface: an operation of the dongle\<close>

text \<open>
  A closed dongle is left alone and answers \<open>refused\<close>; otherwise at most \<open>frames\<close> frames are
  written, the invariant is kept, and what the call hands out comes from the front of the stream of
  packets.
\<close>

locale dongle_op =
  fixes op :: "('i, 'm, 'rx, 'd) dongle \<Rightarrow> world \<Rightarrow> 'r \<times> ('i, 'm, 'rx, 'd) dongle \<times> world"
    and P :: "('i, 'm, 'rx, 'd) proto"
    and refused :: 'r
    and frames :: nat
    and packets :: "'r \<Rightarrow> 'rx list"
  assumes op_refused: "d_closed d \<Longrightarrow> op d w = (refused, d, w)"
    and op_effect: "op d w = (r, d', w') \<Longrightarrow> effect P frames (packets r) d w d' w'"
begin

lemma op_dongle_inv: "op d w = (r, d', w') \<Longrightarrow> dongle_inv d w \<Longrightarrow> dongle_inv d' w'"
  using op_effect by (simp add: effect_def)

lemma op_stays: "op d w = (r, d', w') \<Longrightarrow> d_closed d' = d_closed d \<and> info d' = info d"
  using op_effect by (simp add: effect_def)

lemma op_frames:
  "op d w = (r, d', w') \<Longrightarrow> \<exists>fs. length fs \<le> frames \<and> written (d_session d') = written (d_session d) @ fs"
  using op_effect by (simp add: effect_def)

lemma op_delivers:
  "op d w = (r, d', w') \<Longrightarrow>
    rx_stream P (d_session d) (arrivals w) = packets r @ rx_stream P (d_session d') (arrivals w')"
  using op_effect by (simp add: effect_def)

lemma op_after_close: "op (d_close d) w = (refused, d_close d, w)"
  by (rule op_refused) (simp add: d_close_def abort_keepalive_def Let_def)

end

interpretation tx_dop: dongle_op "tx_with_timeout P data skip t" P "Err (TransportClosed ''dongle closed'')" 3 "\<lambda>_. []"
  for P data skip t
  by unfold_locales (auto simp: tx_with_timeout_def check_open_def intro: tx_effect)

interpretation tx_retry_dop: dongle_op "tx_with_retry P data policy" P "Err (TransportClosed ''dongle closed'')"
    "unat (max_attempts policy)" "\<lambda>_. []" for P data policy
  by unfold_locales (auto simp: tx_with_retry_def check_open_def split: if_splits intro: retry_loop_effect)

interpretation rx_start_dop: dongle_op "d_rx_start P" P "Err (TransportClosed ''dongle closed'')" 3 "\<lambda>_. []" for P
  by unfold_locales (auto simp: d_rx_start_def check_open_def intro: rx_start_effect)

interpretation rx_stop_dop: dongle_op "d_rx_stop P" P "Err (TransportClosed ''dongle closed'')" "Suc 0" "\<lambda>_. []" for P
  by unfold_locales (auto simp: d_rx_stop_def check_open_def intro: rx_stop_effect)

interpretation recv_dop: dongle_op "recv P t" P "Ok None" 3 recv_packets for P t
  by unfold_locales (auto simp: recv_def intro: recv_op_effect)

interpretation next_rx_dop: dongle_op "d_next_rx P" P "Ok (Some None)" 3 next_rx_packets for P
  by unfold_locales (auto simp: d_next_rx_def intro: next_rx_op_effect)

interpretation set_config_dop: dongle_op "d_set_config P m" P "Err (TransportClosed ''dongle closed'')" "Suc 0"
    "\<lambda>_. []" for P m
  by unfold_locales (auto simp: d_set_config_def check_open_def intro: set_config_effect)

interpretation ping_dop: dongle_op "d_ping P" P "Err (TransportClosed ''dongle closed'')" "Suc 0" "\<lambda>_. []" for P
  by unfold_locales (auto simp: d_ping_def check_open_def intro: ping_effect)

subsection \<open>Sequences of calls\<close>

datatype 'm api_call =
    CallTx bytes bool duration
  | CallTxRetry bytes retry_policy
  | CallRxStart
  | CallRxStop
  | CallRecv duration
  | CallNextRx
  | CallSetConfig 'm
  | CallPing
  | CallDrain
  | CallClose
  | KeepaliveTurn

text \<open>The state after a call; a turn of the keepalive task happens only while its handle lives.\<close>
fun api_step ::
    "('i, 'm, 'rx, 'd) proto \<Rightarrow> 'm api_call \<Rightarrow> ('i, 'm, 'rx, 'd) dongle \<times> world
      \<Rightarrow> ('i, 'm, 'rx, 'd) dongle \<times> world" where
  "api_step P (CallTx data skip t) (d, w) = snd (tx_with_timeout P data skip t d w)"
| "api_step P (CallTxRetry data policy) (d, w) = snd (tx_with_retry P data policy d w)"
| "api_step P CallRxStart (d, w) = snd (d_rx_start P d w)"
| "api_step P CallRxStop (d, w) = snd (d_rx_stop P d w)"
| "api_step P (CallRecv t) (d, w) = snd (recv P t d w)"
| "api_step P CallNextRx (d, w) = snd (d_next_rx P d w)"
| "api_step P (CallSetConfig m) (d, w) = snd (d_set_config P m d w)"
| "api_step P CallPing (d, w) = snd (d_ping P d w)"
| "api_step P CallDrain (d, w) = (snd (d_drain_async_errors d), w)"
| "api_step P CallClose (d, w) = (d_close d, w)"
| "api_step P KeepaliveTurn (d, w) = (if keepalive_handle d then snd (keepalive_iter P d w) else (d, w))"

lemma drain_inv: "dongle_inv d w \<Longrightarrow> dongle_inv (snd (d_drain_async_errors d)) w"
  by (simp add: d_drain_async_errors_def drain_async_errors_def drain_loop_eq dongle_inv_def session_inv_def)

lemma d_close_inv: "dongle_inv d w \<Longrightarrow> dongle_inv (d_close d) w"
  by (auto simp: d_close_def dongle_inv_def abort_keepalive_def Let_def intro: keeps_inv)

lemma keepalive_effect: "keepalive_iter P d0 w0 = (b, d', w') \<Longrightarrow> silent_effect P 2 d0 w0 d' w'"
proof -
  assume run: "keepalive_iter P d0 w0 = (b, d', w')"
  obtain d w where sl: "dongle_sleep P KEEPALIVE_INTERVAL d0 w0 = (d, w)" by fastforce
  note e0 = dongle_sleep_effect [OF sl]
  show ?thesis
  proof (cases "d_closed d \<or> clock w - last_write_at d < KEEPALIVE_INTERVAL")
    case True
    with run sl have "d' = d" "w' = w" by (auto simp: keepalive_iter_def split: if_splits)
    with effect_mono [OF e0] show ?thesis by simp
  next
    case False
    obtain r1 d1 w1 where first: "on_session (ping P (from_secs 2)) d w = (r1, d1, w1)" by (metis prod_cases3)
    have e1: "silent_effect P (Suc 0) d0 w0 d1 w1"
      using silent_effect_trans [OF e0 ping_op.on_session_effect [OF first]] by simp
    note m1 = effect_mono [OF e1, of 2] effect_mono [OF effect_update_after(4) [OF e1], of 2]
    show ?thesis
    proof (cases "r1 = Err NotConfigured \<and> applied_config d1 \<noteq> None")
      case other: False
      with run sl first False have "w' = w1 \<and> (d' = d1 \<or> d' = mark_write w1 d1)"
        by (auto simp: keepalive_iter_def split: client_result.splits client_error.splits option.splits)
      with m1 show ?thesis by auto
    next
      case True
      then obtain m where m: "r1 = Err NotConfigured" "applied_config d1 = Some m" by blast
      obtain r2 d2 w2 where second: "on_session (Commands.set_config P m (from_secs 2)) d1 w1 = (r2, d2, w2)"
        by (metis prod_cases3)
      have e2: "silent_effect P 2 d0 w0 d2 w2"
        using silent_effect_trans [OF e1 set_config_op.on_session_effect [OF second]] by simp
      from run sl first second False m have "w' = w2 \<and> (d' = d2 \<or> d' = mark_write w2 d2)"
        by (auto simp: keepalive_iter_def split: client_result.splits)
      with e2 effect_update_after(4) [OF e2] show ?thesis by auto
    qed
  qed
qed

lemma api_step_inv:
  assumes "dongle_inv d w" "api_step P c (d, w) = (d', w')"
  shows "dongle_inv d' w'"
proof (cases c)
  case (CallTx data skip t)
  with assms tx_dop.op_dongle_inv show ?thesis by (auto simp: snd_def split: prod.splits)
next
  case (CallTxRetry data policy)
  with assms tx_retry_dop.op_dongle_inv show ?thesis by (auto simp: snd_def split: prod.splits)
next
  case CallRxStart
  with assms rx_start_dop.op_dongle_inv show ?thesis by (auto simp: snd_def split: prod.splits)
next
  case CallRxStop
  with assms rx_stop_dop.op_dongle_inv show ?thesis by (auto simp: snd_def split: prod.splits)
next
  case (CallRecv t)
  with assms recv_dop.op_dongle_inv show ?thesis by (auto simp: snd_def split: prod.splits)
next
  case CallNextRx
  with assms next_rx_dop.op_dongle_inv show ?thesis by (auto simp: snd_def split: prod.splits)
next
  case (CallSetConfig m)
  with assms set_config_dop.op_dongle_inv show ?thesis by (auto simp: snd_def split: prod.splits)
next
  case CallPing
  with assms ping_dop.op_dongle_inv show ?thesis by (auto simp: snd_def split: prod.splits)
next
  case KeepaliveTurn
  obtain b d1 w1 where k: "keepalive_iter P d w = (b, d1, w1)" by (metis prod_cases3)
  from assms KeepaliveTurn k keepalive_effect [OF k] show ?thesis by (auto simp: effect_def split: if_splits)
qed (use assms drain_inv [of d w] d_close_inv [of d w] in auto)

lemma api_steps_inv: "dongle_inv (fst x) (snd x) \<Longrightarrow> dongle_inv (fst (fold (api_step P) cs x)) (snd (fold (api_step P) cs x))"
proof (induction cs arbitrary: x)
  case (Cons c cs)
  obtain d w where "x = (d, w)" by fastforce
  with Cons api_step_inv [of d w P c] show ?case by (cases "api_step P c x") auto
qed simp

lemma new_inv:
  "session_inv s \<Longrightarrow> \<not> closed s \<Longrightarrow> dongle_inv (new s i k a b w) w"
  by (simp add: new_def dongle_inv_def)

text \<open>On a closed dongle no call does anything that the device could notice.\<close>

lemma api_step_closed:
  assumes "d_closed d" "\<not> keepalive_handle d" "api_step P c (d, w) = (d', w')"
  shows "d_closed d' \<and> \<not> keepalive_handle d' \<and> w' = w \<and> written (d_session d') = written (d_session d)"
proof (cases "c = CallDrain")
  case True
  with assms show ?thesis
    by (auto simp: d_drain_async_errors_def drain_async_errors_def drain_loop_eq)
next
  case False
  with assms have "d' = d \<and> w' = w"
    by (cases c) (simp_all add: tx_dop.op_refused tx_retry_dop.op_refused rx_start_dop.op_refused
        rx_stop_dop.op_refused recv_dop.op_refused next_rx_dop.op_refused set_config_dop.op_refused
        ping_dop.op_refused d_close_def)
  with assms show ?thesis by simp
qed

lemma api_steps_closed:
  assumes "d_closed d" "\<not> keepalive_handle d" "fold (api_step P) cs (d, w) = (d', w')"
  shows "d_closed d' \<and> \<not> keepalive_handle d' \<and> w' = w \<and> written (d_session d') = written (d_session d)"
  using assms
proof (induction cs arbitrary: d w)
  case (Cons c cs)
  obtain d1 w1 where s: "api_step P c (d, w) = (d1, w1)" by fastforce
  from api_step_closed [OF Cons.prems(1,2) s] Cons.IH [of d1 w1] Cons.prems(3) s show ?case by simp
qed simp

subsection \<open>What a successful or retryable transmission says\<close>

lemma expect_tx_done_Ok: "expect_tx_done P r = Ok td \<Longrightarrow> td_result td = Transmitted"
  by (cases r) (auto simp: unexpected_def split: tx_result.splits)

lemma send_command_Err_final: "send_command P ty pl timeout s w = (Err e, s', w') \<Longrightarrow> \<not> is_retryable e"
  by (cases "closed s")
    (auto simp: send_command_closed elim!: send_command_cases split: oneshot.splits)

lemma transmit_Ok:
  assumes "transmit P data skip timeout s w = (Ok td, s', w')"
  shows "td_result td = Transmitted \<and> (\<exists>f. written s' = written s @ [f])"
  using assms
  by (auto simp: transmit_def command_def split: if_splits prod.splits client_result.splits
      dest: expect_tx_done_Ok send_command_Ok_written)

lemma transmit_retryable:
  assumes "transmit P data skip timeout s w = (Err e, s', w')" "is_retryable e"
  shows "\<exists>f. written s' = written s @ [f]"
  using assms
  by (auto simp: transmit_def command_def split: if_splits prod.splits client_result.splits
      dest: send_command_Ok_written send_command_Err_final)

subsection \<open>The retry loop\<close>

text \<open>One turn of the loop, by the outcome of its transmission.\<close>

abbreviation attempt_tx where
  "attempt_tx P data policy d w \<equiv>
     on_session (transmit P data (skip_cad policy) (per_attempt_timeout policy)) (mark_write w d) w"

definition goes_on :: "retry_policy \<Rightarrow> nat \<Rightarrow> client_error \<Rightarrow> bool" where
  "goes_on policy k e \<longleftrightarrow> is_retryable e \<and> of_nat k \<noteq> max_attempts policy"

lemma retry_loop_cases:
  assumes "retry_loop P data policy (Suc n) k delay log d w = (r, d', w')"
  obtains
    (success) td where "attempt_tx P data policy d w = (Ok td, d', w')"
      "r = Ok \<lparr>final_airtime_us = airtime_us td, attempts = log @
        [\<lparr>attempt = of_nat k, attempt_result = Ok td, attempt_elapsed = clock w' - clock w\<rparr>]\<rparr>"
  | (failed) e where "attempt_tx P data policy d w = (Err e, d', w')" "\<not> goes_on policy k e" "r = Err e"
  | (again) e d1 w1 d2 w2 where "attempt_tx P data policy d w = (Err e, d1, w1)" "goes_on policy k e"
      "dongle_sleep P (backoff_wait delay (jitter_ms (random_range w1 (draws w1)) policy)) d1
        (w1\<lparr>draws := Suc (draws w1)\<rparr>) = (d2, w2)"
      "retry_loop P data policy n (Suc k) (next_delay policy delay)
        (log @ [\<lparr>attempt = of_nat k, attempt_result = Err (clone_kind e), attempt_elapsed = clock w1 - clock w\<rparr>])
        d2 w2 = (r, d', w')"
  | (panic) "attempt_tx P data policy d w = (Panic, d', w')" "r = Panic"
proof -
  obtain r1 d1 w1 where first: "attempt_tx P data policy d w = (r1, d1, w1)" by (metis prod_cases3)
  show ?thesis
  proof (cases r1)
    case (Ok td)
    with assms first show ?thesis by (intro success) (auto simp: Let_def)
  next
    case (Err e)
    obtain d2 w2 where sl: "dongle_sleep P (backoff_wait delay (jitter_ms (random_range w1 (draws w1)) policy)) d1
        (w1\<lparr>draws := Suc (draws w1)\<rparr>) = (d2, w2)" by fastforce
    show ?thesis
    proof (cases "goes_on policy k e")
      case True
      with assms first Err sl show ?thesis
        by (intro again [OF first [unfolded Err] True sl]) (simp add: Let_def goes_on_def)
    next
      case False
      with assms first Err show ?thesis by (intro failed) (auto simp: Let_def goes_on_def)
    qed
  next
    case Panic
    with assms first show ?thesis by (intro panic) auto
  qed
qed

text \<open>The log of a successful call.\<close>
definition attempt_log :: "nat \<Rightarrow> nat \<Rightarrow> tx_attempt list \<Rightarrow> u32 \<Rightarrow> bool" where
  "attempt_log k n es airtime \<longleftrightarrow>
     es \<noteq> [] \<and> length es \<le> n \<and> map attempt es = map of_nat [k..<k + length es]
     \<and> (\<forall>a \<in> set (butlast es). \<exists>e. attempt_result a = Err e \<and> is_retryable e)
     \<and> (\<exists>td. attempt_result (last es) = Ok td \<and> td_result td = Transmitted \<and> airtime_us td = airtime)"

lemma attempt_log_Cons:
  assumes "attempt_log (Suc k) n es airtime" "attempt a = of_nat k" "attempt_result a = Err e" "is_retryable e"
  shows "attempt_log k (Suc n) (a # es) airtime"
proof -
  have "map attempt (a # es) = map of_nat [k..<k + length (a # es)]"
    using assms(1,2) by (cases es) (auto simp: attempt_log_def upt_conv_Cons simp del: upt_Suc)
  with assms show ?thesis by (auto simp: attempt_log_def)
qed

lemma on_sessionD: "on_session f d w = (r, d', w') \<Longrightarrow>
    f (d_session d) w = (r, d_session d', w') \<and> d' = d\<lparr>d_session := d_session d'\<rparr>"
  by (auto simp: on_session_def split: prod.splits)

lemma mark_write_session [simp]: "d_session (mark_write w d) = d_session d"
  by (simp add: mark_write_def)

lemma retry_loop_log:
  "retry_loop P data policy n k delay log d w = (Ok out, d', w') \<Longrightarrow>
    \<exists>es. attempts out = log @ es \<and> attempt_log k n es (final_airtime_us out)"
proof (induction n arbitrary: k delay log d w)
  case (Suc n)
  from Suc.prems show ?case
  proof (cases rule: retry_loop_cases)
    case (success td)
    then have "td_result td = Transmitted"
      using on_sessionD [OF success(1)] transmit_Ok by blast
    with success show ?thesis by (auto simp: attempt_log_def)
  next
    case (again e d1 w1 d2 w2)
    from Suc.IH [OF again(4)] again(2) show ?thesis
      by (auto simp: goes_on_def is_retryable_clone_kind intro!: attempt_log_Cons)
  qed simp_all
qed simp

text \<open>The shortest time the waits between \<open>n + 1\<close> attempts can take.\<close>
primrec backoff_total :: "retry_policy \<Rightarrow> nat \<Rightarrow> u32 \<Rightarrow> duration" where
  "backoff_total policy 0 delay = 0"
| "backoff_total policy (Suc n) delay = from_millis (unat delay) + backoff_total policy n (next_delay policy delay)"

lemma dongle_sleep_keeps:
  "dongle_sleep P t d w = (d', w') \<Longrightarrow>
    clock w' = clock w + t \<and> written (d_session d') = written (d_session d) \<and> d_closed d' = d_closed d
    \<and> last_write_at d' = last_write_at d \<and> applied_config d' = applied_config d"
  by (auto simp: dongle_sleep_def split: prod.splits dest!: sleep_keeps dest: link_viewD)

lemma retry_loop_exhausted:
  assumes "retry_loop P data policy n k delay log d w = (Err e, d', w')" "is_retryable e"
    "k + n = Suc (unat (max_attempts policy))" "1 \<le> k"
  shows "clock w + backoff_total policy (n - 1) delay \<le> clock w'
    \<and> (\<exists>fs. length fs = n \<and> written (d_session d') = written (d_session d) @ fs)"
  using assms
proof (induction n arbitrary: k delay log d w)
  case (Suc n)
  have bound: "unat (max_attempts policy) < 256" using unsigned_less [of "max_attempts policy", where ?'a = nat] by simp
  from Suc.prems(1) show ?case
  proof (cases rule: retry_loop_cases)
    case (failed e')
    then have "unat (of_nat k :: u8) = unat (max_attempts policy)" using Suc.prems(2) by (auto simp: goes_on_def)
    then have "k = unat (max_attempts policy)"
      using Suc.prems(3) bound by (simp add: unsigned_of_nat take_bit_nat_eq_self)
    then have n: "n = 0" using Suc.prems(3) by simp
    have fst1: "transmit P data (skip_cad policy) (per_attempt_timeout policy) (d_session d) w = (Err e, d_session d', w')"
      using on_sessionD [OF failed(1)] failed(3) by simp
    from transmit_retryable [OF fst1 Suc.prems(2)] transmit_op.op_clock [OF fst1] n show ?thesis by auto
  next
    case (again e' d1 w1 d2 w2)
    have e': "is_retryable e'" using again(2) by (simp add: goes_on_def)
    have fst1: "transmit P data (skip_cad policy) (per_attempt_timeout policy) (d_session d) w = (Err e', d_session d1, w1)"
      using on_sessionD [OF again(1)] by simp
    from transmit_retryable [OF fst1 e'] obtain f where f: "written (d_session d1) = written (d_session d) @ [f]" by blast
    have c2: "clock w2 = clock w1 + backoff_wait delay (jitter_ms (random_range w1 (draws w1)) policy)"
        "written (d_session d2) = written (d_session d1)"
      using dongle_sleep_keeps [OF again(3)] by simp_all
    have "from_millis (unat delay) \<le> backoff_wait delay j" for j by (simp add: backoff_wait_sum)
    then have c1: "clock w + from_millis (unat delay) \<le> clock w2"
      using transmit_op.op_clock [OF fst1] c2(1) by (simp add: add_mono)
    have n: "n \<noteq> 0" using again(4) Suc.prems(2) by (cases n) auto
    from Suc.IH [OF again(4) Suc.prems(2)] Suc.prems(3,4)
    have ih: "clock w2 + backoff_total policy (n - 1) (next_delay policy delay) \<le> clock w'"
        "\<exists>fs. length fs = n \<and> written (d_session d') = written (d_session d2) @ fs" by simp_all
    from n obtain m where m: "n = Suc m" by (cases n) auto
    have "clock w + backoff_total policy n delay \<le> clock w'" using ih(1) c1 m by simp
    moreover have "\<exists>fs. length fs = Suc n \<and> written (d_session d') = written (d_session d) @ fs"
      using ih(2) f c2(2) by (metis append.assoc append_Cons append_Nil length_Cons)
    ultimately show ?thesis by simp
  qed simp_all
qed simp

text \<open>An error of the loop is the error of its last transmission, if it makes any.\<close>

lemma retry_loop_last:
  "retry_loop P data policy n k delay log d w = (Err e, d', w') \<Longrightarrow>
    k + n = Suc (unat (max_attempts policy)) \<Longrightarrow> 0 < n \<Longrightarrow>
    \<exists>d1 w1. attempt_tx P data policy d1 w1 = (Err e, d', w')"
proof (induction n arbitrary: k delay log d w)
  case (Suc n)
  from Suc.prems(1) show ?case
  proof (cases rule: retry_loop_cases)
    case (again e' d1 w1 d2 w2)
    have "n \<noteq> 0"
    proof
      assume "n = 0"
      then have "k = unat (max_attempts policy)" using Suc.prems(2) by simp
      with again(2) show False by (simp add: goes_on_def)
    qed
    with Suc.IH [OF again(4)] Suc.prems(2) show ?thesis by simp
  qed auto
qed simp

subsection \<open>Recovery from a lost configuration\<close>

lemma tx_recovers:
  assumes "\<not> d_closed d"
    "transmit P data skip t (d_session d) w = (Err NotConfigured, s1, w1)"
    "applied_config d = Some m"
    "Commands.set_config P m (from_secs 2) s1 w1 = (Ok r, s2, w2)"
    "transmit P data skip t s2 w2 = (res, s3, w3)"
  shows "tx_with_timeout P data skip t d w =
    (res, d\<lparr>last_write_at := clock w, d_session := s3, applied_config := Some (current r)\<rparr>, w3)"
  using assms
  by (simp add: tx_with_timeout_def check_open_def on_session_def recover_and_retry_tx_def reapply_config_def
      mark_write_def)

lemma tx_no_config:
  assumes "\<not> d_closed d" "applied_config d = None"
    "transmit P data skip t (d_session d) w = (Err NotConfigured, s1, w1)"
  shows "tx_with_timeout P data skip t d w =
    (Err NotConfigured, d\<lparr>last_write_at := clock w, d_session := s1\<rparr>, w1)"
  using assms
  by (simp add: tx_with_timeout_def check_open_def on_session_def recover_and_retry_tx_def reapply_config_def
      mark_write_def)

text \<open>The retrying variant gives the same error back without re-applying anything.\<close>

lemma tx_with_retry_not_configured:
  assumes "\<not> d_closed d" "0 < max_attempts policy"
    "transmit P data (skip_cad policy) (per_attempt_timeout policy) (d_session d) w = (Err NotConfigured, s1, w1)"
  shows "tx_with_retry P data policy d w =
    (Err NotConfigured, d\<lparr>last_write_at := clock w, d_session := s1\<rparr>, w1)"
proof -
  obtain n where n: "unat (max_attempts policy) = Suc n"
    using assms(2) by (metis gr0_implies_Suc unat_gt_0 word_gt_0)
  with assms show ?thesis
    by (simp add: tx_with_retry_def check_open_def on_session_def mark_write_def Let_def)
qed

subsection \<open>Receive mode and the cached configuration\<close>

lemma d_rx_start_Ok:
  assumes "d_rx_start P d w = (Ok x, d1, w1)"
  shows "\<not> d_closed d1 \<and> rx_started d1 \<and> d_rx_start P d1 w1 = (Ok (), mark_write w1 d1, w1)"
proof -
  have op: "\<not> d_closed d" using assms by (auto simp: rx_start_dop.op_refused)
  then have op1: "\<not> d_closed d1" using rx_start_dop.op_stays [OF assms] by simp
  obtain r2 d2 w2 where first: "on_session (rx_start P (from_secs 2)) (mark_write w d) w = (r2, d2, w2)"
    by (metis prod_cases3)
  obtain r3 d3 w3 where second: "reapply_config P d2 w2 = (r3, d3, w3)" by (metis prod_cases3)
  obtain r4 d4 w4 where third: "on_session (rx_start P (from_secs 2)) d3 w3 = (r4, d4, w4)" by (metis prod_cases3)
  have "rx_started d1"
  proof (cases "r2 = Err NotConfigured")
    case True
    with assms op first second third show ?thesis
      by (auto simp: d_rx_start_def check_open_def Let_def split: if_splits client_result.splits)
  next
    case False
    with assms op first show ?thesis
      by (auto simp: d_rx_start_def check_open_def Let_def split: if_splits client_result.splits client_error.splits)
  qed
  with op1 show ?thesis by (simp add: d_rx_start_def check_open_def mark_write_def)
qed

lemma d_set_config_cases:
  assumes "\<not> d_closed d" "Commands.set_config P m (from_secs 2) (d_session d) w = (res, s', w')"
  shows "d_set_config P m d w =
    (case res of
       Ok r \<Rightarrow> (Ok (), d\<lparr>last_write_at := clock w, d_session := s', applied_config := Some (current r),
                     rx_started := False\<rparr>, w')
     | Err e \<Rightarrow> (Err e, d\<lparr>last_write_at := clock w, d_session := s'\<rparr>, w')
     | Panic \<Rightarrow> (Panic, d\<lparr>last_write_at := clock w, d_session := s'\<rparr>, w'))"
  using assms by (cases res) (simp_all add: d_set_config_def check_open_def on_session_def mark_write_def)

subsection \<open>Keepalive cadence\<close>

text \<open>
  A turn of the keepalive task on an open dongle that nobody else uses writes its PING, an interval
  after it began; if the PING is answered, that is all it writes, and the next turn starts with a
  fresh stamp.
\<close>

lemma dongle_sleep_link:
  assumes "dongle_sleep P t d w = (d', w')"
  shows "next_tag (d_session d') = next_tag (d_session d)" "closed (d_session d') = closed (d_session d)"
    "write_outcomes w' = write_outcomes w" "writes w' = writes w"
proof -
  obtain s' where s: "sleep P t (d_session d) w = (s', w')" "d' = d\<lparr>d_session := s'\<rparr>"
    using assms by (auto simp: dongle_sleep_def split: prod.splits)
  then show "write_outcomes w' = write_outcomes w" "writes w' = writes w"
    by (auto simp: sleep_def split: prod.splits)
  show "next_tag (d_session d') = next_tag (d_session d)" "closed (d_session d') = closed (d_session d)"
    using sleep_keeps [OF s(1)] s(2) by (simp_all add: link_view_def)
qed

lemma ping_writes:
  assumes "on_session (ping P t) d w = (r, d', w')" "\<not> closed (d_session d)"
    "encode_frame P (TYPE_PING P) (next_tag (d_session d)) [] = Inr f" "write_outcomes w (writes w) = WriteOk"
  shows "written (d_session d') = written (d_session d) @ [f]"
proof -
  have "ping P t (d_session d) w = (r, d_session d', w')" using on_sessionD [OF assms(1)] by blast
  then obtain r0 where "send_command P (TYPE_PING P) [] t (d_session d) w = (r0, d_session d', w')"
    by (auto simp: ping_def command_def split: prod.splits client_result.splits)
  from send_command_writes [OF this assms(2-4)] show ?thesis .
qed

lemma keepalive_turn:
  assumes op: "\<not> d_closed d" "\<not> closed (d_session d)" "last_write_at d \<le> clock w"
    and enc: "encode_frame P (TYPE_PING P) (next_tag (d_session d)) [] = Inr f"
    and out: "write_outcomes w (writes w) = WriteOk"
    and sl: "dongle_sleep P KEEPALIVE_INTERVAL d w = (d1, w1)"
    and ping: "on_session (ping P (from_secs 2)) d1 w1 = (r, d2, w2)"
    and run: "keepalive_iter P d w = (b, d', w')"
  shows "\<exists>fs. written (d_session d') = written (d_session d) @ f # fs \<and> length fs \<le> 1"
    "r = Ok () \<Longrightarrow> b \<and> d' = mark_write w2 d2 \<and> w' = w2 \<and> \<not> d_closed d'
      \<and> written (d_session d') = written (d_session d) @ [f]"
proof -
  note k = dongle_sleep_keeps [OF sl] and l = dongle_sleep_link [OF sl]
  have due: "\<not> clock w1 - last_write_at d1 < KEEPALIVE_INTERVAL" "\<not> d_closed d1" using k op(1,3) by simp_all
  have wr: "written (d_session d2) = written (d_session d) @ [f]"
    using ping_writes [OF ping, of f] l k op(2) enc out by simp
  have cl: "d_closed d2 = d_closed d1" using ping_op.on_session_effect [OF ping] by (simp add: effect_def)
  show "b \<and> d' = mark_write w2 d2 \<and> w' = w2 \<and> \<not> d_closed d'
      \<and> written (d_session d') = written (d_session d) @ [f]" if "r = Ok ()"
    using run sl due ping that wr cl by (simp add: keepalive_iter_def, simp add: mark_write_def) auto
  show "\<exists>fs. written (d_session d') = written (d_session d) @ f # fs \<and> length fs \<le> 1"
  proof (cases "r = Err NotConfigured \<and> applied_config d2 \<noteq> None")
    case False
    with run sl due ping have "d_session d' = d_session d2"
      by (auto simp: keepalive_iter_def split: client_result.splits client_error.splits option.splits)
    with wr show ?thesis by simp
  next
    case True
    then obtain m where m: "r = Err NotConfigured" "applied_config d2 = Some m" by blast
    obtain r3 d3 w3 where cfg: "on_session (Commands.set_config P m (from_secs 2)) d2 w2 = (r3, d3, w3)"
      by (metis prod_cases3)
    with run sl due ping m have "d_session d' = d_session d3"
      by (auto simp: keepalive_iter_def split: client_result.splits)
    moreover obtain fs where "length fs \<le> 1" "written (d_session d3) = written (d_session d2) @ fs"
      using set_config_op.on_session_effect [OF cfg] by (auto simp: effect_def)
    ultimately show ?thesis using wr by simp
  qed
qed

text \<open>Recovery by the keepalive task leaves the mark of continuous reception as it was.\<close>

lemma keepalive_recovery_keeps_rx:
  assumes "keepalive_iter P d0 w0 = (b, d', w')"
  shows "rx_started d' = rx_started d0"
proof -
  obtain d w where sl: "dongle_sleep P KEEPALIVE_INTERVAL d0 w0 = (d, w)" by fastforce
  then have e0: "rx_started d = rx_started d0" by (auto simp: dongle_sleep_def split: prod.splits)
  obtain r1 d1 w1 where first: "on_session (ping P (from_secs 2)) d w = (r1, d1, w1)" by (metis prod_cases3)
  note e1 = ping_op.on_session_fields [OF first]
  obtain r2 d2 w2 where second:
      "on_session (Commands.set_config P (the (applied_config d1)) (from_secs 2)) d1 w1 = (r2, d2, w2)"
    by (metis prod_cases3)
  note e2 = set_config_op.on_session_fields [OF second]
  show ?thesis
  proof (cases "r1 = Err NotConfigured")
    case True
    with assms sl first second e0 e1 e2 show ?thesis
      by (cases r2) (auto simp: keepalive_iter_def mark_write_def split: if_splits option.splits)
  next
    case False
    with assms sl first e0 e1 show ?thesis
      by (auto simp: keepalive_iter_def mark_write_def split: if_splits client_result.splits client_error.splits)
  qed
qed

subsection \<open>Packets over a sequence of calls\<close>

fun api_packets :: "('i, 'm, 'rx, 'd) proto \<Rightarrow> 'm api_call \<Rightarrow> ('i, 'm, 'rx, 'd) dongle \<times> world \<Rightarrow> 'rx list" where
  "api_packets P (CallRecv t) (d, w) = recv_packets (fst (recv P t d w))"
| "api_packets P CallNextRx (d, w) = next_rx_packets (fst (d_next_rx P d w))"
| "api_packets P _ _ = []"

text \<open>The packets handed out by a sequence of calls, in the order the callers get them.\<close>
fun api_deliver ::
    "('i, 'm, 'rx, 'd) proto \<Rightarrow> 'm api_call list \<Rightarrow> ('i, 'm, 'rx, 'd) dongle \<times> world \<Rightarrow> 'rx list" where
  "api_deliver P [] x = []"
| "api_deliver P (c # cs) x = api_packets P c x @ api_deliver P cs (api_step P c x)"

abbreviation dongle_stream where
  "dongle_stream P x \<equiv> rx_stream P (d_session (fst x)) (arrivals (snd x))"

lemma drain_stream:
  "rx_stream P (d_session (snd (d_drain_async_errors d))) arr = rx_stream P (d_session d) arr"
  by (rule rx_stream_view) (simp add: d_drain_async_errors_def drain_async_errors_def drain_loop_eq rx_view_def)

lemma api_step_delivers:
  assumes "c \<noteq> CallClose"
  shows "dongle_stream P (d, w) = api_packets P c (d, w) @ dongle_stream P (api_step P c (d, w))"
proof (cases c)
  case (CallTx data skip t)
  then show ?thesis by (cases "tx_with_timeout P data skip t d w") (auto dest: tx_dop.op_delivers)
next
  case (CallTxRetry data policy)
  then show ?thesis by (cases "tx_with_retry P data policy d w") (auto dest: tx_retry_dop.op_delivers)
next
  case CallRxStart
  then show ?thesis by (cases "d_rx_start P d w") (auto dest: rx_start_dop.op_delivers)
next
  case CallRxStop
  then show ?thesis by (cases "d_rx_stop P d w") (auto dest: rx_stop_dop.op_delivers)
next
  case (CallRecv t)
  then show ?thesis by (cases "recv P t d w") (auto dest: recv_dop.op_delivers)
next
  case CallNextRx
  then show ?thesis by (cases "d_next_rx P d w") (auto dest: next_rx_dop.op_delivers)
next
  case (CallSetConfig m)
  then show ?thesis by (cases "d_set_config P m d w") (auto dest: set_config_dop.op_delivers)
next
  case CallPing
  then show ?thesis by (cases "d_ping P d w") (auto dest: ping_dop.op_delivers)
next
  case KeepaliveTurn
  obtain b d1 w1 where k: "keepalive_iter P d w = (b, d1, w1)" by (metis prod_cases3)
  from KeepaliveTurn k keepalive_effect [OF k] show ?thesis by (auto simp: effect_def)
qed (use assms drain_stream [of P d] in simp_all)

lemma api_delivers:
  "CallClose \<notin> set cs \<Longrightarrow> dongle_stream P x = api_deliver P cs x @ dongle_stream P (fold (api_step P) cs x)"
proof (induction cs arbitrary: x)
  case (Cons c cs)
  obtain d w where x: "x = (d, w)" by fastforce
  from Cons.prems have "c \<noteq> CallClose" by auto
  from api_step_delivers [OF this, of P d w] Cons.IH [of "api_step P c x"] Cons.prems show ?case by (simp add: x)
qed simp

end
