(* ===== verification/Config.thy ===== *)
theory Config
  imports Errors RustStd
begin

text \<open>
  \<^verbatim>\<open>prepare_config\<close> and \<^verbatim>\<open>prepare_lora_config\<close> of \<^verbatim>\<open>src/connect.rs\<close>: the check of a
  requested radio configuration against what the device says it can do. \<^verbatim>\<open>Info\<close>,
  \<^verbatim>\<open>LoRaConfig\<close> and \<^verbatim>\<open>Modulation\<close> belong to the protocol crate; the records have the fields
  the client reads or writes and are extensible, so the fields it only carries along stay
  unspecified. The bandwidth's type, number and \<^verbatim>\<open>Debug\<close> text are parameters. Whether a shift
  out of range panics depends on the build, so \<open>overflow_checks\<close> is one as well.
\<close>

unbundle bit_operations_syntax

record device_info =
  freq_min_hz :: u32
  freq_max_hz :: u32
  supported_sf_bitmap :: u16
  supported_bw_bitmap :: u16
  tx_power_min_dbm :: i8
  tx_power_max_dbm :: i8

record 'bw lora_config =
  freq_hz :: u32
  sf :: u8
  bw :: 'bw
  tx_power_dbm :: i8

datatype ('lora, 'other) modulation = LoRa 'lora | NonLoRa 'other

text \<open>The other fields of \<^verbatim>\<open>Info\<close> and \<^verbatim>\<open>LoRaConfig\<close> that the sources name.\<close>
record full_info = device_info +
  proto_major :: nat
  proto_minor :: nat
  fw_major :: nat
  fw_minor :: nat
  fw_patch :: nat
  radio_chip_id :: nat
  capability_bitmap :: nat
  max_payload_bytes :: nat
  rx_queue_capacity :: nat
  tx_queue_capacity :: nat
  mcu_uid_len :: nat
  mcu_uid :: bytes
  radio_uid_len :: nat
  radio_uid :: bytes

record 'bw full_lora_config = "'bw lora_config" +
  cr :: nat
  preamble_len :: nat
  sync_word :: nat
  header_mode :: nat
  payload_crc :: bool
  iq_invert :: bool

text \<open>The parameters of the check.\<close>
record 'bw build =
  overflow_checks :: bool
  bw_as_u8 :: "'bw \<Rightarrow> u8"
  debug_bw :: "'bw \<Rightarrow> string"

text \<open>\<^verbatim>\<open>bitmap & (1u16 << n)\<close> tested against 0; \<open>None\<close> is the panic of the shift.\<close>
definition has_bit :: "bool \<Rightarrow> u16 \<Rightarrow> u8 \<Rightarrow> bool option" where
  "has_bit checks bitmap n = map_option (\<lambda>m. bitmap AND m \<noteq> 0) (shl1_u16 checks n)"

text \<open>The spreading factors the error message lists.\<close>
definition supported_sfs :: "bool \<Rightarrow> u16 \<Rightarrow> nat list" where
  "supported_sfs checks bitmap = filter (\<lambda>i. has_bit checks bitmap (of_nat i) = Some True) [0..<16]"

definition clamp_power :: "'a device_info_scheme \<Rightarrow> i8 \<Rightarrow> i8" where
  "clamp_power info p =
     (if sint (tx_power_max_dbm info) < sint p then tx_power_max_dbm info
      else if sint p < sint (tx_power_min_dbm info) then tx_power_min_dbm info
      else p)"

definition freq_reason :: "'a device_info_scheme \<Rightarrow> ('bw, 'b) lora_config_scheme \<Rightarrow> string" where
  "freq_reason info cfg =
     ''frequency '' @ show_dec (unat (freq_hz cfg)) @ '' Hz outside device range [''
       @ show_dec (unat (freq_min_hz info)) @ '', '' @ show_dec (unat (freq_max_hz info)) @ ''] Hz''"

definition sf_reason :: "bool \<Rightarrow> 'a device_info_scheme \<Rightarrow> ('bw, 'b) lora_config_scheme \<Rightarrow> string" where
  "sf_reason checks info cfg =
     ''SF'' @ show_dec (unat (sf cfg)) @ '' not supported by this device (supports SF''
       @ debug_list (supported_sfs checks (supported_sf_bitmap info)) @ '')''"

definition bw_reason :: "'bw build \<Rightarrow> 'a device_info_scheme \<Rightarrow> ('bw, 'b) lora_config_scheme \<Rightarrow> string" where
  "bw_reason B info cfg =
     ''bandwidth '' @ debug_bw B (bw cfg) @ '' (bit '' @ show_dec (unat (bw_as_u8 B (bw cfg)))
       @ '') not in supported_bw_bitmap 0x'' @ show_hex4 (supported_bw_bitmap info)"

definition prepare_lora_config ::
    "'bw build \<Rightarrow> 'a device_info_scheme \<Rightarrow> ('bw, 'b) lora_config_scheme
      \<Rightarrow> ('bw, 'b) lora_config_scheme client_result" where
  "prepare_lora_config B info cfg =
     (if freq_hz cfg < freq_min_hz info \<or> freq_max_hz info < freq_hz cfg then
        Err (ConfigNotSupported (freq_reason info cfg))
      else (case has_bit (overflow_checks B) (supported_sf_bitmap info) (sf cfg) of
        None \<Rightarrow> Panic
      | Some False \<Rightarrow> Err (ConfigNotSupported (sf_reason (overflow_checks B) info cfg))
      | Some True \<Rightarrow>
          (case has_bit (overflow_checks B) (supported_bw_bitmap info) (bw_as_u8 B (bw cfg)) of
             None \<Rightarrow> Panic
           | Some False \<Rightarrow> Err (ConfigNotSupported (bw_reason B info cfg))
           | Some True \<Rightarrow> Ok (cfg\<lparr>tx_power_dbm := clamp_power info (tx_power_dbm cfg)\<rparr>))))"

fun prepare_config ::
    "'bw build \<Rightarrow> 'a device_info_scheme \<Rightarrow> (('bw, 'b) lora_config_scheme, 'o) modulation
      \<Rightarrow> (('bw, 'b) lora_config_scheme, 'o) modulation client_result" where
  "prepare_config B info (LoRa cfg) =
     (case prepare_lora_config B info cfg of
        Ok cfg' \<Rightarrow> Ok (LoRa cfg')
      | Err e \<Rightarrow> Err e
      | Panic \<Rightarrow> Panic)"
| "prepare_config B info (NonLoRa m) = Ok (NonLoRa m)"

subsection \<open>What is accepted\<close>

lemma has_bit_in_range: "unat n < 16 \<Longrightarrow> has_bit checks bitmap n = Some (bit bitmap (unat n))"
  by (simp add: has_bit_def shl1_u16_def bit_iff_and_push_bit_not_eq_0)

lemma has_bit_out_of_range:
  "16 \<le> unat n \<Longrightarrow> has_bit checks bitmap n = (if checks then None else Some (bit bitmap (unat n mod 16)))"
  by (simp add: has_bit_def shl1_u16_def bit_iff_and_push_bit_not_eq_0)

text \<open>The device's capabilities, as a predicate on the request.\<close>
definition supports :: "'bw build \<Rightarrow> 'a device_info_scheme \<Rightarrow> ('bw, 'b) lora_config_scheme \<Rightarrow> bool" where
  "supports B info cfg \<longleftrightarrow>
     freq_min_hz info \<le> freq_hz cfg \<and> freq_hz cfg \<le> freq_max_hz info
     \<and> bit (supported_sf_bitmap info) (unat (sf cfg))
     \<and> bit (supported_bw_bitmap info) (unat (bw_as_u8 B (bw cfg)))"

definition indices_in_range :: "'bw build \<Rightarrow> ('bw, 'b) lora_config_scheme \<Rightarrow> bool" where
  "indices_in_range B cfg \<longleftrightarrow> unat (sf cfg) < 16 \<and> unat (bw_as_u8 B (bw cfg)) < 16"

lemma prepare_lora_config_Ok_iff:
  assumes "indices_in_range B cfg"
  shows "prepare_lora_config B info cfg = Ok cfg' \<longleftrightarrow>
    supports B info cfg \<and> cfg' = cfg\<lparr>tx_power_dbm := clamp_power info (tx_power_dbm cfg)\<rparr>"
  using assms
  by (auto simp: prepare_lora_config_def supports_def indices_in_range_def has_bit_in_range not_less
      split: bool.splits)

lemma prepare_lora_config_never_panics:
  "indices_in_range B cfg \<or> \<not> overflow_checks B \<Longrightarrow> prepare_lora_config B info cfg \<noteq> Panic"
  by (auto simp: prepare_lora_config_def indices_in_range_def has_bit_in_range has_bit_def shl1_u16_def
      split: option.splits bool.splits)

lemma prepare_lora_config_Err:
  "prepare_lora_config B info cfg = Err e \<Longrightarrow> \<exists>why. e = ConfigNotSupported why"
  by (auto simp: prepare_lora_config_def split: if_splits option.splits bool.splits)

lemma clamp_power_bounds:
  assumes "sint (tx_power_min_dbm info) \<le> sint (tx_power_max_dbm info)"
  shows "sint (tx_power_min_dbm info) \<le> sint (clamp_power info p)"
    "sint (clamp_power info p) \<le> sint (tx_power_max_dbm info)"
  using assms by (auto simp: clamp_power_def)

lemma clamp_power_idem:
  "sint (tx_power_min_dbm info) \<le> sint (tx_power_max_dbm info) \<Longrightarrow>
    clamp_power info (clamp_power info p) = clamp_power info p"
  by (auto simp: clamp_power_def)

lemma clamp_power_id:
  "sint (tx_power_min_dbm info) \<le> sint p \<Longrightarrow> sint p \<le> sint (tx_power_max_dbm info) \<Longrightarrow> clamp_power info p = p"
  by (auto simp: clamp_power_def)

text \<open>Checking an accepted configuration again changes nothing.\<close>

lemma prepare_lora_config_idem:
  assumes "sint (tx_power_min_dbm info) \<le> sint (tx_power_max_dbm info)"
    "prepare_lora_config B info cfg = Ok cfg'"
  shows "prepare_lora_config B info cfg' = Ok cfg'"
  using assms
  by (auto simp: prepare_lora_config_def clamp_power_idem split: if_splits option.splits bool.splits)

lemma supported_sfs_eq: "supported_sfs checks bitmap = filter (bit bitmap) [0..<16]"
  unfolding supported_sfs_def
proof (rule filter_cong [OF refl])
  fix i assume "i \<in> set [0..<16]"
  then have "i < 16" by simp
  then have "unat (of_nat i :: u8) = i" by (simp add: unsigned_of_nat take_bit_nat_eq_self)
  with \<open>i < 16\<close> show "(has_bit checks bitmap (of_nat i) = Some True) = bit bitmap i"
    by (simp add: has_bit_in_range)
qed

end
