(* ===== verification/Discovery.thy ===== *)
theory Discovery
  imports Prelude
begin

text \<open>
  \<^verbatim>\<open>src/discovery.rs\<close>: choosing the serial port of a dongle by its USB identifiers, and
  waiting for one to appear. What \<^verbatim>\<open>tokio_serial::available_ports\<close> finds is a parameter:
  the list it returns at a point in time, or \<open>None\<close> for its error. The wait may last for ever, so
  it is a partial function: \<open>None\<close> is a wait that does not end.
\<close>

record usb_port_info =
  vid :: u16
  pid :: u16

datatype serial_port_type = UsbPort usb_port_info | PciPort | BluetoothPort | UnknownPort

record serial_port_info =
  port_name :: string
  port_type :: serial_port_type

definition USB_VID :: u16 where "USB_VID = 0x1209"

definition USB_PID :: u16 where "USB_PID = 0x5741"

definition BRIDGE_VID_PIDS :: "(u16 \<times> u16) list" where
  "BRIDGE_VID_PIDS =
     [(0x10C4, 0xEA60), (0x1A86, 0x55D4), (0x1A86, 0x7522), (0x1A86, 0x7523), (0x0403, 0x6001)]"

definition USB_SETTLE :: duration where "USB_SETTLE = from_millis 300"

definition POLL_INTERVAL :: duration where "POLL_INTERVAL = from_millis 500"

definition is_native :: "serial_port_info \<Rightarrow> bool" where
  "is_native p = (case port_type p of UsbPort i \<Rightarrow> vid i = USB_VID \<and> pid i = USB_PID | _ \<Rightarrow> False)"

definition is_bridge :: "serial_port_info \<Rightarrow> bool" where
  "is_bridge p = (case port_type p of UsbPort i \<Rightarrow> List.member BRIDGE_VID_PIDS (vid i, pid i) | _ \<Rightarrow> False)"

definition find_port :: "serial_port_info list option \<Rightarrow> string option" where
  "find_port scan =
     (case scan of
        None \<Rightarrow> None
      | Some ports \<Rightarrow>
          (case find is_native ports of
             Some p \<Rightarrow> Some (port_name p)
           | None \<Rightarrow> map_option port_name (find is_bridge ports)))"

text \<open>The loop, entered at time \<open>now\<close>: the port and the time at which it is returned.\<close>
partial_function (option) wait_for_device ::
    "(instant \<Rightarrow> serial_port_info list option) \<Rightarrow> instant \<Rightarrow> (string \<times> instant) option" where
  "wait_for_device scan now =
     (case find_port (scan now) of
        Some port \<Rightarrow> Some (port, now + USB_SETTLE)
      | None \<Rightarrow> wait_for_device scan (now + POLL_INTERVAL))"

subsection \<open>Which port is chosen\<close>

lemma find_SomeD: "find Q xs = Some x \<Longrightarrow> x \<in> set xs \<and> Q x"
  by (auto simp: find_Some_iff)

text \<open>A native device beats every bridge, wherever it stands in the list.\<close>

lemma find_port_native:
  "\<exists>p \<in> set ports. is_native p \<Longrightarrow>
    \<exists>p \<in> set ports. is_native p \<and> find_port (Some ports) = Some (port_name p)"
  by (cases "find is_native ports") (auto simp: find_port_def find_None_iff dest: find_SomeD)

lemma find_port_Some:
  "find_port scan = Some name \<Longrightarrow>
    \<exists>ports p. scan = Some ports \<and> p \<in> set ports \<and> port_name p = name
      \<and> (is_native p \<or> is_bridge p \<and> \<not> (\<exists>q \<in> set ports. is_native q))"
  by (auto simp: find_port_def find_None_iff split: option.splits dest: find_SomeD)

lemma find_port_None:
  "find_port (Some ports) = None \<longleftrightarrow> \<not> (\<exists>p \<in> set ports. is_native p \<or> is_bridge p)"
  by (auto simp: find_port_def find_None_iff split: option.splits dest: find_SomeD)

subsection \<open>Waiting\<close>

text \<open>One poll: the value the loop returns if it finds a device now.\<close>
definition device_at :: "(instant \<Rightarrow> serial_port_info list option) \<Rightarrow> instant \<Rightarrow> (string \<times> instant) option" where
  "device_at scan now = map_option (\<lambda>port. (port, now + USB_SETTLE)) (find_port (scan now))"

lemma wait_for_device_unfold:
  "wait_for_device scan now =
     (case device_at scan now of Some r \<Rightarrow> Some r | None \<Rightarrow> wait_for_device scan (now + POLL_INTERVAL))"
  by (subst wait_for_device.simps) (simp add: device_at_def split: option.split)

lemma wait_for_device_Some:
  assumes "wait_for_device scan now = Some y"
  shows "\<exists>n. device_at scan (now + n * POLL_INTERVAL) = Some y"
proof (rule wait_for_device.raw_induct [OF _ assms, where P = "\<lambda>scan now y.
    \<exists>n. device_at scan (now + n * POLL_INTERVAL) = Some y"])
  fix rec :: "(instant \<Rightarrow> serial_port_info list option) \<Rightarrow> instant \<Rightarrow> (string \<times> instant) option" and scan now y
  assume ih: "\<And>scan now y. rec scan now = Some y \<Longrightarrow> \<exists>n. device_at scan (now + n * POLL_INTERVAL) = Some y"
    and body: "(case find_port (scan now) of
        None \<Rightarrow> rec scan (now + POLL_INTERVAL) | Some port \<Rightarrow> Some (port, now + USB_SETTLE)) = Some y"
  show "\<exists>n. device_at scan (now + n * POLL_INTERVAL) = Some y"
  proof (cases "find_port (scan now)")
    case None
    with body ih [of scan "now + POLL_INTERVAL" y] obtain n where
      "device_at scan (now + Suc n * POLL_INTERVAL) = Some y" by (auto simp: add.assoc)
    then show ?thesis by blast
  next
    case (Some port)
    with body show ?thesis by (intro exI [of _ 0]) (simp add: device_at_def)
  qed
qed

interpretation device_poll: polling "wait_for_device scan" "device_at scan" POLL_INTERVAL for scan
  by unfold_locales (rule wait_for_device_unfold, rule wait_for_device_Some)

end
