(* ===== verification/Transport.thy ===== *)
theory Transport
  imports Errors RustStd
begin

text \<open>
  \<^verbatim>\<open>src/transport.rs\<close>: the three transports, each a wrapper around one byte stream of another
  crate, and \<^verbatim>\<open>AnyTransport\<close>, which is one of them. The streams are a parameter: their type, and
  a record with the four polling operations that \<^verbatim>\<open>AsyncRead\<close> and \<^verbatim>\<open>AsyncWrite\<close> ask of a
  stream. Opening a stream is a parameter as well: the operating system's answer.
\<close>

subsection \<open>Byte streams\<close>

datatype 'a poll = Pending | Ready "string + 'a"

text \<open>A poll may change the stream; a read yields bytes for the buffer, of at most the given size.\<close>
record 's stream_ops =
  s_poll_read :: "nat \<Rightarrow> 's \<Rightarrow> bytes poll \<times> 's"
  s_poll_write :: "bytes \<Rightarrow> 's \<Rightarrow> nat poll \<times> 's"
  s_poll_flush :: "'s \<Rightarrow> unit poll \<times> 's"
  s_poll_shutdown :: "'s \<Rightarrow> unit poll \<times> 's"

datatype 's serial_transport = SerialTransport (serial_inner: 's)

datatype 's unix_transport = UnixSocketTransport (unix_inner: 's)

datatype 's tcp_transport = TcpTransport (tcp_inner: 's)

text \<open>Run a poll on the wrapped stream and put the changed stream back.\<close>
definition poll_inner :: "('s \<Rightarrow> 't) \<Rightarrow> 'a poll \<times> 's \<Rightarrow> 'a poll \<times> 't" where
  "poll_inner wrap r = (fst r, wrap (snd r))"

definition serial_ops :: "'s stream_ops \<Rightarrow> 's serial_transport stream_ops" where
  "serial_ops S =
     \<lparr>s_poll_read = \<lambda>n t. poll_inner SerialTransport (s_poll_read S n (serial_inner t)),
      s_poll_write = \<lambda>buf t. poll_inner SerialTransport (s_poll_write S buf (serial_inner t)),
      s_poll_flush = \<lambda>t. poll_inner SerialTransport (s_poll_flush S (serial_inner t)),
      s_poll_shutdown = \<lambda>t. poll_inner SerialTransport (s_poll_shutdown S (serial_inner t))\<rparr>"

definition unix_ops :: "'s stream_ops \<Rightarrow> 's unix_transport stream_ops" where
  "unix_ops S =
     \<lparr>s_poll_read = \<lambda>n t. poll_inner UnixSocketTransport (s_poll_read S n (unix_inner t)),
      s_poll_write = \<lambda>buf t. poll_inner UnixSocketTransport (s_poll_write S buf (unix_inner t)),
      s_poll_flush = \<lambda>t. poll_inner UnixSocketTransport (s_poll_flush S (unix_inner t)),
      s_poll_shutdown = \<lambda>t. poll_inner UnixSocketTransport (s_poll_shutdown S (unix_inner t))\<rparr>"

definition tcp_ops :: "'s stream_ops \<Rightarrow> 's tcp_transport stream_ops" where
  "tcp_ops S =
     \<lparr>s_poll_read = \<lambda>n t. poll_inner TcpTransport (s_poll_read S n (tcp_inner t)),
      s_poll_write = \<lambda>buf t. poll_inner TcpTransport (s_poll_write S buf (tcp_inner t)),
      s_poll_flush = \<lambda>t. poll_inner TcpTransport (s_poll_flush S (tcp_inner t)),
      s_poll_shutdown = \<lambda>t. poll_inner TcpTransport (s_poll_shutdown S (tcp_inner t))\<rparr>"

datatype ('ser, 'uni, 'tcp) any_transport =
    AnySerial "'ser serial_transport"
  | AnyUnix "'uni unix_transport"
  | AnyTcp "'tcp tcp_transport"

fun any_poll_read ::
    "'ser stream_ops \<Rightarrow> 'uni stream_ops \<Rightarrow> 'tcp stream_ops \<Rightarrow> nat \<Rightarrow> ('ser, 'uni, 'tcp) any_transport
      \<Rightarrow> bytes poll \<times> ('ser, 'uni, 'tcp) any_transport" where
  "any_poll_read S U T n (AnySerial t) = poll_inner AnySerial (s_poll_read (serial_ops S) n t)"
| "any_poll_read S U T n (AnyUnix t) = poll_inner AnyUnix (s_poll_read (unix_ops U) n t)"
| "any_poll_read S U T n (AnyTcp t) = poll_inner AnyTcp (s_poll_read (tcp_ops T) n t)"

fun any_poll_write ::
    "'ser stream_ops \<Rightarrow> 'uni stream_ops \<Rightarrow> 'tcp stream_ops \<Rightarrow> bytes \<Rightarrow> ('ser, 'uni, 'tcp) any_transport
      \<Rightarrow> nat poll \<times> ('ser, 'uni, 'tcp) any_transport" where
  "any_poll_write S U T buf (AnySerial t) = poll_inner AnySerial (s_poll_write (serial_ops S) buf t)"
| "any_poll_write S U T buf (AnyUnix t) = poll_inner AnyUnix (s_poll_write (unix_ops U) buf t)"
| "any_poll_write S U T buf (AnyTcp t) = poll_inner AnyTcp (s_poll_write (tcp_ops T) buf t)"

fun any_poll_flush ::
    "'ser stream_ops \<Rightarrow> 'uni stream_ops \<Rightarrow> 'tcp stream_ops \<Rightarrow> ('ser, 'uni, 'tcp) any_transport
      \<Rightarrow> unit poll \<times> ('ser, 'uni, 'tcp) any_transport" where
  "any_poll_flush S U T (AnySerial t) = poll_inner AnySerial (s_poll_flush (serial_ops S) t)"
| "any_poll_flush S U T (AnyUnix t) = poll_inner AnyUnix (s_poll_flush (unix_ops U) t)"
| "any_poll_flush S U T (AnyTcp t) = poll_inner AnyTcp (s_poll_flush (tcp_ops T) t)"

fun any_poll_shutdown ::
    "'ser stream_ops \<Rightarrow> 'uni stream_ops \<Rightarrow> 'tcp stream_ops \<Rightarrow> ('ser, 'uni, 'tcp) any_transport
      \<Rightarrow> unit poll \<times> ('ser, 'uni, 'tcp) any_transport" where
  "any_poll_shutdown S U T (AnySerial t) = poll_inner AnySerial (s_poll_shutdown (serial_ops S) t)"
| "any_poll_shutdown S U T (AnyUnix t) = poll_inner AnyUnix (s_poll_shutdown (unix_ops U) t)"
| "any_poll_shutdown S U T (AnyTcp t) = poll_inner AnyTcp (s_poll_shutdown (tcp_ops T) t)"

definition any_ops ::
    "'ser stream_ops \<Rightarrow> 'uni stream_ops \<Rightarrow> 'tcp stream_ops \<Rightarrow> ('ser, 'uni, 'tcp) any_transport stream_ops" where
  "any_ops S U T =
     \<lparr>s_poll_read = any_poll_read S U T, s_poll_write = any_poll_write S U T,
      s_poll_flush = any_poll_flush S U T, s_poll_shutdown = any_poll_shutdown S U T\<rparr>"

subsection \<open>Opening\<close>

definition serial_open :: "(string \<Rightarrow> nat \<Rightarrow> string + 'ser) \<Rightarrow> string \<Rightarrow> 'ser serial_transport client_result" where
  "serial_open open_native_async path =
     (case open_native_async path 115200 of
        Inl e \<Rightarrow> Err (Other (''failed to open serial port '' @ path @ '': '' @ e))
      | Inr s \<Rightarrow> Ok (SerialTransport s))"

text \<open>Connecting takes some time, returned beside the result.\<close>
definition unix_connect ::
    "(string \<Rightarrow> duration \<times> (string + 'uni)) \<Rightarrow> string \<Rightarrow> 'uni unix_transport client_result \<times> duration" where
  "unix_connect connect path =
     (case connect path of
        (delay, Inl e) \<Rightarrow> (Err (Other (''failed to connect to mux socket '' @ path @ '': '' @ e)), delay)
      | (delay, Inr s) \<Rightarrow> (Ok (UnixSocketTransport s), delay))"

text \<open>\<^verbatim>\<open>format!("{host}:{port}")\<close>.\<close>
definition tcp_addr :: "string \<Rightarrow> u16 \<Rightarrow> string" where
  "tcp_addr host port = host @ '':'' @ show_dec (unat port)"

text \<open>
  The time limit cuts off a TCP connect that takes longer. Setting \<^verbatim>\<open>TCP_NODELAY\<close> on the
  connected stream may fail too.
\<close>
definition tcp_connect ::
    "(string \<Rightarrow> duration \<times> (string + 'tcp)) \<Rightarrow> ('tcp \<Rightarrow> string + 'tcp) \<Rightarrow> string \<Rightarrow> u16 \<Rightarrow> duration
      \<Rightarrow> 'tcp tcp_transport client_result \<times> duration" where
  "tcp_connect connect nodelay host port timeout =
     (let addr = tcp_addr host port
      in case connect addr of
           (delay, r) \<Rightarrow>
             if timeout < delay then (Err (Timeout ''tcp connect''), timeout)
             else (case r of
                     Inl e \<Rightarrow> (Err (Other (''failed to connect to '' @ addr @ '': '' @ e)), delay)
                   | Inr s \<Rightarrow>
                       (case nodelay s of
                          Inl e \<Rightarrow> (Err (Other (''failed to set TCP_NODELAY: '' @ e)), delay)
                        | Inr s' \<Rightarrow> (Ok (TcpTransport s'), delay))))"

text \<open>No outcome of a connect takes longer than the limit.\<close>

lemma tcp_connect_in_time: "snd (tcp_connect connect nodelay host port timeout) \<le> timeout"
  by (auto simp: tcp_connect_def Let_def split: prod.splits sum.splits)

subsection \<open>Interface: a transparent wrapper\<close>

text \<open>
  A wrapper adds nothing to the stream it holds: every poll has the answer of the stream and leaves
  the wrapped stream in the state the poll leaves it in.
\<close>

locale transparent =
  fixes inner :: "'s stream_ops"
    and outer :: "'t stream_ops"
    and wrap :: "'s \<Rightarrow> 't"
  assumes read_same: "s_poll_read outer n (wrap s) = map_prod id wrap (s_poll_read inner n s)"
    and write_same: "s_poll_write outer buf (wrap s) = map_prod id wrap (s_poll_write inner buf s)"
    and flush_same: "s_poll_flush outer (wrap s) = map_prod id wrap (s_poll_flush inner s)"
    and shutdown_same: "s_poll_shutdown outer (wrap s) = map_prod id wrap (s_poll_shutdown inner s)"

datatype io_call = IoRead nat | IoWrite bytes | IoFlush | IoShutdown

datatype io_answer = AnsRead "bytes poll" | AnsWrite "nat poll" | AnsUnit "unit poll"

fun io_do :: "'s stream_ops \<Rightarrow> io_call \<Rightarrow> 's \<Rightarrow> io_answer \<times> 's" where
  "io_do S (IoRead n) s = map_prod AnsRead id (s_poll_read S n s)"
| "io_do S (IoWrite buf) s = map_prod AnsWrite id (s_poll_write S buf s)"
| "io_do S IoFlush s = map_prod AnsUnit id (s_poll_flush S s)"
| "io_do S IoShutdown s = map_prod AnsUnit id (s_poll_shutdown S s)"

text \<open>A sequence of polls: the answers in order, and the stream afterwards.\<close>
fun io_run :: "'s stream_ops \<Rightarrow> io_call list \<Rightarrow> 's \<Rightarrow> io_answer list \<times> 's" where
  "io_run S [] s = ([], s)"
| "io_run S (c # cs) s =
     (let (a, s1) = io_do S c s; (as, s2) = io_run S cs s1 in (a # as, s2))"

context transparent
begin

lemma do_same: "io_do outer c (wrap s) = map_prod id wrap (io_do inner c s)"
  by (cases c) (simp_all add: read_same write_same flush_same shutdown_same map_prod_def split: prod.splits)

lemma run_same: "io_run outer cs (wrap s) = map_prod id wrap (io_run inner cs s)"
  by (induction cs arbitrary: s) (simp_all add: do_same split: prod.splits)

end

interpretation serial_tp: transparent S "serial_ops S" SerialTransport for S
  by unfold_locales (simp_all add: serial_ops_def poll_inner_def map_prod_def split: prod.split)

interpretation unix_tp: transparent S "unix_ops S" UnixSocketTransport for S
  by unfold_locales (simp_all add: unix_ops_def poll_inner_def map_prod_def split: prod.split)

interpretation tcp_tp: transparent S "tcp_ops S" TcpTransport for S
  by unfold_locales (simp_all add: tcp_ops_def poll_inner_def map_prod_def split: prod.split)

interpretation any_serial_tp: transparent "serial_ops S" "any_ops S U T" AnySerial for S U T
  by unfold_locales (simp_all add: any_ops_def poll_inner_def map_prod_def split: prod.split)

interpretation any_unix_tp: transparent "unix_ops U" "any_ops S U T" AnyUnix for S U T
  by unfold_locales (simp_all add: any_ops_def poll_inner_def map_prod_def split: prod.split)

interpretation any_tcp_tp: transparent "tcp_ops T" "any_ops S U T" AnyTcp for S U T
  by unfold_locales (simp_all add: any_ops_def poll_inner_def map_prod_def split: prod.split)

lemma any_transport_same:
  "io_run (any_ops S U T) cs (AnySerial (SerialTransport s)) =
     map_prod id (AnySerial \<circ> SerialTransport) (io_run S cs s)"
  "io_run (any_ops S U T) cs (AnyUnix (UnixSocketTransport u)) =
     map_prod id (AnyUnix \<circ> UnixSocketTransport) (io_run U cs u)"
  "io_run (any_ops S U T) cs (AnyTcp (TcpTransport t)) =
     map_prod id (AnyTcp \<circ> TcpTransport) (io_run T cs t)"
  by (simp_all add: any_serial_tp.run_same any_unix_tp.run_same any_tcp_tp.run_same serial_tp.run_same
      unix_tp.run_same tcp_tp.run_same prod.map_comp)

end
