(* ===== verification/Connect.thy ===== *)
theory Connect
  imports DongleOps Config Discovery Transport
begin

text \<open>
  \<^verbatim>\<open>src/connect.rs\<close>: the options, the search for a mux socket, the parsing of a TCP endpoint
  and the entry points that open a transport and bring up a dongle on it, for a Unix target. The
  operating system is a parameter: environment variables, which paths exist and which ports are
  present at a point in time, the outcome of opening a stream, and the traffic on each opened
  transport. The process-wide flag \<^verbatim>\<open>USED_MUX\<close> is passed in and returned. An entry point that
  may wait for ever returns an option, \<open>None\<close> being the wait that does not end.
\<close>

subsection \<open>Options\<close>

definition DEFAULT_TIMEOUT :: duration where
  "DEFAULT_TIMEOUT = from_secs 2"

record 'm connect_options =
  o_port :: "string option"
  o_timeout :: "duration option"
  o_config :: "'m option"
  o_auto_configure :: bool
  o_keepalive :: bool

definition default_options :: "'m connect_options" where
  "default_options =
     \<lparr>o_port = None, o_timeout = None, o_config = None, o_auto_configure = False, o_keepalive = False\<rparr>"

definition with_port :: "string \<Rightarrow> 'm connect_options \<Rightarrow> 'm connect_options" where
  "with_port path opts = opts\<lparr>o_port := Some path\<rparr>"

definition with_timeout :: "duration \<Rightarrow> 'm connect_options \<Rightarrow> 'm connect_options" where
  "with_timeout t opts = opts\<lparr>o_timeout := Some t\<rparr>"

definition with_config :: "'m \<Rightarrow> 'm connect_options \<Rightarrow> 'm connect_options" where
  "with_config m opts = opts\<lparr>o_config := Some m, o_auto_configure := True\<rparr>"

definition with_auto_configure :: "bool \<Rightarrow> 'm connect_options \<Rightarrow> 'm connect_options" where
  "with_auto_configure b opts = opts\<lparr>o_auto_configure := b\<rparr>"

definition with_keepalive :: "bool \<Rightarrow> 'm connect_options \<Rightarrow> 'm connect_options" where
  "with_keepalive b opts = opts\<lparr>o_keepalive := b\<rparr>"

definition new_options :: "'m connect_options" where
  "new_options = default_options\<lparr>o_keepalive := True\<rparr>"

definition opts_timeout :: "'m connect_options \<Rightarrow> duration" where
  "opts_timeout opts = (case o_timeout opts of Some t \<Rightarrow> t | None \<Rightarrow> DEFAULT_TIMEOUT)"

subsection \<open>The environment\<close>

record ('ser, 'uni, 'tcp) environment =
  env_var :: "string \<Rightarrow> string option"
  path_exists :: "instant \<Rightarrow> string \<Rightarrow> bool"
  available_ports :: "instant \<Rightarrow> serial_port_info list option"
  open_native_async :: "instant \<Rightarrow> string \<Rightarrow> nat \<Rightarrow> string + 'ser"
  unix_stream_connect :: "instant \<Rightarrow> string \<Rightarrow> duration \<times> (string + 'uni)"
  tcp_stream_connect :: "instant \<Rightarrow> string \<Rightarrow> duration \<times> (string + 'tcp)"
  set_nodelay :: "'tcp \<Rightarrow> string + 'tcp"
  traffic :: "('ser, 'uni, 'tcp) any_transport \<Rightarrow> world"

definition default_socket_path :: "('ser, 'uni, 'tcp) environment \<Rightarrow> string" where
  "default_socket_path E =
     (case env_var E ''DONGLORA_MUX'' of
        Some p \<Rightarrow> p
      | None \<Rightarrow>
          (case env_var E ''XDG_RUNTIME_DIR'' of
             Some xdg \<Rightarrow> xdg @ ''/donglora/mux.sock''
           | None \<Rightarrow> ''/tmp/donglora-mux.sock''))"

definition find_mux_socket :: "('ser, 'uni, 'tcp) environment \<Rightarrow> instant \<Rightarrow> string option" where
  "find_mux_socket E now =
     (case env_var E ''DONGLORA_MUX'' of
        Some p \<Rightarrow> if path_exists E now p then Some p else None
      | None \<Rightarrow>
          (let tmp = ''/tmp/donglora-mux.sock'';
               last_try = (if path_exists E now tmp then Some tmp else None)
           in case env_var E ''XDG_RUNTIME_DIR'' of
                Some xdg \<Rightarrow>
                  (let p = xdg @ ''/donglora/mux.sock'' in if path_exists E now p then Some p else last_try)
              | None \<Rightarrow> last_try))"

definition parse_tcp_endpoint :: "string \<Rightarrow> (string \<times> u16) option" where
  "parse_tcp_endpoint addr =
     (case rsplit_once (CHR '':'') addr of
        Some (h, p) \<Rightarrow>
          (let host = (if h = [] then ''localhost'' else h)
           in case parse_u16 p of None \<Rightarrow> None | Some port \<Rightarrow> Some (host, port))
      | None \<Rightarrow> (case parse_u16 addr of None \<Rightarrow> None | Some port \<Rightarrow> Some (''localhost'', port)))"

text \<open>The transport and its endpoint if there is one, and the time spent.\<close>
definition try_tcp_env ::
    "('ser, 'uni, 'tcp) environment \<Rightarrow> duration \<Rightarrow> instant \<Rightarrow> ('tcp tcp_transport \<times> string) option \<times> duration" where
  "try_tcp_env E timeout now =
     (case env_var E ''DONGLORA_MUX_TCP'' of
        None \<Rightarrow> (None, 0)
      | Some tcp \<Rightarrow>
          (case parse_tcp_endpoint tcp of
             None \<Rightarrow> (None, 0)
           | Some (host, port) \<Rightarrow>
               (case tcp_connect (tcp_stream_connect E now) (set_nodelay E) host port timeout of
                  (Ok t, spent) \<Rightarrow> (Some (t, tcp_addr host port), spent)
                | (_, spent) \<Rightarrow> (None, spent))))"

subsection \<open>Bringing up a dongle\<close>

type_synonym ('a, 'bw, 'b, 'o, 'rx, 'd) device_proto =
  "('a device_info_scheme, (('bw, 'b) lora_config_scheme, 'o) modulation, 'rx, 'd) proto"

type_synonym ('a, 'bw, 'b, 'o, 'rx, 'd) device =
  "('a device_info_scheme, (('bw, 'b) lora_config_scheme, 'o) modulation, 'rx, 'd) dongle"

text \<open>
  The commands of \<^verbatim>\<open>finalize\<close> on the traffic \<open>w\<close> of the opened transport: the device's information
  and the configuration applied, with the session as it is when the function returns.
\<close>
definition probe ::
    "('a, 'bw, 'b, 'o, 'rx, 'd) device_proto \<Rightarrow> 'bw build \<Rightarrow> world
      \<Rightarrow> (('bw, 'b) lora_config_scheme, 'o) modulation connect_options \<Rightarrow> duration
      \<Rightarrow> ('a device_info_scheme \<times> (('bw, 'b) lora_config_scheme, 'o) modulation option) client_result
        \<times> ('a device_info_scheme, (('bw, 'b) lora_config_scheme, 'o) modulation, 'rx, 'd) session \<times> world" where
  "probe P B w opts timeout =
     (case ping P timeout (spawn P) w of
        (Err e, s1, w1) \<Rightarrow> (Err e, s1, w1)
      | (Panic, s1, w1) \<Rightarrow> (Panic, s1, w1)
      | (Ok _, s1, w1) \<Rightarrow>
          (case get_info P timeout s1 w1 of
             (Err e, s2, w2) \<Rightarrow> (Err e, s2, w2)
           | (Panic, s2, w2) \<Rightarrow> (Panic, s2, w2)
           | (Ok di, s2, w2) \<Rightarrow>
               (case (if o_auto_configure opts then o_config opts else None) of
                  None \<Rightarrow> (Ok (di, None), s2, w2)
                | Some m \<Rightarrow>
                    (case prepare_config B di m of
                       Err e \<Rightarrow> (Err e, s2, w2)
                     | Panic \<Rightarrow> (Panic, s2, w2)
                     | Ok prepared \<Rightarrow>
                         (case Commands.set_config P prepared timeout s2 w2 of
                            (Err e, s3, w3) \<Rightarrow> (Err e, s3, w3)
                          | (Panic, s3, w3) \<Rightarrow> (Panic, s3, w3)
                          | (Ok r, s3, w3) \<Rightarrow> (Ok (di, Some (current r)), s3, w3))))))"

text \<open>An error drops the session as it is.\<close>
definition finalize ::
    "('a, 'bw, 'b, 'o, 'rx, 'd) device_proto \<Rightarrow> 'bw build \<Rightarrow> world \<Rightarrow> transport_kind
      \<Rightarrow> (('bw, 'b) lora_config_scheme, 'o) modulation connect_options \<Rightarrow> duration
      \<Rightarrow> (('a, 'bw, 'b, 'o, 'rx, 'd) device \<times> world) client_result" where
  "finalize P B w kind opts timeout =
     (case probe P B w opts timeout of
        (Ok (di, applied), s, w') \<Rightarrow> Ok (new s di kind applied (o_keepalive opts) w', w')
      | (Err e, _, _) \<Rightarrow> Err e
      | (Panic, _, _) \<Rightarrow> Panic)"

text \<open>The three ways to a transport, each followed by \<^verbatim>\<open>finalize\<close> on its traffic.\<close>

definition serial_session ::
    "('a, 'bw, 'b, 'o, 'rx, 'd) device_proto \<Rightarrow> 'bw build \<Rightarrow> ('ser, 'uni, 'tcp) environment \<Rightarrow> string
      \<Rightarrow> (('bw, 'b) lora_config_scheme, 'o) modulation connect_options \<Rightarrow> duration \<Rightarrow> instant
      \<Rightarrow> (('a, 'bw, 'b, 'o, 'rx, 'd) device \<times> world) client_result" where
  "serial_session P B E port opts timeout now =
     (case serial_open (open_native_async E now) port of
        Err e \<Rightarrow> Err e
      | Panic \<Rightarrow> Panic
      | Ok t \<Rightarrow> finalize P B ((traffic E (AnySerial t))\<lparr>clock := now\<rparr>) (Serial port) opts timeout)"

definition tcp_session ::
    "('a, 'bw, 'b, 'o, 'rx, 'd) device_proto \<Rightarrow> 'bw build \<Rightarrow> ('ser, 'uni, 'tcp) environment
      \<Rightarrow> 'tcp tcp_transport \<Rightarrow> string
      \<Rightarrow> (('bw, 'b) lora_config_scheme, 'o) modulation connect_options \<Rightarrow> duration \<Rightarrow> instant
      \<Rightarrow> (('a, 'bw, 'b, 'o, 'rx, 'd) device \<times> world) client_result" where
  "tcp_session P B E t endpoint opts timeout now =
     finalize P B ((traffic E (AnyTcp t))\<lparr>clock := now\<rparr>) (MuxTcp endpoint) opts timeout"

text \<open>The flag returned says whether the socket could be connected.\<close>
definition unix_session ::
    "('a, 'bw, 'b, 'o, 'rx, 'd) device_proto \<Rightarrow> 'bw build \<Rightarrow> ('ser, 'uni, 'tcp) environment \<Rightarrow> string
      \<Rightarrow> (('bw, 'b) lora_config_scheme, 'o) modulation connect_options \<Rightarrow> duration \<Rightarrow> instant
      \<Rightarrow> (('a, 'bw, 'b, 'o, 'rx, 'd) device \<times> world) client_result \<times> bool" where
  "unix_session P B E path opts timeout now =
     (case unix_connect (unix_stream_connect E now) path of
        (Err e, _) \<Rightarrow> (Err e, False)
      | (Panic, _) \<Rightarrow> (Panic, False)
      | (Ok t, spent) \<Rightarrow>
          (finalize P B ((traffic E (AnyUnix t))\<lparr>clock := now + spent\<rparr>) (MuxUnix path) opts timeout, True))"

subsection \<open>Entry points\<close>

text \<open>The polling loop of \<^verbatim>\<open>connect_mux_sticky\<close>: when the path exists.\<close>
partial_function (option) sticky_wait :: "(instant \<Rightarrow> bool) \<Rightarrow> instant \<Rightarrow> instant option" where
  "sticky_wait exists now =
     (if exists now then Some now else sticky_wait exists (now + from_millis 500))"

definition connect_mux_sticky ::
    "('a, 'bw, 'b, 'o, 'rx, 'd) device_proto \<Rightarrow> 'bw build \<Rightarrow> ('ser, 'uni, 'tcp) environment
      \<Rightarrow> (('bw, 'b) lora_config_scheme, 'o) modulation connect_options \<Rightarrow> duration \<Rightarrow> instant
      \<Rightarrow> (('a, 'bw, 'b, 'o, 'rx, 'd) device \<times> world) client_result option" where
  "connect_mux_sticky P B E opts timeout now =
     (case try_tcp_env E timeout now of
        (Some (t, endpoint), spent) \<Rightarrow> Some (tcp_session P B E t endpoint opts timeout (now + spent))
      | (None, spent) \<Rightarrow>
          (let path = default_socket_path E
           in case sticky_wait (\<lambda>t. path_exists E t path) (now + spent) of
                None \<Rightarrow> None
              | Some t \<Rightarrow> Some (fst (unix_session P B E path opts timeout t))))"

definition connect_with ::
    "('a, 'bw, 'b, 'o, 'rx, 'd) device_proto \<Rightarrow> 'bw build \<Rightarrow> ('ser, 'uni, 'tcp) environment
      \<Rightarrow> (('bw, 'b) lora_config_scheme, 'o) modulation connect_options \<Rightarrow> bool \<Rightarrow> instant
      \<Rightarrow> ((('a, 'bw, 'b, 'o, 'rx, 'd) device \<times> world) client_result \<times> bool) option" where
  "connect_with P B E opts used_mux now =
     (let timeout = opts_timeout opts
      in case o_port opts of
           Some port \<Rightarrow> Some (serial_session P B E port opts timeout now, used_mux)
         | None \<Rightarrow>
             if used_mux then map_option (\<lambda>r. (r, used_mux)) (connect_mux_sticky P B E opts timeout now)
             else (case try_tcp_env E timeout now of
                     (Some (t, endpoint), spent) \<Rightarrow>
                       Some (tcp_session P B E t endpoint opts timeout (now + spent), True)
                   | (None, spent) \<Rightarrow>
                       (case find_mux_socket E (now + spent) of
                          Some path \<Rightarrow> Some (unix_session P B E path opts timeout (now + spent))
                        | None \<Rightarrow>
                            (case find_port (available_ports E (now + spent)) of
                               Some port \<Rightarrow> Some (serial_session P B E port opts timeout (now + spent), False)
                             | None \<Rightarrow>
                                 map_option (\<lambda>(port, t). (serial_session P B E port opts timeout t, False))
                                   (wait_for_device (available_ports E) (now + spent))))))"

definition connect ::
    "('a, 'bw, 'b, 'o, 'rx, 'd) device_proto \<Rightarrow> 'bw build \<Rightarrow> ('ser, 'uni, 'tcp) environment \<Rightarrow> bool \<Rightarrow> instant
      \<Rightarrow> ((('a, 'bw, 'b, 'o, 'rx, 'd) device \<times> world) client_result \<times> bool) option" where
  "connect P B E = connect_with P B E new_options"

definition try_connect_with ::
    "('a, 'bw, 'b, 'o, 'rx, 'd) device_proto \<Rightarrow> 'bw build \<Rightarrow> ('ser, 'uni, 'tcp) environment
      \<Rightarrow> (('bw, 'b) lora_config_scheme, 'o) modulation connect_options \<Rightarrow> bool \<Rightarrow> instant
      \<Rightarrow> (('a, 'bw, 'b, 'o, 'rx, 'd) device \<times> world) client_result \<times> bool" where
  "try_connect_with P B E opts used_mux now =
     (let timeout = opts_timeout opts
      in case o_port opts of
           Some port \<Rightarrow> (serial_session P B E port opts timeout now, used_mux)
         | None \<Rightarrow>
             if used_mux then
               (case find_mux_socket E now of
                  None \<Rightarrow> (Err (Other ''mux not available (waiting for restart)''), used_mux)
                | Some path \<Rightarrow> (fst (unix_session P B E path opts timeout now), used_mux))
             else (case try_tcp_env E timeout now of
                     (Some (t, endpoint), spent) \<Rightarrow>
                       (tcp_session P B E t endpoint opts timeout (now + spent), True)
                   | (None, spent) \<Rightarrow>
                       (case find_mux_socket E (now + spent) of
                          Some path \<Rightarrow> unix_session P B E path opts timeout (now + spent)
                        | None \<Rightarrow>
                            (case find_port (available_ports E (now + spent)) of
                               None \<Rightarrow> (Err (Other ''no DongLoRa device found (no mux, no USB device)''), False)
                             | Some port \<Rightarrow> (serial_session P B E port opts timeout (now + spent), False)))))"

definition try_connect ::
    "('a, 'bw, 'b, 'o, 'rx, 'd) device_proto \<Rightarrow> 'bw build \<Rightarrow> ('ser, 'uni, 'tcp) environment \<Rightarrow> bool \<Rightarrow> instant
      \<Rightarrow> (('a, 'bw, 'b, 'o, 'rx, 'd) device \<times> world) client_result \<times> bool" where
  "try_connect P B E = try_connect_with P B E new_options"

definition connect_mux_auto_with ::
    "('a, 'bw, 'b, 'o, 'rx, 'd) device_proto \<Rightarrow> 'bw build \<Rightarrow> ('ser, 'uni, 'tcp) environment
      \<Rightarrow> (('bw, 'b) lora_config_scheme, 'o) modulation connect_options \<Rightarrow> bool \<Rightarrow> instant
      \<Rightarrow> (('a, 'bw, 'b, 'o, 'rx, 'd) device \<times> world) client_result \<times> bool" where
  "connect_mux_auto_with P B E opts used_mux now =
     (let timeout = opts_timeout opts
      in case try_tcp_env E timeout now of
           (Some (t, endpoint), spent) \<Rightarrow> (tcp_session P B E t endpoint opts timeout (now + spent), True)
         | (None, spent) \<Rightarrow>
             (case find_mux_socket E (now + spent) of
                None \<Rightarrow> (Err (Other ''no mux socket found''), used_mux)
              | Some path \<Rightarrow>
                  (case unix_session P B E path opts timeout (now + spent) of
                     (r, opened) \<Rightarrow> (r, used_mux \<or> opened))))"

definition connect_mux_auto ::
    "('a, 'bw, 'b, 'o, 'rx, 'd) device_proto \<Rightarrow> 'bw build \<Rightarrow> ('ser, 'uni, 'tcp) environment \<Rightarrow> bool \<Rightarrow> instant
      \<Rightarrow> (('a, 'bw, 'b, 'o, 'rx, 'd) device \<times> world) client_result \<times> bool" where
  "connect_mux_auto P B E = connect_mux_auto_with P B E new_options"

definition mux_unix_connect ::
    "('a, 'bw, 'b, 'o, 'rx, 'd) device_proto \<Rightarrow> 'bw build \<Rightarrow> ('ser, 'uni, 'tcp) environment \<Rightarrow> string \<Rightarrow> bool
      \<Rightarrow> instant \<Rightarrow> (('a, 'bw, 'b, 'o, 'rx, 'd) device \<times> world) client_result \<times> bool" where
  "mux_unix_connect P B E path used_mux now =
     (case unix_session P B E path new_options DEFAULT_TIMEOUT now of (r, opened) \<Rightarrow> (r, used_mux \<or> opened))"

definition mux_tcp_connect ::
    "('a, 'bw, 'b, 'o, 'rx, 'd) device_proto \<Rightarrow> 'bw build \<Rightarrow> ('ser, 'uni, 'tcp) environment \<Rightarrow> string \<Rightarrow> u16
      \<Rightarrow> bool \<Rightarrow> instant \<Rightarrow> (('a, 'bw, 'b, 'o, 'rx, 'd) device \<times> world) client_result \<times> bool" where
  "mux_tcp_connect P B E host port used_mux now =
     (case tcp_connect (tcp_stream_connect E now) (set_nodelay E) host port DEFAULT_TIMEOUT of
        (Err e, _) \<Rightarrow> (Err e, used_mux)
      | (Panic, _) \<Rightarrow> (Panic, used_mux)
      | (Ok t, spent) \<Rightarrow>
          (tcp_session P B E t (tcp_addr host port) new_options DEFAULT_TIMEOUT (now + spent), True))"

subsection \<open>Waiting for a mux\<close>

definition socket_at :: "(instant \<Rightarrow> bool) \<Rightarrow> instant \<Rightarrow> instant option" where
  "socket_at ex now = (if ex now then Some now else None)"

lemma sticky_wait_Some:
  assumes "sticky_wait ex now = Some t"
  shows "\<exists>n. socket_at ex (now + n * from_millis 500) = Some t"
proof (rule sticky_wait.raw_induct [OF _ assms, where P = "\<lambda>ex now t.
    \<exists>n. socket_at ex (now + n * from_millis 500) = Some t"])
  fix rec :: "(instant \<Rightarrow> bool) \<Rightarrow> instant \<Rightarrow> instant option" and ex now t
  assume ih: "\<And>ex now t. rec ex now = Some t \<Longrightarrow> \<exists>n. socket_at ex (now + n * from_millis 500) = Some t"
    and body: "(if ex now then Some now else rec ex (now + from_millis 500)) = Some t"
  show "\<exists>n. socket_at ex (now + n * from_millis 500) = Some t"
  proof (cases "ex now")
    case False
    with body ih [of ex "now + from_millis 500" t] obtain n where
      "socket_at ex (now + Suc n * from_millis 500) = Some t" by (auto simp: add.assoc)
    then show ?thesis by blast
  next
    case True
    with body show ?thesis by (intro exI [of _ 0]) (simp add: socket_at_def)
  qed
qed

interpretation socket_poll: polling "sticky_wait ex" "socket_at ex" "from_millis 500" for ex
proof unfold_locales
  show "sticky_wait ex now = (case socket_at ex now of
      None \<Rightarrow> sticky_wait ex (now + from_millis 500) | Some r \<Rightarrow> Some r)" for now
    by (subst sticky_wait.simps) (simp add: socket_at_def)
qed (rule sticky_wait_Some)

subsection \<open>Endpoints\<close>

lemma digit_val_char [simp]: "d < 10 \<Longrightarrow> digit_val (digit_char d) = Some d"
  by (simp add: digit_val_def digit_char_def Let_def)

lemma parse_show_dec:
  "n < b \<Longrightarrow> parse_digits b 0 (show_dec n @ cs) = parse_digits b n cs"
proof (induction n arbitrary: cs rule: show_dec.induct)
  case (1 n)
  show ?case
  proof (cases "n < 10")
    case True
    with 1(2) show ?thesis by (simp add: show_dec.simps [of n])
  next
    case False
    have "n div 10 < b" using 1(2) by linarith
    moreover have "n div 10 * 10 + n mod 10 = n" by simp
    ultimately show ?thesis
      using 1(1) [OF False, of "digit_char (n mod 10) # cs"] 1(2) False by (simp add: show_dec.simps [of n])
  qed
qed

lemma show_dec_digits: "c \<in> set (show_dec n) \<Longrightarrow> \<exists>d < 10. c = digit_char d"
proof (induction n rule: show_dec.induct)
  case (1 n)
  then show ?case
    by (cases "n < 10") (auto simp: show_dec.simps [of n] intro: exI [of _ "n mod 10"])
qed

lemma show_dec_not_Nil [simp]: "show_dec n \<noteq> []"
  by (subst show_dec.simps) simp

lemma digit_char_other: "d < 10 \<Longrightarrow> digit_char d \<noteq> CHR '':'' \<and> digit_char d \<noteq> CHR ''+''"
proof -
  assume d: "d < 10"
  then have "(of_char (digit_char d) :: nat) = 48 + d" by (simp add: digit_char_def)
  then show ?thesis using d by (auto simp: digit_char_def dest!: arg_cong [where f = "of_char :: char \<Rightarrow> nat"])
qed

lemma parse_u16_show: "parse_u16 (show_dec (unat port)) = Some port"
proof -
  obtain c cs where s: "show_dec (unat port) = c # cs" by (metis neq_Nil_conv show_dec_not_Nil)
  then obtain d where "d < 10" "c = digit_char d" using show_dec_digits [of c "unat port"] by auto
  then have "c \<noteq> CHR ''+''" using digit_char_other by simp
  moreover have "parse_digits 65536 0 (c # cs) = Some (unat port)"
    using parse_show_dec [of "unat port" 65536 "[]"] unat_le_max_u16 [of port] s by simp
  ultimately show ?thesis by (simp add: parse_u16_def s)
qed

lemma rsplit_once_none: "c \<notin> set p \<Longrightarrow> rsplit_once c p = None"
  by (induction p) auto

lemma rsplit_once_last: "c \<notin> set p \<Longrightarrow> rsplit_once c (h @ c # p) = Some (h, p)"
  by (induction h) (simp_all add: rsplit_once_none)

lemma show_dec_no_colon: "CHR '':'' \<notin> set (show_dec n)"
  using show_dec_digits digit_char_other by metis

text \<open>An endpoint as it is printed parses to itself, whatever the host contains.\<close>

lemma parse_tcp_addr:
  "parse_tcp_endpoint (tcp_addr host port) = Some (if host = [] then ''localhost'' else host, port)"
  using rsplit_once_last [OF show_dec_no_colon, of host "unat port"]
  by (simp add: parse_tcp_endpoint_def tcp_addr_def parse_u16_show)

lemma parse_tcp_port: "parse_tcp_endpoint (show_dec (unat port)) = Some (''localhost'', port)"
  by (simp add: parse_tcp_endpoint_def rsplit_once_none show_dec_no_colon parse_u16_show)

subsection \<open>The probe\<close>

lemma command_Ok:
  assumes run: "command P ty pl timeout expect s w = (Ok x, s', w')"
  shows "\<exists>f. encode_frame P ty (next_tag s) pl = Inr f \<and> written s' = written s @ [f]
    \<and> next_tag s' = next_tag (snd (alloc_tag s))"
proof -
  have "\<not> closed s" using session_op.op_Ok_open [OF command_op run] .
  moreover obtain resp where "send_command P ty pl timeout s w = (Ok resp, s', w')"
    using run by (auto simp: command_def split: prod.splits client_result.splits)
  ultimately show ?thesis using send_command_Ok_written send_command_tag by blast
qed

text \<open>What holds of a session after the first commands of \<^verbatim>\<open>finalize\<close>.\<close>

definition fresh_after :: "nat \<Rightarrow> bytes list \<Rightarrow> ('i, 'm, 'rx, 'd) session \<Rightarrow> bool" where
  "fresh_after n fs s \<longleftrightarrow>
     session_inv s \<and> \<not> closed s \<and> pending_map s = [] \<and> written s = fs \<and> next_tag s = of_nat (Suc n)"

lemma spawn_fresh: "fresh_after 0 [] (spawn P)"
  using spawn_inv [of P] by (simp add: fresh_after_def) (simp add: spawn_def)

lemma command_fresh:
  assumes run: "command P ty pl timeout expect s w = (Ok x, s', w')" and f: "fresh_after n fs s" and n: "n < 100"
  shows "\<exists>f. encode_frame P ty (of_nat (Suc n)) pl = Inr f \<and> fresh_after (Suc n) (fs @ [f]) s'"
proof -
  have "next_tag (snd (alloc_tag s)) = of_nat (Suc (Suc n))"
  proof -
    have "unat (of_nat (Suc n) :: u16) = Suc n"
      using n by (simp add: unsigned_of_nat take_bit_nat_eq_self del: of_nat_Suc)
    then have "unat ((of_nat (Suc n) :: u16) + 1) = Suc (Suc n)" using n unat_u16_succ [of "of_nat (Suc n)"] by simp
    then have "(of_nat (Suc n) :: u16) + 1 \<noteq> 0" by (metis nat.distinct(1) unsigned_0)
    with f show ?thesis by (simp add: fresh_after_def alloc_tag_def Let_def add.commute)
  qed
  moreover have "session_inv s'" "pending_map s' = []" "\<not> closed s'"
    using session_op.op_inv [OF command_op run] session_op.op_idle [OF command_op run]
      session_op.op_flag [OF command_op run] f by (simp_all add: fresh_after_def)
  ultimately show ?thesis using command_Ok [OF run] f by (auto simp: fresh_after_def)
qed

lemma set_config_fresh:
  assumes "Commands.set_config P m timeout s w = (Ok x, s', w')" "fresh_after n fs s" "n < 100"
  shows "\<exists>pl f. encode_set_config P m = Inr pl \<and> encode_frame P (TYPE_SET_CONFIG P) (of_nat (Suc n)) pl = Inr f
    \<and> fresh_after (Suc n) (fs @ [f]) s'"
  using assms command_fresh [OF _ assms(2,3)]
  by (auto simp: Commands.set_config_def split: sum.splits)

text \<open>No command closes the session or stops its reader, and on a silent line the reader stays alive.\<close>

definition left_alone :: "('i, 'm, 'rx, 'd) session \<Rightarrow> world \<Rightarrow> ('i, 'm, 'rx, 'd) session \<Rightarrow> world \<Rightarrow> bool" where
  "left_alone s w s' w' \<longleftrightarrow>
     closed s' = closed s \<and> reader_handle s' = reader_handle s
     \<and> (arrivals w = [] \<longrightarrow> arrivals w' = [] \<and> reader_running s' = reader_running s)"

lemma left_alone_trans: "left_alone s w s1 w1 \<Longrightarrow> left_alone s1 w1 s2 w2 \<Longrightarrow> left_alone s w s2 w2"
  by (simp add: left_alone_def)

lemma running_remove [simp]: "reader_running (pending_remove tag s) = reader_running s"
  by (simp add: pending_remove_def pending_take_def drop_sender_def split: option.split)

lemma send_command_alone:
  assumes run: "send_command P ty pl t s w = (r, s', w')"
  shows "left_alone s w s' w'"
proof -
  have "arrivals w = [] \<longrightarrow> arrivals w' = [] \<and> reader_running s' = reader_running s"
  proof (cases "closed s")
    case True
    with run show ?thesis by (simp add: send_command_closed)
  next
    case False
    with run show ?thesis
    proof (cases rule: send_command_cases)
      case (failed wire e b s3)
      then show ?thesis by (auto simp: sleep_def)
    next
      case (sent wire s3 w3 ch now rest s4)
      then show ?thesis by (auto simp: sleep_def split: oneshot.splits)
    qed simp
  qed
  with send_command_frame(1,2) [OF run] show ?thesis by (simp add: left_alone_def)
qed

lemma command_alone: "command P ty pl t expect s w = (r, s', w') \<Longrightarrow> left_alone s w s' w'"
  by (auto simp: command_def split: prod.splits client_result.splits dest: send_command_alone)

lemma set_config_alone:
  assumes "Commands.set_config P m t s w = (r, s', w')" shows "left_alone s w s' w'"
proof (cases "encode_set_config P m")
  case (Inl e)
  with assms show ?thesis by (simp add: Commands.set_config_def left_alone_def)
next
  case (Inr bs)
  with assms show ?thesis by (auto simp: Commands.set_config_def dest: command_alone)
qed

lemma probe_alone:
  assumes "probe P B w opts timeout = (r, s, w')"
  shows "left_alone (spawn P) w s w'"
proof -
  obtain r1 s1 w1 where 1: "ping P timeout (spawn P) w = (r1, s1, w1)" by (metis prod_cases3)
  obtain r2 s2 w2 where 2: "get_info P timeout s1 w1 = (r2, s2, w2)" by (metis prod_cases3)
  have a1: "left_alone (spawn P) w s1 w1" using 1 unfolding ping_def by (rule command_alone)
  have a2: "left_alone (spawn P) w s2 w2"
    using left_alone_trans [OF a1] 2 command_alone unfolding get_info_def by blast
  have a3: "left_alone (spawn P) w s3 w3" if "Commands.set_config P m timeout s2 w2 = (x, s3, w3)" for m x s3 w3
    using left_alone_trans [OF a2 set_config_alone [OF that]] .
  from assms 1 2 a1 a2 a3 show ?thesis
    by (auto simp: probe_def split: client_result.splits option.splits prod.splits if_splits)
qed

text \<open>The configuration that \<^verbatim>\<open>finalize\<close> applies, if any.\<close>
definition requested :: "'m connect_options \<Rightarrow> 'm option" where
  "requested opts = (if o_auto_configure opts then o_config opts else None)"

lemma finalize_cases:
  assumes "finalize P B w kind opts timeout = Ok (d, w')"
  obtains s1 w1 di s2 w2 where
    "ping P timeout (spawn P) w = (Ok (), s1, w1)" "get_info P timeout s1 w1 = (Ok di, s2, w2)"
    "requested opts = None" "d = new s2 di kind None (o_keepalive opts) w2" "w' = w2"
  | s1 w1 di s2 w2 m m' r s3 where
    "ping P timeout (spawn P) w = (Ok (), s1, w1)" "get_info P timeout s1 w1 = (Ok di, s2, w2)"
    "requested opts = Some m" "prepare_config B di m = Ok m'"
    "Commands.set_config P m' timeout s2 w2 = (Ok r, s3, w')"
    "d = new s3 di kind (Some (current r)) (o_keepalive opts) w'"
proof -
  obtain r1 s1 w1 where 1: "ping P timeout (spawn P) w = (r1, s1, w1)" by (metis prod_cases3)
  obtain r2 s2 w2 where 2: "get_info P timeout s1 w1 = (r2, s2, w2)" by (metis prod_cases3)
  have r: "r1 = Ok ()" "\<exists>di. r2 = Ok di"
    using assms 1 2 by (auto simp: finalize_def probe_def split: client_result.splits)
  then obtain di where di: "r2 = Ok di" by blast
  show ?thesis
  proof (cases "requested opts")
    case None
    with assms 1 2 r di show ?thesis by (intro that(1)) (auto simp: finalize_def probe_def requested_def)
  next
    case (Some m)
    then obtain m' where m': "prepare_config B di m = Ok m'"
      using assms 1 2 r di by (auto simp: finalize_def probe_def requested_def split: client_result.splits)
    obtain r3 s3 w3 where 3: "Commands.set_config P m' timeout s2 w2 = (r3, s3, w3)" by (metis prod_cases3)
    from assms 1 2 3 r di m' Some obtain x where x: "r3 = Ok x" "w3 = w'"
        "d = new s3 di kind (Some (current x)) (o_keepalive opts) w'"
      by (auto simp: finalize_def probe_def requested_def split: client_result.splits)
    from that(2) [of s1 w1 di s2 w2 m m' x s3] 1 2 3 r di m' Some x show ?thesis by simp
  qed
qed

text \<open>
  The handshake: the commands, each on the state the one before left, the frames they put on the wire,
  and what the new dongle keeps of the answers.
\<close>
definition handshake ::
    "('a, 'bw, 'b, 'o, 'rx, 'd) device_proto \<Rightarrow> 'bw build \<Rightarrow> world
      \<Rightarrow> (('bw, 'b) lora_config_scheme, 'o) modulation connect_options \<Rightarrow> duration
      \<Rightarrow> ('a, 'bw, 'b, 'o, 'rx, 'd) device \<Rightarrow> world \<Rightarrow> bool" where
  "handshake P B w opts timeout d w' \<longleftrightarrow>
     (\<exists>f1 f2 s1 w1 s2 w2. encode_frame P (TYPE_PING P) 1 [] = Inr f1 \<and> encode_frame P (TYPE_GET_INFO P) 2 [] = Inr f2
       \<and> ping P timeout (spawn P) w = (Ok (), s1, w1) \<and> get_info P timeout s1 w1 = (Ok (info d), s2, w2)
       \<and> (case requested opts of
            None \<Rightarrow> d_session d = s2 \<and> w' = w2 \<and> written (d_session d) = [f1, f2] \<and> applied_config d = None
          | Some m \<Rightarrow> (\<exists>m' pl f3 r. prepare_config B (info d) m = Ok m' \<and> encode_set_config P m' = Inr pl
              \<and> encode_frame P (TYPE_SET_CONFIG P) 3 pl = Inr f3
              \<and> Commands.set_config P m' timeout s2 w2 = (Ok r, d_session d, w')
              \<and> written (d_session d) = [f1, f2, f3] \<and> applied_config d = Some (current r))))"

lemma new_fields [simp]:
  "d_session (new s i k a b w) = s" "info (new s i k a b w) = i" "d_transport_kind (new s i k a b w) = k"
  "applied_config (new s i k a b w) = a" "keepalive_handle (new s i k a b w) = b"
  "\<not> rx_started (new s i k a b w)" "\<not> d_closed (new s i k a b w)" "last_write_at (new s i k a b w) = clock w"
  by (simp_all add: new_def)

lemma finalize_Ok:
  assumes "finalize P B w kind opts timeout = Ok (d, w')"
  shows "dongle_inv d w'" "\<not> d_closed d" "d_transport_kind d = kind" "pending_map (d_session d) = []"
    "keepalive_handle d = o_keepalive opts" "handshake P B w opts timeout d w'" "clock w \<le> clock w'"
proof -
  have "dongle_inv d w' \<and> \<not> d_closed d \<and> d_transport_kind d = kind \<and> pending_map (d_session d) = []
    \<and> keepalive_handle d = o_keepalive opts \<and> handshake P B w opts timeout d w' \<and> clock w \<le> clock w'"
    using assms
  proof (cases rule: finalize_cases)
    case (1 s1 w1 di s2 w2)
    obtain f1 where f1: "encode_frame P (TYPE_PING P) 1 [] = Inr f1" "fresh_after 1 [f1] s1"
      using command_fresh [OF 1(1) [unfolded ping_def] spawn_fresh] by auto
    obtain f2 where f2: "encode_frame P (TYPE_GET_INFO P) 2 [] = Inr f2" "fresh_after 2 [f1, f2] s2"
      using command_fresh [OF 1(2) [unfolded get_info_def] f1(2)] by (auto simp: numeral_2_eq_2)
    have "clock w \<le> clock w2" using ping_op.op_clock [OF 1(1)] get_info_op.op_clock [OF 1(2)] by simp
    moreover have "handshake P B w opts timeout d w'"
      unfolding handshake_def using 1 f1 f2 by (intro exI conjI) (auto simp: fresh_after_def)
    ultimately show ?thesis using 1 f2 by (auto simp: fresh_after_def intro: new_inv)
  next
    case (2 s1 w1 di s2 w2 m m' r s3)
    obtain f1 where f1: "encode_frame P (TYPE_PING P) 1 [] = Inr f1" "fresh_after 1 [f1] s1"
      using command_fresh [OF 2(1) [unfolded ping_def] spawn_fresh] by auto
    obtain f2 where f2: "encode_frame P (TYPE_GET_INFO P) 2 [] = Inr f2" "fresh_after 2 [f1, f2] s2"
      using command_fresh [OF 2(2) [unfolded get_info_def] f1(2)] by (auto simp: numeral_2_eq_2)
    obtain pl f3 where f3: "encode_set_config P m' = Inr pl" "encode_frame P (TYPE_SET_CONFIG P) 3 pl = Inr f3"
        "fresh_after 3 [f1, f2, f3] s3"
      using set_config_fresh [OF 2(5) f2(2)] by (auto simp: numeral_3_eq_3)
    have "clock w \<le> clock w'"
      using ping_op.op_clock [OF 2(1)] get_info_op.op_clock [OF 2(2)] set_config_op.op_clock [OF 2(5)] by simp
    moreover have "handshake P B w opts timeout d w'"
      unfolding handshake_def using 2 f1 f2 f3 by (intro exI conjI) (auto simp: fresh_after_def)
    ultimately show ?thesis using 2 f3 by (auto simp: fresh_after_def intro: new_inv)
  qed
  then show "dongle_inv d w'" "\<not> d_closed d" "d_transport_kind d = kind" "pending_map (d_session d) = []"
    "keepalive_handle d = o_keepalive opts" "handshake P B w opts timeout d w'" "clock w \<le> clock w'" by blast+
qed

subsection \<open>Which transport an entry point ends up on\<close>

lemma serial_session_kind: "serial_session P B E port opts timeout now = Ok (d, w) \<Longrightarrow> d_transport_kind d = Serial port"
  by (auto simp: serial_session_def split: client_result.splits dest: finalize_Ok)

lemma tcp_session_kind: "tcp_session P B E t ep opts timeout now = Ok (d, w) \<Longrightarrow> d_transport_kind d = MuxTcp ep"
  by (auto simp: tcp_session_def dest: finalize_Ok)

lemma unix_session_kind:
  "unix_session P B E path opts timeout now = (Ok (d, w), b) \<Longrightarrow> d_transport_kind d = MuxUnix path \<and> b"
  by (auto simp: unix_session_def split: client_result.splits prod.splits dest: finalize_Ok)

lemma find_mux_socket_exists: "find_mux_socket E now = Some path \<Longrightarrow> path_exists E now path"
  by (auto simp: find_mux_socket_def Let_def split: option.splits if_splits)

lemma connect_mux_sticky_mux:
  "connect_mux_sticky P B E opts timeout now = Some (Ok (d, w)) \<Longrightarrow> is_mux (d_transport_kind d)"
proof -
  assume run: "connect_mux_sticky P B E opts timeout now = Some (Ok (d, w))"
  obtain r spent where t: "try_tcp_env E timeout now = (r, spent)" by fastforce
  show ?thesis
  proof (cases r)
    case (Some te)
    with run t show ?thesis by (cases te) (auto simp: connect_mux_sticky_def dest: tcp_session_kind)
  next
    case None
    with run t obtain u where u: "fst (unix_session P B E (default_socket_path E) opts timeout u) = Ok (d, w)"
      by (auto simp: connect_mux_sticky_def Let_def split: option.splits)
    then show ?thesis
      using unix_session_kind [of P B E "default_socket_path E" opts timeout u d w]
      by (cases "unix_session P B E (default_socket_path E) opts timeout u") auto
  qed
qed

text \<open>Once a mux was used, an entry point without an explicit port never goes to a serial port.\<close>

lemma connect_with_sticky:
  assumes "o_port opts = None" "connect_with P B E opts True now = Some (r, used)"
  shows "used \<and> (\<forall>d w. r = Ok (d, w) \<longrightarrow> is_mux (d_transport_kind d))"
  using assms connect_mux_sticky_mux by (fastforce simp: connect_with_def Let_def)

lemma try_connect_with_sticky:
  assumes "o_port opts = None" "try_connect_with P B E opts True now = (r, used)"
  shows "used \<and> (\<forall>d w. r = Ok (d, w) \<longrightarrow> is_mux (d_transport_kind d))"
proof (cases "find_mux_socket E now")
  case None
  with assms show ?thesis by (auto simp: try_connect_with_def Let_def)
next
  case (Some path)
  with assms have "used" "r = fst (unix_session P B E path opts (opts_timeout opts) now)"
    by (auto simp: try_connect_with_def Let_def)
  then show ?thesis
    using unix_session_kind [of P B E path opts "opts_timeout opts" now]
    by (cases "unix_session P B E path opts (opts_timeout opts) now") auto
qed

text \<open>The flag records exactly the mux connections: with no explicit port and the flag off,
  a dongle on a mux turns it on and a dongle on a serial port leaves it off.\<close>

lemma connect_with_flag:
  assumes "o_port opts = None" "connect_with P B E opts False now = Some (Ok (d, w), used)"
  shows "used \<longleftrightarrow> is_mux (d_transport_kind d)"
proof -
  obtain r spent where t: "try_tcp_env E (opts_timeout opts) now = (r, spent)" by fastforce
  show ?thesis
  proof (cases r)
    case (Some te)
    with assms t show ?thesis by (cases te) (auto simp: connect_with_def Let_def dest: tcp_session_kind)
  next
    case None
    with assms t show ?thesis
      by (auto simp: connect_with_def Let_def split: option.splits
          dest!: unix_session_kind serial_session_kind)
  qed
qed

end
