(* ===== verification/Format.thy ===== *)
theory Format
  imports RustStd Float32
begin

text \<open>
  The formatting the example programs use: signed integers, padding to a width,
  \<^verbatim>\<open>{:.1}\<close> of an \<^verbatim>\<open>f32\<close>, and \<^verbatim>\<open>String::from_utf8_lossy\<close>, which replaces every
  maximal ill-formed piece of the input by the character U+FFFD.
\<close>

subsection \<open>Numbers\<close>

definition show_int :: "int \<Rightarrow> string" where
  "show_int x = (if x < 0 then ''-'' else '''') @ show_dec (nat \<bar>x\<bar>)"

text \<open>\<^verbatim>\<open>{:>n}\<close>, and \<^verbatim>\<open>{:n}\<close> of a number.\<close>
definition pad_left :: "nat \<Rightarrow> string \<Rightarrow> string" where
  "pad_left n s = replicate (n - length s) (CHR '' '') @ s"

definition show_tenths :: "bool \<Rightarrow> nat \<Rightarrow> string" where
  "show_tenths neg t = (if neg then ''-'' else '''') @ show_dec (t div 10) @ ''.'' @ show_dec (t mod 10)"

definition show_f32_1 :: "f32 \<Rightarrow> string" where
  "show_f32_1 x =
     (case f32_tenths x of
        Some (neg, t) \<Rightarrow> show_tenths neg t
      | None \<Rightarrow> (case x of F32_Inf neg \<Rightarrow> (if neg then ''-inf'' else ''inf'') | _ \<Rightarrow> ''NaN''))"

text \<open>\<^verbatim>\<open>x as f32 / 10.0\<close> printed with one decimal.\<close>
lemma show_f32_tenth:
  assumes "\<bar>x\<bar> < 2 ^ 16"
  shows "show_f32_1 (f32_div (f32_of_int x) (F32_Fin False 10 0)) = show_tenths (x < 0) (nat \<bar>x\<bar>)"
  using assms by (simp add: show_f32_1_def tenths_exact)

subsection \<open>Text from bytes\<close>

definition text_of :: "bytes \<Rightarrow> string" where
  "text_of bs = map (\<lambda>b. char_of (unat b)) bs"

definition as_bytes :: "string \<Rightarrow> bytes" where
  "as_bytes s = map (\<lambda>c. of_nat (of_char c)) s"

text \<open>The ranges of the bytes that may follow a first byte; \<open>None\<close> if none may be first.\<close>
definition utf8_tail :: "u8 \<Rightarrow> (u8 \<times> u8) list option" where
  "utf8_tail b =
     (if b < 0x80 then Some []
      else if b < 0xC2 then None
      else if b < 0xE0 then Some [(0x80, 0xBF)]
      else if b = 0xE0 then Some [(0xA0, 0xBF), (0x80, 0xBF)]
      else if b = 0xED then Some [(0x80, 0x9F), (0x80, 0xBF)]
      else if b < 0xF0 then Some [(0x80, 0xBF), (0x80, 0xBF)]
      else if b = 0xF0 then Some [(0x90, 0xBF), (0x80, 0xBF), (0x80, 0xBF)]
      else if b < 0xF4 then Some [(0x80, 0xBF), (0x80, 0xBF), (0x80, 0xBF)]
      else if b = 0xF4 then Some [(0x80, 0x8F), (0x80, 0xBF), (0x80, 0xBF)]
      else None)"

text \<open>How many of the following bytes fit, and whether all that are needed do.\<close>
fun match_tail :: "(u8 \<times> u8) list \<Rightarrow> bytes \<Rightarrow> nat \<times> bool" where
  "match_tail [] bs = (0, True)"
| "match_tail ((lo, hi) # rs) [] = (0, False)"
| "match_tail ((lo, hi) # rs) (b # bs) =
     (if lo \<le> b \<and> b \<le> hi then (case match_tail rs bs of (n, ok) \<Rightarrow> (Suc n, ok)) else (0, False))"

definition replacement :: bytes where
  "replacement = [0xEF, 0xBF, 0xBD]"

function from_utf8_lossy :: "bytes \<Rightarrow> bytes" where
  "from_utf8_lossy [] = []"
| "from_utf8_lossy (b # bs) =
     (case utf8_tail b of
        None \<Rightarrow> replacement @ from_utf8_lossy bs
      | Some rs \<Rightarrow>
          (case match_tail rs bs of (n, ok) \<Rightarrow>
             (if ok then b # take n bs else replacement) @ from_utf8_lossy (drop n bs)))"
  by pat_completeness auto
termination
  by (relation "measure length") auto

lemma match_tail_take:
  "match_tail rs bs = (n, True) \<Longrightarrow> n \<le> length bs \<and> match_tail rs (take n bs @ cs) = (n, True)"
proof (induction rs bs arbitrary: n rule: match_tail.induct)
  case (3 lo hi rs b bs)
  then show ?case by (auto split: if_splits prod.splits)
qed auto

text \<open>What it returns is well-formed: replacing again changes nothing.\<close>

lemma from_utf8_lossy_replacement: "from_utf8_lossy (replacement @ bs) = replacement @ from_utf8_lossy bs"
  by (simp add: replacement_def utf8_tail_def)

lemma from_utf8_lossy_idem: "from_utf8_lossy (from_utf8_lossy bs) = from_utf8_lossy bs"
proof (induction bs rule: from_utf8_lossy.induct)
  case (2 b bs)
  show ?case
  proof (cases "utf8_tail b")
    case None
    with 2(1) show ?thesis by (simp add: from_utf8_lossy_replacement)
  next
    case (Some rs)
    obtain n ok where m: "match_tail rs bs = (n, ok)" by fastforce
    note ih = 2(2) [OF Some m [symmetric]]
    show ?thesis
    proof (cases ok)
      case False
      with Some m ih show ?thesis by (simp add: from_utf8_lossy_replacement)
    next
      case True
      with m match_tail_take [of rs bs n "from_utf8_lossy (drop n bs)"]
      have "n \<le> length bs" "match_tail rs (take n bs @ from_utf8_lossy (drop n bs)) = (n, True)" by simp_all
      with Some m True ih show ?thesis by simp
    qed
  qed
qed simp

text \<open>Plain ASCII text stays as it is.\<close>

lemma from_utf8_lossy_ascii: "\<forall>b \<in> set bs. b < 0x80 \<Longrightarrow> from_utf8_lossy bs = bs"
  by (induction bs) (simp_all add: utf8_tail_def)

lemma text_of_as_bytes [simp]: "text_of (as_bytes s) = s"
proof -
  have "unat (of_nat (of_char c) :: u8) = of_char c" for c :: char
    by (simp add: unsigned_of_nat take_bit_nat_eq_self)
  then show ?thesis by (induction s) (simp_all add: text_of_def as_bytes_def)
qed

lemma length_as_bytes [simp]: "length (as_bytes s) = length s"
  by (simp add: as_bytes_def)

end
