(* ===== verification/Examples.thy ===== *)
theory Examples
  imports Connect Format
begin

text \<open>
  The programs under \<^verbatim>\<open>examples/\<close>. A program is a function of the environment; its result has
  the lines it printed, in order, and how it ended: with the \<^verbatim>\<open>Result\<close> of \<^verbatim>\<open>main\<close>, by a panic, or
  not yet, because it waits for a device or a packet. The set-up of the log subscriber is left out,
  and so are the turns that the keepalive task (\<open>keepalive_iter\<close>) takes while a program sleeps or waits.
  The fields of \<^verbatim>\<open>Info\<close> and \<^verbatim>\<open>RxPayload\<close> that are printed have no width here: an integer is a
  number.
\<close>

datatype out_line = Stdout string | Stderr string

datatype exit = Returned_Ok | Returned_Err client_error | Panicked | Running

subsection \<open>The shared preset\<close>

text \<open>
  \<open>Khz62\<close>, \<open>Cr4_5\<close> and \<open>Explicit\<close> are values of the protocol crate's enums and stay
  parameters.
\<close>
definition meshcore_us :: "'bw \<Rightarrow> nat \<Rightarrow> nat \<Rightarrow> ('bw full_lora_config, 'o) modulation" where
  "meshcore_us Khz62 Cr4_5 Explicit =
     LoRa \<lparr>freq_hz = 910525000, sf = 7, bw = Khz62, tx_power_dbm = 20, cr = Cr4_5, preamble_len = 16,
       sync_word = 0x1424, header_mode = Explicit, payload_crc = True, iq_invert = False\<rparr>"

subsection \<open>ping\<close>

definition info_lines :: "(full_info \<Rightarrow> string) \<Rightarrow> full_info \<Rightarrow> out_line list" where
  "info_lines debug_chip_id i =
     [Stdout (''firmware: v'' @ show_dec (fw_major i) @ ''.'' @ show_dec (fw_minor i) @ ''.'' @ show_dec (fw_patch i)
        @ '' ('' @ debug_chip_id i @ '')''),
      Stdout (''TX power range: '' @ show_int (sint (tx_power_min_dbm i)) @ '' .. ''
        @ show_int (sint (tx_power_max_dbm i)) @ '' dBm''),
      Stdout (''max OTA payload: '' @ show_dec (max_payload_bytes i) @ '' bytes'')]"

text \<open>With the dongle when the program ends.\<close>
definition ping_main where
  "ping_main P B E debug_chip_id now =
     (case connect P B E False now of
        None \<Rightarrow> ([], Running, None)
      | Some (Err e, _) \<Rightarrow> ([], Returned_Err e, None)
      | Some (Panic, _) \<Rightarrow> ([], Panicked, None)
      | Some (Ok (d, w), _) \<Rightarrow>
          (case d_ping P d w of
             (Err e, d1, w1) \<Rightarrow> ([Stdout ''connected!''], Returned_Err e, Some (drop_dongle d1))
           | (Panic, d1, w1) \<Rightarrow> ([Stdout ''connected!''], Panicked, Some d1)
           | (Ok _, d1, w1) \<Rightarrow>
               ([Stdout ''connected!'', Stdout ''ping ok''] @ info_lines debug_chip_id (info d1),
                Returned_Ok, Some (drop_dongle (d_close d1)))))"

subsection \<open>tx\<close>

text \<open>\<^verbatim>\<open>seq += 1\<close>: in a build with overflow checks the largest number panics.\<close>
definition next_seq :: "bool \<Rightarrow> u32 \<Rightarrow> u32 option" where
  "next_seq checks seq = (if checks \<and> seq = - 1 then None else Some (seq + 1))"

definition greeting :: "u32 \<Rightarrow> string" where
  "greeting seq = ''hello #'' @ show_dec (unat seq)"

fun tx_line :: "u32 \<Rightarrow> tx_done client_result \<Rightarrow> out_line list" where
  "tx_line seq (Ok td) =
     [Stdout (''TX #'' @ show_dec (unat seq) @ '' sent ('' @ show_dec (unat (airtime_us td)) @ '' us airtime)'')]"
| "tx_line seq (Err e) = [Stderr (''TX #'' @ show_dec (unat seq) @ '' failed: '' @ display_error e)]"
| "tx_line seq Panic = []"

text \<open>The loop, for at most \<open>n\<close> turns; it never ends by itself.\<close>
fun tx_loop ::
    "('i, 'm, 'rx, 'd) proto \<Rightarrow> bool \<Rightarrow> nat \<Rightarrow> u32 \<Rightarrow> ('i, 'm, 'rx, 'd) dongle \<Rightarrow> world
      \<Rightarrow> out_line list \<times> exit \<times> ('i, 'm, 'rx, 'd) dongle \<times> world" where
  "tx_loop P checks 0 seq d w = ([], Running, d, w)"
| "tx_loop P checks (Suc n) seq d w =
     (case next_seq checks seq of
        None \<Rightarrow> ([], Panicked, d, w)
      | Some seq' \<Rightarrow>
          (case tx P (as_bytes (greeting seq')) d w of
             (Panic, d1, w1) \<Rightarrow> ([], Panicked, d1, w1)
           | (r, d1, w1) \<Rightarrow>
               (case dongle_sleep P (from_secs 5) d1 w1 of (d2, w2) \<Rightarrow>
                  (case tx_loop P checks n seq' d2 w2 of (out, x) \<Rightarrow> (tx_line seq' r @ out, x)))))"

definition tx_main where
  "tx_main P B E preset n now =
     (case connect_with P B E (with_config preset new_options) False now of
        None \<Rightarrow> ([], Running)
      | Some (Err e, _) \<Rightarrow> ([], Returned_Err e)
      | Some (Panic, _) \<Rightarrow> ([], Panicked)
      | Some (Ok (d, w), _) \<Rightarrow>
          (case tx_loop P (overflow_checks B) n 0 d w of (out, x, _, _) \<Rightarrow>
             (Stdout ''connected; TX ready'' # out, x)))"

subsection \<open>rx\<close>

record rx_payload =
  rssi_tenths_dbm :: int
  snr_tenths_db :: int
  crc_valid :: bool
  rx_data :: bytes

definition rx_line :: "rx_payload \<Rightarrow> string" where
  "rx_line pkt =
     (let rssi_dbm = f32_div (f32_of_int (rssi_tenths_dbm pkt)) (F32_Fin False 10 0);
          snr_db = f32_div (f32_of_int (snr_tenths_db pkt)) (F32_Fin False 10 0);
          text = text_of (from_utf8_lossy (rx_data pkt))
      in ''RX '' @ pad_left 4 (show_dec (length (rx_data pkt))) @ '' bytes  rssi=''
         @ pad_left 6 (show_f32_1 rssi_dbm) @ '' dBm  snr='' @ pad_left 5 (show_f32_1 snr_db)
         @ '' dB  crc='' @ (if crc_valid pkt then ''ok'' else ''bad'') @ ''  \"'' @ text @ ''\"'')"

text \<open>
  The loop over \<^verbatim>\<open>next_rx\<close>, with what it printed. It ends because every turn takes a packet off
  the finite stream of those that arrive.
\<close>
function rx_loop ::
    "('i, 'm, rx_payload, 'd) proto \<Rightarrow> ('i, 'm, rx_payload, 'd) dongle \<Rightarrow> world
      \<Rightarrow> out_line list \<times> exit \<times> ('i, 'm, rx_payload, 'd) dongle \<times> world" where
  "rx_loop P d w =
     (case d_next_rx P d w of
        (Ok (Some (Some pkt)), d1, w1) \<Rightarrow>
          (case rx_loop P d1 w1 of (out, x) \<Rightarrow> (Stdout (rx_line pkt) # out, x))
      | (Ok (Some None), d1, w1) \<Rightarrow> ([], Returned_Ok, d1, w1)
      | (Ok None, d1, w1) \<Rightarrow> ([], Running, d1, w1)
      | (Err e, d1, w1) \<Rightarrow> ([], Panicked, d1, w1)
      | (Panic, d1, w1) \<Rightarrow> ([], Panicked, d1, w1))"
  by pat_completeness auto
termination
  by (relation "measure (\<lambda>(P, d, w). length (dongle_stream P (d, w)))")
    (auto dest!: sym [of "(_, _)" "d_next_rx _ _ _"] next_rx_dop.op_delivers)

declare rx_loop.simps [simp del]

definition rx_main where
  "rx_main P B E preset now =
     (case connect_with P B E (with_config preset new_options) False now of
        None \<Rightarrow> ([], Running)
      | Some (Err e, _) \<Rightarrow> ([], Returned_Err e)
      | Some (Panic, _) \<Rightarrow> ([], Panicked)
      | Some (Ok (d, w), _) \<Rightarrow>
          (case rx_loop P d w of (out, x, _, _) \<Rightarrow> (Stdout ''connected; listening...'' # out, x)))"

subsection \<open>What the programs show\<close>

text \<open>A turn of the receiving loop, by what \<^verbatim>\<open>next_rx\<close> gives.\<close>

lemma rx_loop_step:
  "d_next_rx P d w = (Ok (Some (Some pkt)), d1, w1) \<Longrightarrow> rx_loop P d1 w1 = (out, x) \<Longrightarrow>
    rx_loop P d w = (Stdout (rx_line pkt) # out, x)"
  "d_next_rx P d w = (r, d1, w1) \<Longrightarrow> \<forall>pkt. r \<noteq> Ok (Some (Some pkt)) \<Longrightarrow>
    rx_loop P d w = ([], case r of Ok (Some _) \<Rightarrow> Returned_Ok | Ok None \<Rightarrow> Running | _ \<Rightarrow> Panicked, d1, w1)"
  by (subst rx_loop.simps; auto split: client_result.splits option.splits)+

text \<open>The lines are those of the packets handed out, in order, and nothing is skipped.\<close>

lemma rx_loop_prints:
  "rx_loop P d w = (out, x, d', w') \<Longrightarrow>
    \<exists>pkts. out = map (\<lambda>p. Stdout (rx_line p)) pkts \<and> dongle_stream P (d, w) = pkts @ dongle_stream P (d', w')"
proof (induction P d w arbitrary: out x d' w' rule: rx_loop.induct)
  case (1 P d w)
  obtain r d1 w1 where nx: "d_next_rx P d w = (r, d1, w1)" by (metis prod_cases3)
  note del = next_rx_dop.op_delivers [OF nx]
  show ?case
  proof (cases "\<exists>pkt. r = Ok (Some (Some pkt))")
    case True
    then obtain pkt where r: "r = Ok (Some (Some pkt))" by blast
    obtain out1 x1 d2 w2 where rec: "rx_loop P d1 w1 = (out1, x1, d2, w2)" by (metis prod_cases4)
    from 1(1) [OF nx [unfolded r, symmetric] refl refl refl refl rec] obtain pkts where
      "out1 = map (\<lambda>p. Stdout (rx_line p)) pkts" "dongle_stream P (d1, w1) = pkts @ dongle_stream P (d2, w2)" by blast
    with 1(2) rx_loop_step(1) [OF nx [unfolded r] rec] del r show ?thesis
      by (intro exI [of _ "pkt # pkts"]) simp
  next
    case False
    then have "next_rx_packets r = []" by (cases r rule: next_rx_packets.cases) auto
    with 1(2) rx_loop_step(2) [OF nx] False del show ?thesis by (intro exI [of _ "[]"]) simp
  qed
qed

text \<open>A program that still runs waits for a packet: everything that has arrived is printed.\<close>

lemma recv_loop_waiting:
  "recv_loop P None now arr s = (None, now', rest, s') \<Longrightarrow> rest = [] \<and> rx_queue s' = []"
proof (induction P "None :: instant option" now arr s rule: recv_loop.induct)
  case (1 P now s)
  then show ?case by (auto simp: try_recv_rx_def split: list.splits if_splits)
next
  case (2 P now a rd arr s)
  then show ?case by (auto split: option.splits if_splits)
qed

lemma d_next_rx_waiting:
  assumes "d_next_rx P d w = (Ok None, d', w')"
  shows "dongle_stream P (d', w') = []"
proof -
  obtain r1 d1 w1 where first: "ensure_rx P d w = (r1, d1, w1)" by (metis prod_cases3)
  with assms have "on_session (next_rx P) d1 w1 = (None, d', w')"
    by (cases r1) (auto simp: d_next_rx_def split: if_splits prod.splits)
  then have "arrivals w' = [] \<and> rx_queue (d_session d') = []"
    by (auto simp: on_session_def next_rx_def split: prod.splits dest!: recv_loop_waiting)
  then show ?thesis by (simp add: rx_stream_def rx_view_def)
qed

lemma rx_loop_running: "rx_loop P d w = (out, Running, d', w') \<Longrightarrow> dongle_stream P (d', w') = []"
proof (induction P d w arbitrary: out d' w' rule: rx_loop.induct)
  case (1 P d w)
  obtain r d1 w1 where nx: "d_next_rx P d w = (r, d1, w1)" by (metis prod_cases3)
  show ?case
  proof (cases "\<exists>pkt. r = Ok (Some (Some pkt))")
    case True
    then obtain pkt where r: "r = Ok (Some (Some pkt))" by blast
    obtain out1 x1 d2 w2 where rec: "rx_loop P d1 w1 = (out1, x1, d2, w2)" by (metis prod_cases4)
    with 1(2) rx_loop_step(1) [OF nx [unfolded r] rec] have "rx_loop P d1 w1 = (out1, Running, d', w')" by simp
    from 1(1) [OF nx [unfolded r, symmetric] refl refl refl refl this] show ?thesis .
  next
    case False
    with 1(2) rx_loop_step(2) [OF nx] have "r = Ok None" "d1 = d'" "w1 = w'"
      by (auto split: client_result.splits option.splits)
    with nx d_next_rx_waiting show ?thesis by blast
  qed
qed

text \<open>Calls that cannot panic.\<close>

lemma expect_no_panic:
  "expect_empty P c r \<noteq> Panic" "expect_info P r \<noteq> Panic" "expect_set_config P r \<noteq> Panic" "expect_tx_done P r \<noteq> Panic"
  by (cases r; simp add: unexpected_def split: tx_result.splits)+

lemma command_no_panic:
  assumes "\<And>resp. expect resp \<noteq> Panic"
  shows "fst (command P ty pl t expect s w) \<noteq> Panic"
  using assms send_command_never_panics [of P ty pl t s w]
  by (auto simp: command_def split: prod.splits client_result.splits)

lemma set_config_no_panic: "fst (Commands.set_config P m t s w) \<noteq> Panic"
  by (simp add: set_config_def command_no_panic [OF expect_no_panic(3)] split: sum.splits)

lemma transmit_no_panic:
  assumes "length data < MAX_PAYLOAD_FIELD P"
  shows "fst (transmit P data skip t s w) \<noteq> Panic"
  using assms by (simp add: transmit_def command_no_panic [OF expect_no_panic(4)])

lemma on_session_no_panic: "(\<And>s w. fst (f s w) \<noteq> Panic) \<Longrightarrow> on_session f d w = (r, d', w') \<Longrightarrow> r \<noteq> Panic"
  by (auto simp: on_session_def split: prod.splits) (metis fst_conv)

lemma tx_no_panic:
  assumes "length data < MAX_PAYLOAD_FIELD P"
  shows "fst (tx_with_timeout P data skip t d w) \<noteq> Panic"
proof -
  obtain r1 d1 w1 where first: "on_session (transmit P data skip t) (mark_write w d) w = (r1, d1, w1)"
    by (metis prod_cases3)
  obtain r2 d2 w2 where second: "reapply_config P d1 w1 = (r2, d2, w2)" by (metis prod_cases3)
  obtain r3 d3 w3 where third: "on_session (transmit P data skip t) d2 w2 = (r3, d3, w3)" by (metis prod_cases3)
  note tr = on_session_no_panic [where f = "transmit P data skip t", OF transmit_no_panic [OF assms]]
  have "r1 \<noteq> Panic" "r3 \<noteq> Panic" using tr [OF first] tr [OF third] by simp_all
  moreover have "r2 \<noteq> Panic"
    using second
    by (auto simp: reapply_config_def split: option.splits prod.splits client_result.splits
        dest: on_session_no_panic [where f = "Commands.set_config P m (from_secs 2)" for m, OF set_config_no_panic])
  ultimately show ?thesis using first second third
    by (cases r1; cases r2)
      (auto simp: tx_with_timeout_def recover_and_retry_tx_def check_open_def split: client_error.splits)
qed

lemma length_show_dec: "n < 10 ^ Suc k \<Longrightarrow> length (show_dec n) \<le> Suc k"
proof (induction k arbitrary: n)
  case 0
  then show ?case by (simp add: show_dec.simps)
next
  case (Suc k)
  then have "n div 10 < 10 ^ Suc k" by (simp add: div_less_iff_less_mult)
  then have "length (show_dec (n div 10)) \<le> Suc k" by (rule Suc.IH)
  then show ?case by (subst show_dec.simps) simp
qed

lemma length_greeting: "length (greeting seq) \<le> 17"
proof -
  have "unat seq < 10 ^ Suc 9" using unat_less_2_32 [of seq] by simp
  from length_show_dec [OF this] show ?thesis by (simp add: greeting_def)
qed

lemma next_seq_below: "Suc (unat seq) < 2 ^ 32 \<Longrightarrow> next_seq c seq = Some (seq + 1) \<and> unat (seq + 1) = Suc (unat seq)"
proof -
  assume small: "Suc (unat seq) < 2 ^ 32"
  have u: "unat (seq + 1) = Suc (unat seq)" using small by (simp add: unat_word_ariths)
  moreover have "seq \<noteq> - 1"
  proof
    assume "seq = - 1"
    with u show False by simp
  qed
  ultimately show ?thesis by (simp add: next_seq_def)
qed

text \<open>The sending loop goes on and prints one line per transmission, numbered without gaps.\<close>

lemma tx_loop_runs:
  assumes "17 < MAX_PAYLOAD_FIELD P" "unat seq + n < 2 ^ 32" "tx_loop P checks n seq d w = (out, x, d', w')"
  shows "x = Running \<and> (\<exists>rs. length rs = n \<and> Panic \<notin> set rs
    \<and> out = concat (map2 tx_line (map of_nat [Suc (unat seq)..<Suc (unat seq) + n]) rs))"
  using assms
proof (induction n arbitrary: seq d w out)
  case 0
  then show ?case by simp
next
  case (Suc n)
  let ?seq = "seq + 1"
  have ns: "next_seq checks seq = Some ?seq" "unat ?seq = Suc (unat seq)"
    using next_seq_below [of seq checks] Suc.prems(2) by simp_all
  obtain r d1 w1 where t: "tx P (as_bytes (greeting ?seq)) d w = (r, d1, w1)" by (metis prod_cases3)
  have np: "r \<noteq> Panic"
    using tx_no_panic [of "as_bytes (greeting ?seq)" P False "from_secs 10" d w] t Suc.prems(1) length_greeting [of ?seq]
    by (simp add: tx_def)
  obtain d2 w2 where sl: "dongle_sleep P (from_secs 5) d1 w1 = (d2, w2)" by fastforce
  obtain out1 where rec: "tx_loop P checks n ?seq d2 w2 = (out1, x, d', w')" "out = tx_line ?seq r @ out1"
    using Suc.prems(3) ns(1) t np sl by (auto split: client_result.splits prod.splits)
  from Suc.IH [OF Suc.prems(1) _ rec(1)] Suc.prems(2) ns(2) obtain rs where rs: "x = Running" "length rs = n"
    "Panic \<notin> set rs" "out1 = concat (map2 tx_line (map of_nat [Suc (unat ?seq)..<Suc (unat ?seq) + n]) rs)" by auto
  have "of_nat (Suc (unat seq)) = ?seq" unfolding ns(2) [symmetric] by simp
  moreover have "[Suc (unat seq)..<Suc (unat seq) + Suc n] = Suc (unat seq) # [Suc (unat ?seq)..<Suc (unat ?seq) + n]"
    using ns(2) by (simp add: upt_conv_Cons del: upt_Suc)
  ultimately show ?case using rs rec(2) np
    by (intro conjI exI [of _ "r # rs"]) (simp_all del: upt_Suc of_nat_Suc)
qed

text \<open>A greeting that arrives is printed as it was sent.\<close>

lemma greeting_ascii: "from_utf8_lossy (as_bytes (greeting seq)) = as_bytes (greeting seq)"
proof (rule from_utf8_lossy_ascii)
  have "of_nat (of_char c) < (0x80 :: u8)" if "c \<in> set (show_dec n)" for c n
    using show_dec_digits [OF that] by (auto simp: digit_char_def unsigned_of_nat word_less_nat_alt take_bit_nat_eq_self)
  then show "\<forall>b \<in> set (as_bytes (greeting seq)). b < 0x80"
    by (auto simp: as_bytes_def greeting_def)
qed

lemma rx_line_exact:
  assumes "\<bar>rssi_tenths_dbm pkt\<bar> < 2 ^ 16" "\<bar>snr_tenths_db pkt\<bar> < 2 ^ 16" "rx_data pkt = as_bytes (greeting seq)"
  shows "rx_line pkt =
    ''RX '' @ pad_left 4 (show_dec (length (greeting seq)))
      @ '' bytes  rssi='' @ pad_left 6 (show_tenths (rssi_tenths_dbm pkt < 0) (nat \<bar>rssi_tenths_dbm pkt\<bar>))
      @ '' dBm  snr='' @ pad_left 5 (show_tenths (snr_tenths_db pkt < 0) (nat \<bar>snr_tenths_db pkt\<bar>))
      @ '' dB  crc='' @ (if crc_valid pkt then ''ok'' else ''bad'') @ ''  \"'' @ greeting seq @ ''\"''"
  using assms by (simp add: rx_line_def Let_def show_f32_tenth greeting_ascii)

text \<open>The first example: when it succeeds it has printed five lines and closed its dongle.\<close>

lemma ping_main_ok:
  assumes "ping_main P B E debug_chip_id now = (out, Returned_Ok, x)"
  shows "\<exists>d. x = Some d \<and> d_closed d \<and> \<not> keepalive_handle d
    \<and> out = [Stdout ''connected!'', Stdout ''ping ok''] @ info_lines debug_chip_id (info d)"
proof -
  obtain d w b d1 w1 where c: "connect P B E False now = Some (Ok (d, w), b)" and p: "d_ping P d w = (Ok (), d1, w1)"
    and out: "out = [Stdout ''connected!'', Stdout ''ping ok''] @ info_lines debug_chip_id (info d1)"
      "x = Some (drop_dongle (d_close d1))"
    using assms unfolding ping_main_def by (auto split: option.splits prod.splits client_result.splits)
  have "\<not> d_closed d" using p by (auto simp: d_ping_def check_open_def split: if_splits)
  then have "\<not> d_closed d1" using ping_dop.op_stays [OF p] by simp
  with out show ?thesis
    by (simp add: drop_dongle_def d_close_def abort_keepalive_def Let_def)
qed

text \<open>The second one, from the start: once connected, it runs as its loop does.\<close>

lemma tx_main_runs:
  assumes "17 < MAX_PAYLOAD_FIELD P" "n < 2 ^ 32"
    and "connect_with P B E (with_config preset new_options) False now = Some (Ok (d, w), b)"
  shows "\<exists>rs. length rs = n \<and> Panic \<notin> set rs \<and> tx_main P B E preset n now =
    (Stdout ''connected; TX ready'' # concat (map2 tx_line (map of_nat [1..<Suc n]) rs), Running)"
proof -
  obtain out x d' w' where run: "tx_loop P (overflow_checks B) n 0 d w = (out, x, d', w')" by (metis prod_cases4)
  from tx_loop_runs [OF assms(1) _ run] assms(2) obtain rs where "x = Running" "length rs = n" "Panic \<notin> set rs"
    "out = concat (map2 tx_line (map of_nat [1..<Suc n]) rs)" by auto
  with assms(3) run show ?thesis by (intro exI [of _ rs]) (simp add: tx_main_def)
qed

end
