(* ===== verification/UnitTests.thy ===== *)
theory UnitTests
  imports Interleaving DongleOps Config
begin

text \<open>
  The unit tests of \<^verbatim>\<open>src/session.rs\<close>, \<^verbatim>\<open>src/dongle.rs\<close> and \<^verbatim>\<open>src/connect.rs\<close>, carried
  over to the model: a test is a predicate that runs the model and states the assertions of the test
  function. The mock device at the other end of the duplex stream answers with the tags it reads off
  the frames the client wrote; the test takes them as arguments and asserts that they are the ones on
  the wire. The pauses of the mock are the instants at which its frames arrive. The encoders it uses
  belong to the protocol crate and are a parameter, like the decoders of the client.
\<close>

unbundle bit_operations_syntax

subsection \<open>The mock device\<close>

record ('m, 'rx) device_codec =
  enc_err :: "error_code \<Rightarrow> bytes"
  enc_tx_done :: "tx_done \<Rightarrow> bytes"
  enc_rx :: "'rx \<Rightarrow> bytes"
  enc_set_config_result :: "'m set_config_result \<Rightarrow> bytes"

text \<open>\<^verbatim>\<open>write_frame\<close> of the mock: the encoded frame; it unwraps the result.\<close>
definition device_frame :: "('i, 'm, 'rx, 'd) proto \<Rightarrow> u8 \<Rightarrow> u16 \<Rightarrow> bytes \<Rightarrow> bytes" where
  "device_frame P type_id tag payload =
     (case encode_frame P type_id tag payload of Inr wire \<Rightarrow> wire | Inl e \<Rightarrow> [])"

text \<open>\<^verbatim>\<open>read_one_frame\<close>: the last frame of the bytes, if all of them decode.\<close>
definition read_one_frame :: "('i, 'm, 'rx, 'd) proto \<Rightarrow> bytes \<Rightarrow> (u8 \<times> u16 \<times> bytes) option" where
  "read_one_frame P bs =
     (case decoder_feed P (decoder_new P) bs of
        (d, rs) \<Rightarrow>
          if FrameErr \<in> set rs then None
          else (case rev rs of FrameOk type_id tag payload # _ \<Rightarrow> Some (type_id, tag, payload) | _ \<Rightarrow> None))"

abbreviation device_reads :: "('i, 'm, 'rx, 'd) proto \<Rightarrow> ('i, 'm, 'rx, 'd) session \<Rightarrow> (u8 \<times> u16 \<times> bytes) option list" where
  "device_reads P s \<equiv> map (read_one_frame P) (written s)"

text \<open>The duplex stream: writes succeed at once, and the device's bytes arrive when it sends them.\<close>
definition duplex :: "(instant \<times> bytes) list \<Rightarrow> world" where
  "duplex sent =
     \<lparr>clock = 0, arrivals = map (\<lambda>(a, b). (a, ReadOk b)) sent, write_outcomes = (\<lambda>_. WriteOk),
      write_time = (\<lambda>_. 0), writes = 0, random_range = (\<lambda>_ _. 0), draws = 0\<rparr>"

text \<open>
  What the tests rely on of the codecs: a frame that fits is encoded, and decoding its bytes gives it
  back and leaves the decoder where it was; payloads come back as they were; a garbage frame is an
  error. The nine named error codes have a payload of two bytes.
\<close>
definition codec_laws :: "('i, 'm, 'rx, 'd) proto \<Rightarrow> ('m, 'rx) device_codec \<Rightarrow> bool" where
  "codec_laws P D \<longleftrightarrow>
     distinct_types P \<and> 16 \<le> MAX_PAYLOAD_FIELD P
     \<and> (\<forall>ty tag pl. length pl \<le> MAX_PAYLOAD_FIELD P \<longrightarrow>
          (\<exists>wire. encode_frame P ty tag pl = Inr wire \<and> wire \<noteq> []
             \<and> decoder_feed P (decoder_new P) wire = (decoder_new P, [FrameOk ty tag pl])))
     \<and> snd (decoder_feed P (decoder_new P) [1, 1, 0]) = [FrameErr]
     \<and> (\<forall>c. (\<forall>u. c \<noteq> Unknown u) \<longrightarrow> decode_err_payload P (enc_err D c) = Some c \<and> length (enc_err D c) = 2)
     \<and> (\<forall>td. decode_tx_done P (enc_tx_done D td) = Some td \<and> length (enc_tx_done D td) \<le> MAX_PAYLOAD_FIELD P)
     \<and> parse_ok_for P (TYPE_PING P) [] = Some OkEmpty
     \<and> tx_flags_byte P False AND 1 = 0"

text \<open>The same for the packet and for the SET\_CONFIG answer of a test.\<close>
definition rx_law :: "('i, 'm, 'rx, 'd) proto \<Rightarrow> ('m, 'rx) device_codec \<Rightarrow> 'rx \<Rightarrow> bool" where
  "rx_law P D x \<longleftrightarrow> length (enc_rx D x) \<le> MAX_PAYLOAD_FIELD P \<and> decode_rx P (enc_rx D x) = Some x"

definition set_config_law ::
    "('i, 'm, 'rx, 'd) proto \<Rightarrow> ('m, 'rx) device_codec \<Rightarrow> 'm set_config_result \<Rightarrow> bool" where
  "set_config_law P D r \<longleftrightarrow>
     length (enc_set_config_result D r) \<le> MAX_PAYLOAD_FIELD P
     \<and> parse_ok_for P (TYPE_SET_CONFIG P) (enc_set_config_result D r) = Some (OkSetConfig r)
     \<and> (\<exists>pl. encode_set_config P (current r) = Inr pl \<and> length pl \<le> MAX_PAYLOAD_FIELD P)"

lemma codec_lawsD:
  assumes "codec_laws P D"
  shows "distinct_types P"
    "length pl \<le> MAX_PAYLOAD_FIELD P \<Longrightarrow> encode_frame P ty tag pl = Inr (device_frame P ty tag pl)"
    "length pl \<le> MAX_PAYLOAD_FIELD P \<Longrightarrow> device_frame P ty tag pl \<noteq> []"
    "length pl \<le> MAX_PAYLOAD_FIELD P \<Longrightarrow>
      decoder_feed P (decoder_new P) (device_frame P ty tag pl) = (decoder_new P, [FrameOk ty tag pl])"
    "16 \<le> MAX_PAYLOAD_FIELD P"
proof -
  show "distinct_types P" "16 \<le> MAX_PAYLOAD_FIELD P" using assms by (simp_all add: codec_laws_def)
  have "\<exists>wire. encode_frame P ty tag pl = Inr wire \<and> wire \<noteq> []
      \<and> decoder_feed P (decoder_new P) wire = (decoder_new P, [FrameOk ty tag pl])"
    if "length pl \<le> MAX_PAYLOAD_FIELD P"
    using assms that unfolding codec_laws_def by blast
  then show "length pl \<le> MAX_PAYLOAD_FIELD P \<Longrightarrow> encode_frame P ty tag pl = Inr (device_frame P ty tag pl)"
    "length pl \<le> MAX_PAYLOAD_FIELD P \<Longrightarrow> device_frame P ty tag pl \<noteq> []"
    "length pl \<le> MAX_PAYLOAD_FIELD P \<Longrightarrow>
      decoder_feed P (decoder_new P) (device_frame P ty tag pl) = (decoder_new P, [FrameOk ty tag pl])"
    by (auto simp: device_frame_def)
qed

lemma codec_laws_payload:
  assumes "codec_laws P D"
  shows "snd (decoder_feed P (decoder_new P) [1, 1, 0]) = [FrameErr]"
    "decode_err_payload P (enc_err D ENotConfigured) = Some ENotConfigured"
    "length (enc_err D ENotConfigured) \<le> MAX_PAYLOAD_FIELD P"
    "decode_tx_done P (enc_tx_done D td) = Some td" "length (enc_tx_done D td) \<le> MAX_PAYLOAD_FIELD P"
    "parse_ok_for P (TYPE_PING P) [] = Some OkEmpty" "tx_flags_byte P False AND 1 = 0"
  using assms by (simp_all add: codec_laws_def)

lemma read_device_frame:
  assumes "codec_laws P D" "length pl \<le> MAX_PAYLOAD_FIELD P"
  shows "read_one_frame P (device_frame P ty tag pl) = Some (ty, tag, pl)"
  using codec_lawsD(4) [OF assms] by (simp add: read_one_frame_def)

subsection \<open>Tests of the session\<close>

definition ping_round_trip :: "('i, 'm, 'rx, 'd) proto \<Rightarrow> u16 \<Rightarrow> bool" where
  "ping_round_trip P tag \<longleftrightarrow>
     (case ping P (from_secs 1) (spawn P) (duplex [(0, device_frame P (TYPE_OK P) tag [])]) of (r, s, w) \<Rightarrow>
        device_reads P s = [Some (TYPE_PING P, tag, [])] \<and> r = Ok ())"

definition err_maps_to_client_error :: "('i, 'm, 'rx, 'd) proto \<Rightarrow> ('m, 'rx) device_codec \<Rightarrow> u16 \<Rightarrow> bool" where
  "err_maps_to_client_error P D tag \<longleftrightarrow>
     (case ping P (from_secs 1) (spawn P) (duplex [(0, device_frame P (TYPE_ERR P) tag (enc_err D ENotConfigured))]) of
        (r, s, w) \<Rightarrow> device_reads P s = [Some (TYPE_PING P, tag, [])] \<and> r = Err NotConfigured)"

definition hello :: bytes where
  "hello = [104, 101, 108, 108, 111]"

definition tx_two_phase_completion :: "('i, 'm, 'rx, 'd) proto \<Rightarrow> ('m, 'rx) device_codec \<Rightarrow> u16 \<Rightarrow> bool" where
  "tx_two_phase_completion P D tag \<longleftrightarrow>
     (let td = \<lparr>td_result = Transmitted, airtime_us = 12345\<rparr>
      in case transmit P hello False (from_secs 1) (spawn P)
           (duplex [(0, device_frame P (TYPE_OK P) tag []),
                    (from_millis 10, device_frame P (TYPE_TX_DONE P) tag (enc_tx_done D td))]) of
           (r, s, w) \<Rightarrow>
             (case device_reads P s of
                [Some (ty, tg, payload)] \<Rightarrow> ty = TYPE_TX P \<and> tg = tag \<and> payload ! 0 AND 1 = 0 \<and> drop 1 payload = hello
              | _ \<Rightarrow> False)
             \<and> r = Ok td)"

definition tx_channel_busy_maps_to_error :: "('i, 'm, 'rx, 'd) proto \<Rightarrow> ('m, 'rx) device_codec \<Rightarrow> u16 \<Rightarrow> bool" where
  "tx_channel_busy_maps_to_error P D tag \<longleftrightarrow>
     (let td = \<lparr>td_result = ChannelBusyResult, airtime_us = 0\<rparr>
      in case transmit P [120] False (from_secs 1) (spawn P)
           (duplex [(0, device_frame P (TYPE_OK P) tag []),
                    (from_millis 10, device_frame P (TYPE_TX_DONE P) tag (enc_tx_done D td))]) of
           (r, s, w) \<Rightarrow>
             map (map_option (fst \<circ> snd)) (device_reads P s) = [Some tag] \<and> r = Err ChannelBusy)"

definition async_rx_delivered_to_queue :: "('i, 'm, 'rx, 'd) proto \<Rightarrow> ('m, 'rx) device_codec \<Rightarrow> 'rx \<Rightarrow> bool" where
  "async_rx_delivered_to_queue P D rx \<longleftrightarrow>
     fst (recv_rx P (from_secs 1) (spawn P) (duplex [(0, device_frame P (TYPE_RX P) 0 (enc_rx D rx))])) = Some rx"

text \<open>
  The two tests with more than one task are runs of the concurrent session: the first has two pings
  and a device that answers them in reverse order, the second a ping and a close. What a ping
  returns is its reading of the response.
\<close>
fun ping_result :: "('i, 'm, 'rx, 'd) proto \<Rightarrow> ('i, 'm) task \<Rightarrow> unit client_result option" where
  "ping_result P (Returned (Ok r) ty tag c) = Some (expect_empty P ''PING'' r)"
| "ping_result P (Returned (Err e) ty tag c) = Some (Err e)"
| "ping_result P _ = None"

definition concurrent_sends_correlate_by_tag :: "('i, 'm, 'rx, 'd) proto \<Rightarrow> u16 \<Rightarrow> u16 \<Rightarrow> bool" where
  "concurrent_sends_correlate_by_tag P tag1 tag2 \<longleftrightarrow>
     (\<exists>S. reachable P S
        \<and> device_reads P (sess S) = [Some (TYPE_PING P, tag1, []), Some (TYPE_PING P, tag2, [])] \<and> tag1 \<noteq> tag2
        \<and> taken S = [WorkOk (TYPE_OK P) tag2 [], WorkOk (TYPE_OK P) tag1 []]
        \<and> ping_result P (tasks S 0) = Some (Ok ()) \<and> ping_result P (tasks S 1) = Some (Ok ()))"

definition close_wakes_pending_commands :: "('i, 'm, 'rx, 'd) proto \<Rightarrow> bool" where
  "close_wakes_pending_commands P \<longleftrightarrow>
     (\<exists>S why. reachable P S \<and> tasks S 1 = CloseDone \<and> ping_result P (tasks S 0) = Some (Err (TransportClosed why)))"

definition timeout_removes_pending_slot :: "('i, 'm, 'rx, 'd) proto \<Rightarrow> bool" where
  "timeout_removes_pending_slot P \<longleftrightarrow>
     (case ping P (from_millis 50) (spawn P) (duplex []) of
        (r, s, w) \<Rightarrow> (case r of Err (Timeout _) \<Rightarrow> True | _ \<Rightarrow> False) \<and> pending_map s = [])"

text \<open>\<open>Applied\<close> and \<open>Mine\<close> are values of the crate's enums.\<close>
definition set_config_round_trip ::
    "('i, 'm, 'rx, 'd) proto \<Rightarrow> ('m, 'rx) device_codec \<Rightarrow> u8 \<Rightarrow> u8 \<Rightarrow> 'm \<Rightarrow> u16 \<Rightarrow> bool" where
  "set_config_round_trip P D Applied Mine cfg tag \<longleftrightarrow>
     (let result = SetConfigResult Applied Mine cfg
      in case Commands.set_config P cfg (from_secs 1) (spawn P)
           (duplex [(0, device_frame P (TYPE_OK P) tag (enc_set_config_result D result))]) of
           (r, s, w) \<Rightarrow>
             map (map_option (\<lambda>(t, g, p). (t, g))) (device_reads P s) = [Some (TYPE_SET_CONFIG P, tag)]
             \<and> (case r of Ok got \<Rightarrow> result_code got = Applied \<and> owner got = Mine | _ \<Rightarrow> False))"

definition bad_frame_lands_in_async_err_queue :: "('i, 'm, 'rx, 'd) proto \<Rightarrow> bool" where
  "bad_frame_lands_in_async_err_queue P \<longleftrightarrow>
     (case sleep P (from_millis 50) (spawn P) (duplex [(0, [1, 1, 0])]) of
        (s, w) \<Rightarrow> fst (drain_async_errors s) \<noteq> [])"

lemmas exec_defs =
  spawn_def alloc_tag_def pending_insert_def pending_take_def pending_remove_def drop_sender_def chan_send_def
  wake_all_def push_rx_def try_recv_rx_def push_err_def response_for_def dispatch_async_def dispatch_def
  reader_chunk_def reader_exit_def reader_iter_def write_frame_def await_response_def send_command_def
  recv_rx_def next_rx_def close_def sleep_def unexpected_def command_def ping_def get_info_def
  Commands.set_config_def rx_start_def rx_stop_def transmit_def Let_def duplex_def registered_def
  from_secs_def from_millis_def

lemma distinct_types_sym:
  assumes "distinct_types P"
  shows "TYPE_TX P \<noteq> TYPE_PING P" "TYPE_TX P \<noteq> TYPE_SET_CONFIG P" "TYPE_ERR P \<noteq> TYPE_OK P" "TYPE_RX P \<noteq> TYPE_OK P"
    "TYPE_TX_DONE P \<noteq> TYPE_OK P" "TYPE_TX_DONE P \<noteq> TYPE_ERR P" "TYPE_RX P \<noteq> TYPE_ERR P" "TYPE_TX_DONE P \<noteq> TYPE_RX P"
  using assms by (auto simp: distinct_types_def)

text \<open>Running a test: the definitions, what the codecs do, and how to decide which frame is which.\<close>
lemmas test_run =
  exec_defs codec_lawsD(2-4) read_device_frame codec_laws_payload distinct_typesD [OF codec_lawsD(1)]
  distinct_types_sym [OF codec_lawsD(1)]

lemma ping_round_trip_passes: "codec_laws P D \<Longrightarrow> ping_round_trip P 1"
  unfolding ping_round_trip_def by (simp add: test_run)

lemma err_maps_passes: "codec_laws P D \<Longrightarrow> err_maps_to_client_error P D 1"
  unfolding err_maps_to_client_error_def by (simp add: test_run)

lemma fits_16: "codec_laws P D \<Longrightarrow> length (x # hello) \<le> MAX_PAYLOAD_FIELD P" "codec_laws P D \<Longrightarrow> n \<le> 16 \<Longrightarrow> n \<le> MAX_PAYLOAD_FIELD P"
  using codec_lawsD(5) by (fastforce simp: hello_def)+

lemma tx_two_phase_passes: "codec_laws P D \<Longrightarrow> tx_two_phase_completion P D 1"
  unfolding tx_two_phase_completion_def hello_def by (simp add: test_run fits_16 not_less)

lemma tx_channel_busy_passes: "codec_laws P D \<Longrightarrow> tx_channel_busy_maps_to_error P D 1"
  unfolding tx_channel_busy_maps_to_error_def by (simp add: test_run fits_16 not_less)

lemma async_rx_passes: "codec_laws P D \<Longrightarrow> rx_law P D x \<Longrightarrow> async_rx_delivered_to_queue P D x"
  unfolding async_rx_delivered_to_queue_def rx_law_def by (simp add: test_run)

lemma ping_answer: "codec_laws P D \<Longrightarrow> response_for P (TYPE_PING P) (TYPE_OK P) [] = RespEmpty"
  by (simp add: response_for_def codec_laws_payload)

lemma concurrent_sends_passes:
  assumes "codec_laws P D"
  shows "concurrent_sends_correlate_by_tag P 1 2"
proof -
  note laws = codec_lawsD [OF assms] and t = distinct_typesD [OF codec_lawsD(1) [OF assms]]
  let ?T = "TYPE_PING P"
  let ?p = "\<lambda>c. \<lparr>cmd_type = ?T, waker = c\<rparr>"
  let ?m = "(\<lambda>_. (0, 0))(0 := (?T, 1), 1 := (?T, 2))"
  let ?S = "\<lambda>m ch tk L. \<lparr>sess = (spawn P)\<lparr>next_tag := 3, pending_map := m, chans := ch, next_chan := Suc (Suc 0),
      written := [device_frame P ?T 1 [], device_frame P ?T 2 []]\<rparr>,
    tasks = tk, reader = RTop, aborting = False, meta = ?m, taken = L\<rparr>"
  let ?tk = "(\<lambda>_. Idle)(0 := Waiting ?T 1 0, 1 := Waiting ?T 2 1)"
  let ?B = "WorkOk (TYPE_OK P) 2 []" and ?A = "WorkOk (TYPE_OK P) 1 []"
  let ?a = "Returned (Ok RespEmpty) ?T 1 0" and ?b = "Returned (Ok RespEmpty) ?T 2 1"
  have "reachable P (?S [(1, ?p 0), (2, ?p 1)] (\<lambda>_. ChanOpen) ?tk [])"
    using run_call [OF run_call [OF reachable.init, of P 0 ?T "[]" "device_frame P ?T 1 []"], of 1 ?T "[]"
        "device_frame P ?T 2 []"] laws(2)
    by (simp add: sys_init_def registered_def spawn_def alloc_tag_def pending_insert_def)
  from run_answer [OF this, of "device_frame P (TYPE_OK P) 2 []" "decoder_new P" "TYPE_OK P" 2 "[]" "?p 1"]
  have "reachable P (?S [(1, ?p 0)] ((\<lambda>_. ChanOpen)(1 := ChanSent RespEmpty)) ?tk [?B])"
    using laws(3,4) t by (simp add: spawn_def pending_take_def absorbs_def chan_send_def ping_answer [OF assms])
  from run_answer [OF this, of "device_frame P (TYPE_OK P) 1 []" "decoder_new P" "TYPE_OK P" 1 "[]" "?p 0"]
  have "reachable P (?S [] ((\<lambda>_. ChanOpen)(1 := ChanSent RespEmpty, 0 := ChanSent RespEmpty)) ?tk [?B, ?A])"
    using laws(3,4) t by (simp add: spawn_def pending_take_def absorbs_def chan_send_def ping_answer [OF assms])
  from run_return [OF run_return [OF this, of 0 ?T 1 0 RespEmpty], of 1 ?T 2 1 RespEmpty]
  have "reachable P (?S [] ((\<lambda>_. ChanOpen)(1 := ChanSent RespEmpty, 0 := ChanSent RespEmpty))
      ((\<lambda>_. Idle)(0 := ?a, 1 := ?b)) [?B, ?A])"
    by (simp add: fun_upd_twist)
  then show ?thesis
    unfolding concurrent_sends_correlate_by_tag_def
    by (intro exI conjI) (assumption | simp add: read_device_frame [OF assms])+
qed

lemma close_wakes_passes:
  assumes "codec_laws P D"
  shows "close_wakes_pending_commands P"
proof -
  let ?T = "TYPE_PING P"
  let ?p = "\<lparr>cmd_type = ?T, waker = 0\<rparr>" and ?e = "RespErr (TransportClosed ''session closed'')"
  let ?S = "\<lambda>m ch cl rh ab tk. \<lparr>sess = (spawn P)\<lparr>next_tag := 2, pending_map := m, chans := ch, next_chan := 1,
      reader_handle := rh, closed := cl, written := [device_frame P ?T 1 []]\<rparr>,
    tasks = tk, reader = RTop, aborting = ab, meta = (\<lambda>_. (0, 0))(0 := (?T, 1)), taken = []\<rparr>"
  let ?tk = "\<lambda>c. (\<lambda>_. Idle)(0 := Waiting ?T 1 0, 1 := c)"
  let ?sent = "(\<lambda>_. ChanOpen)(0 := ChanSent ?e)"
  have "reachable P (?S [(1, ?p)] (\<lambda>_. ChanOpen) False True False ((\<lambda>_. Idle)(0 := Waiting ?T 1 0)))"
    using run_call [OF reachable.init, of P 0 ?T "[]" "device_frame P ?T 1 []"] codec_lawsD(2) [OF assms]
    by (simp add: sys_init_def registered_def spawn_def alloc_tag_def pending_insert_def)
  from reach_close [OF this close_step.store [where i = 1]]
  have "reachable P (?S [(1, ?p)] (\<lambda>_. ChanOpen) True True False (?tk CloseTaking))" by (simp add: spawn_def)
  from reach_close [OF this close_step.take [where i = 1]]
  have "reachable P (?S [] (\<lambda>_. ChanOpen) True True False (?tk (CloseWaking [?p])))" by (simp add: spawn_def)
  from reach_close [OF this close_step.wake [where i = 1 and p = ?p]]
  have "reachable P (?S [] ?sent True True False (?tk (CloseWaking [])))" by (simp add: chan_send_def spawn_def)
  from reach_close [OF this close_step.woken [where i = 1]]
  have "reachable P (?S [] ?sent True True False (?tk CloseAborting))" by simp
  from reach_close [OF this close_step.abort [where i = 1]]
  have "reachable P (?S [] ?sent True False True (?tk CloseDone))" by (simp add: spawn_def)
  from run_return [OF this, of 0 ?T 1 0 ?e]
  have "reachable P (?S [] ?sent True False True ((?tk CloseDone)(0 := Returned (Ok ?e) ?T 1 0)))" by simp
  then show ?thesis
    unfolding close_wakes_pending_commands_def by (intro exI conjI) (assumption | simp)+
qed

lemma timeout_removes_passes: "codec_laws P D \<Longrightarrow> timeout_removes_pending_slot P"
  unfolding timeout_removes_pending_slot_def by (simp add: test_run)

lemma set_config_passes:
  "codec_laws P D \<Longrightarrow> set_config_law P D (SetConfigResult Applied Mine cfg) \<Longrightarrow>
    set_config_round_trip P D Applied Mine cfg 1"
  unfolding set_config_round_trip_def set_config_law_def by (auto simp: test_run)

lemma bad_frame_passes: "codec_laws P D \<Longrightarrow> bad_frame_lands_in_async_err_queue P"
  unfolding bad_frame_lands_in_async_err_queue_def
  using codec_laws_payload(1) [of P D]
  by (cases "decoder_feed P (decoder_new P) [1, 1, 0]")
    (simp add: test_run drain_async_errors_def drain_loop_eq)

lemmas session_tests_pass =
  ping_round_trip_passes err_maps_passes tx_two_phase_passes tx_channel_busy_passes concurrent_sends_passes
  close_wakes_passes timeout_removes_passes bad_frame_passes

subsection \<open>Tests of the dongle\<close>

text \<open>The device information and the configuration of these tests do not matter to them.\<close>

abbreviation test_dongle ::
    "('i, 'm, 'rx, 'd) proto \<Rightarrow> 'i \<Rightarrow> 'm option \<Rightarrow> bool \<Rightarrow> ('i, 'm, 'rx, 'd) dongle" where
  "test_dongle P i cfg keepalive \<equiv> new (spawn P) i (Serial ''/dev/test'') cfg keepalive (duplex [])"

definition tx_success_path ::
    "('i, 'm, 'rx, 'd) proto \<Rightarrow> ('m, 'rx) device_codec \<Rightarrow> 'i \<Rightarrow> 'm \<Rightarrow> u16 \<Rightarrow> bool" where
  "tx_success_path P D i cfg tag \<longleftrightarrow>
     (case tx P hello (test_dongle P i (Some cfg) False)
        (duplex [(from_millis 1, device_frame P (TYPE_OK P) tag []),
                 (from_millis 11, device_frame P (TYPE_TX_DONE P) tag
                    (enc_tx_done D \<lparr>td_result = Transmitted, airtime_us = 7777\<rparr>))]) of
        (r, d, w) \<Rightarrow>
          map (map_option (\<lambda>(t, g, p). (t, g))) (device_reads P (d_session d)) = [Some (TYPE_TX P, tag)]
          \<and> (case r of Ok td \<Rightarrow> airtime_us td = 7777 | _ \<Rightarrow> False))"

definition busy_policy :: retry_policy where
  "busy_policy =
     \<lparr>max_attempts = 3, backoff_ms_min = 1, backoff_ms_max = 1, backoff_multiplier = F32_Fin False 1 0,
      backoff_cap_ms = 10, per_attempt_timeout = from_secs 1, skip_cad = False\<rparr>"

definition tx_with_retry_succeeds_after_channel_busy ::
    "('i, 'm, 'rx, 'd) proto \<Rightarrow> ('m, 'rx) device_codec \<Rightarrow> 'i \<Rightarrow> 'm \<Rightarrow> u16 \<Rightarrow> u16 \<Rightarrow> bool" where
  "tx_with_retry_succeeds_after_channel_busy P D i cfg tag1 tag2 \<longleftrightarrow>
     (case tx_with_retry P [104, 105] busy_policy (test_dongle P i (Some cfg) False)
        (duplex [(from_millis 1, device_frame P (TYPE_OK P) tag1 []),
                 (from_millis 6, device_frame P (TYPE_TX_DONE P) tag1
                    (enc_tx_done D \<lparr>td_result = ChannelBusyResult, airtime_us = 0\<rparr>)),
                 (from_millis 8, device_frame P (TYPE_OK P) tag2 []),
                 (from_millis 13, device_frame P (TYPE_TX_DONE P) tag2
                    (enc_tx_done D \<lparr>td_result = Transmitted, airtime_us = 9000\<rparr>))]) of
        (r, d, w) \<Rightarrow>
          map (map_option (fst \<circ> snd)) (device_reads P (d_session d)) = [Some tag1, Some tag2] \<and> tag1 \<noteq> tag2
          \<and> (case r of Ok out \<Rightarrow> attempts_used out = 2 \<and> had_retries out \<and> final_airtime_us out = 9000 | _ \<Rightarrow> False))"

definition tx_auto_recovers_from_not_configured ::
    "('i, 'm, 'rx, 'd) proto \<Rightarrow> ('m, 'rx) device_codec \<Rightarrow> 'i \<Rightarrow> u8 \<Rightarrow> u8 \<Rightarrow> 'm \<Rightarrow> u16 \<Rightarrow> u16 \<Rightarrow> u16 \<Rightarrow> bool" where
  "tx_auto_recovers_from_not_configured P D i Applied Mine cfg tag1 tag_set tag2 \<longleftrightarrow>
     (case tx P [97, 98, 99] (test_dongle P i (Some cfg) False)
        (duplex [(from_millis 1, device_frame P (TYPE_ERR P) tag1 (enc_err D ENotConfigured)),
                 (from_millis 2, device_frame P (TYPE_OK P) tag_set (enc_set_config_result D (SetConfigResult Applied Mine cfg))),
                 (from_millis 3, device_frame P (TYPE_OK P) tag2 []),
                 (from_millis 8, device_frame P (TYPE_TX_DONE P) tag2
                    (enc_tx_done D \<lparr>td_result = Transmitted, airtime_us = 1234\<rparr>))]) of
        (r, d, w) \<Rightarrow>
          map (map_option (\<lambda>(t, g, p). (t, g))) (device_reads P (d_session d))
            = [Some (TYPE_TX P, tag1), Some (TYPE_SET_CONFIG P, tag_set), Some (TYPE_TX P, tag2)]
          \<and> (case r of Ok td \<Rightarrow> airtime_us td = 1234 | _ \<Rightarrow> False))"

definition drop_aborts_keepalive :: "('i, 'm, 'rx, 'd) proto \<Rightarrow> 'i \<Rightarrow> bool" where
  "drop_aborts_keepalive P i \<longleftrightarrow>
     (let d = test_dongle P i None True in keepalive_handle d \<and> \<not> keepalive_handle (drop_dongle d))"

lemmas dongle_run =
  new_def check_open_def mark_write_def on_session_def dongle_sleep_def tx_def tx_with_timeout_def
  reapply_config_def recover_and_retry_tx_def busy_policy_def jitter_ms_def saturating_sub_def backoff_wait_def
  attempts_used_def had_retries_def

lemma tx_success_passes: "codec_laws P D \<Longrightarrow> tx_success_path P D i cfg 1"
  unfolding tx_success_path_def hello_def by (simp add: test_run dongle_run fits_16 not_less)

lemma busy_attempts: "unat (max_attempts busy_policy) = Suc (Suc (Suc 0))"
  by (simp add: busy_policy_def)

lemma retry_test_passes: "codec_laws P D \<Longrightarrow> tx_with_retry_succeeds_after_channel_busy P D i cfg 1 2"
  unfolding tx_with_retry_succeeds_after_channel_busy_def tx_with_retry_def busy_attempts
  by (simp add: test_run dongle_run fits_16 not_less)

lemma recovery_test_passes:
  assumes "codec_laws P D" "set_config_law P D (SetConfigResult Applied Mine cfg)"
  shows "tx_auto_recovers_from_not_configured P D i Applied Mine cfg 1 2 3"
proof -
  obtain pl where "encode_set_config P cfg = Inr pl" "length pl \<le> MAX_PAYLOAD_FIELD P"
    using assms(2) by (auto simp: set_config_law_def)
  with assms show ?thesis
    unfolding tx_auto_recovers_from_not_configured_def set_config_law_def
    by (simp add: test_run dongle_run fits_16 not_less)
qed

lemma drop_test_passes: "drop_aborts_keepalive P i"
  by (simp add: drop_aborts_keepalive_def new_def drop_dongle_def abort_keepalive_def)

lemmas dongle_tests_pass = tx_success_passes retry_test_passes

subsection \<open>Tests of the configuration check\<close>

definition test_info :: "nat \<Rightarrow> nat \<Rightarrow> nat \<Rightarrow> nat \<Rightarrow> i8 \<Rightarrow> i8 \<Rightarrow> u32 \<Rightarrow> u32 \<Rightarrow> u16 \<Rightarrow> u16 \<Rightarrow> full_info" where
  "test_info sx1262 caps mcu radio tx_min tx_max freq_min freq_max sf_bm bw_bm =
     \<lparr>freq_min_hz = freq_min, freq_max_hz = freq_max, supported_sf_bitmap = sf_bm, supported_bw_bitmap = bw_bm,
      tx_power_min_dbm = tx_min, tx_power_max_dbm = tx_max, proto_major = 1, proto_minor = 0, fw_major = 0,
      fw_minor = 0, fw_patch = 0, radio_chip_id = sx1262, capability_bitmap = caps, max_payload_bytes = 255,
      rx_queue_capacity = 32, tx_queue_capacity = 1, mcu_uid_len = 0, mcu_uid = replicate mcu 0, radio_uid_len = 0,
      radio_uid = replicate radio 0\<rparr>"

definition test_lora :: "nat \<Rightarrow> nat \<Rightarrow> u32 \<Rightarrow> u8 \<Rightarrow> 'bw \<Rightarrow> i8 \<Rightarrow> 'bw full_lora_config" where
  "test_lora Cr4_5 Explicit freq sf0 bw0 dbm =
     \<lparr>freq_hz = freq, sf = sf0, bw = bw0, tx_power_dbm = dbm, cr = Cr4_5, preamble_len = 8, sync_word = 0x3444,
      header_mode = Explicit, payload_crc = True, iq_invert = False\<rparr>"

definition SUB_GHZ_ALL_SF :: u16 where "SUB_GHZ_ALL_SF = 0x1FE0"
definition SX127X_SF :: u16 where "SX127X_SF = 0x1FC0"
definition SUB_GHZ_BW :: u16 where "SUB_GHZ_BW = 0x03FF"

definition contains :: "string \<Rightarrow> string \<Rightarrow> bool" where
  "contains s part \<longleftrightarrow> (\<exists>i \<in> {0..length s}. take (length part) (drop i s) = part)"

text \<open>The seven tests, for a device and a configuration built as they build them.\<close>

type_synonym ('bw, 'o) test_check =
  "full_info \<Rightarrow> ('bw full_lora_config, 'o) modulation \<Rightarrow> ('bw full_lora_config, 'o) modulation client_result"

definition tx_power_above_max_clamps_down where
  "tx_power_above_max_clamps_down (prepare :: ('bw, 'o) test_check) chip caps mcu radio c h khz125 \<longleftrightarrow>
     (case prepare (test_info chip caps mcu radio (- 9) 20 863000000 928000000 SUB_GHZ_ALL_SF SUB_GHZ_BW)
        (LoRa (test_lora c h 915000000 7 khz125 30)) of
        Ok (LoRa out) \<Rightarrow> tx_power_dbm out = 20 \<and> freq_hz out = 915000000 | _ \<Rightarrow> False)"

definition tx_power_below_min_clamps_up where
  "tx_power_below_min_clamps_up (prepare :: ('bw, 'o) test_check) chip caps mcu radio c h khz125 \<longleftrightarrow>
     (case prepare (test_info chip caps mcu radio 2 20 863000000 928000000 SUB_GHZ_ALL_SF SUB_GHZ_BW)
        (LoRa (test_lora c h 915000000 7 khz125 (- 30))) of
        Ok (LoRa out) \<Rightarrow> tx_power_dbm out = 2 | _ \<Rightarrow> False)"

definition tx_power_in_range_unchanged where
  "tx_power_in_range_unchanged (prepare :: ('bw, 'o) test_check) chip caps mcu radio c h khz125 \<longleftrightarrow>
     (case prepare (test_info chip caps mcu radio (- 9) 22 863000000 928000000 SUB_GHZ_ALL_SF SUB_GHZ_BW)
        (LoRa (test_lora c h 915000000 7 khz125 17)) of
        Ok (LoRa out) \<Rightarrow> tx_power_dbm out = 17 | _ \<Rightarrow> False)"

definition freq_out_of_range_rejected where
  "freq_out_of_range_rejected (prepare :: ('bw, 'o) test_check) chip caps mcu radio c h khz125 \<longleftrightarrow>
     (case prepare (test_info chip caps mcu radio (- 9) 22 863000000 928000000 SUB_GHZ_ALL_SF SUB_GHZ_BW)
        (LoRa (test_lora c h 300000000 7 khz125 14)) of
        Err (ConfigNotSupported reason) \<Rightarrow> contains reason ''frequency'' | _ \<Rightarrow> False)"

definition sf5_rejected_on_sx127x_bitmap where
  "sf5_rejected_on_sx127x_bitmap (prepare :: ('bw, 'o) test_check) chip caps mcu radio c h khz125 \<longleftrightarrow>
     (case prepare (test_info chip caps mcu radio 2 20 863000000 1020000000 SX127X_SF SUB_GHZ_BW)
        (LoRa (test_lora c h 915000000 5 khz125 14)) of
        Err (ConfigNotSupported reason) \<Rightarrow> contains reason ''SF5'' | _ \<Rightarrow> False)"

definition bw_not_in_bitmap_rejected where
  "bw_not_in_bitmap_rejected (prepare :: ('bw, 'o) test_check) chip caps mcu radio c h khz200 \<longleftrightarrow>
     (case prepare (test_info chip caps mcu radio (- 9) 22 863000000 928000000 SUB_GHZ_ALL_SF SUB_GHZ_BW)
        (LoRa (test_lora c h 915000000 7 khz200 14)) of
        Err (ConfigNotSupported reason) \<Rightarrow> contains reason ''bandwidth'' | _ \<Rightarrow> False)"

definition non_lora_modulation_passes_through where
  "non_lora_modulation_passes_through (prepare :: ('bw, 'o) test_check) chip caps mcu radio fsk \<longleftrightarrow>
     (case prepare (test_info chip caps mcu radio (- 9) 22 863000000 928000000 SUB_GHZ_ALL_SF SUB_GHZ_BW) (NonLoRa fsk) of
        Ok (NonLoRa _) \<Rightarrow> True | _ \<Rightarrow> False)"

text \<open>The bandwidths of the tests: one whose bit is in the sub-GHz bitmap, one whose bit is the tenth.\<close>
definition test_bandwidths :: "'bw build \<Rightarrow> 'bw \<Rightarrow> 'bw \<Rightarrow> bool" where
  "test_bandwidths B khz125 khz200 \<longleftrightarrow> unat (bw_as_u8 B khz125) < 10 \<and> bw_as_u8 B khz200 = 10"

lemma contains_prefix: "contains (part @ rest) part"
  by (auto simp: contains_def intro!: bexI [of _ 0])

lemma low_bit_set:
  assumes "unat b < 10"
  shows "has_bit c SUB_GHZ_BW b = Some True"
proof -
  have m: "(0x03FF :: u16) = mask 10" by (simp add: mask_eq_exp_minus_1)
  have "bit ((0x03FF :: u16) AND push_bit (unat b) 1) (unat b)"
    using assms by (simp add: m bit_simps)
  then have "(0x03FF :: u16) AND push_bit (unat b) 1 \<noteq> 0" by (metis bit_0_eq bot_apply bot_bool_def)
  then show ?thesis using assms by (simp add: has_bit_def shl1_u16_def SUB_GHZ_BW_def)
qed

lemma show_dec_5: "show_dec 5 = ''5''"
  by code_simp

lemma sf_bits:
  "has_bit c SUB_GHZ_ALL_SF 7 = Some True" "has_bit c SX127X_SF 5 = Some False" "has_bit c SUB_GHZ_BW 10 = Some False"
  by (simp_all add: has_bit_def shl1_u16_def SUB_GHZ_ALL_SF_def SX127X_SF_def SUB_GHZ_BW_def)

lemmas check_run = prepare_lora_config_def test_info_def test_lora_def sf_bits low_bit_set clamp_power_def

lemma power_tests_pass:
  assumes "unat (bw_as_u8 B khz125) < 10"
  shows "tx_power_above_max_clamps_down (prepare_config B) chip caps mcu radio c h khz125"
    "tx_power_below_min_clamps_up (prepare_config B) chip caps mcu radio c h khz125"
    "tx_power_in_range_unchanged (prepare_config B) chip caps mcu radio c h khz125"
  using assms
  by (simp_all add: tx_power_above_max_clamps_down_def tx_power_below_min_clamps_up_def
      tx_power_in_range_unchanged_def check_run)

lemma rejection_tests_pass:
  assumes "bw_as_u8 B khz200 = 10"
  shows "freq_out_of_range_rejected (prepare_config B) chip caps mcu radio c h khz125"
    "sf5_rejected_on_sx127x_bitmap (prepare_config B) chip caps mcu radio c h khz125"
    "bw_not_in_bitmap_rejected (prepare_config B) chip caps mcu radio c h khz200"
proof -
  show "freq_out_of_range_rejected (prepare_config B) chip caps mcu radio c h khz125"
    using contains_prefix [of "''frequency''"]
    by (simp add: freq_out_of_range_rejected_def check_run freq_reason_def)
  show "sf5_rejected_on_sx127x_bitmap (prepare_config B) chip caps mcu radio c h khz125"
    using contains_prefix [of "''SF5''"]
    by (simp add: sf5_rejected_on_sx127x_bitmap_def check_run sf_reason_def show_dec_5)
  show "bw_not_in_bitmap_rejected (prepare_config B) chip caps mcu radio c h khz200"
    using contains_prefix [of "''bandwidth''"] assms
    by (simp add: bw_not_in_bitmap_rejected_def check_run bw_reason_def)
qed

lemma non_lora_test_passes: "non_lora_modulation_passes_through (prepare_config B) chip caps mcu radio fsk"
  by (simp add: non_lora_modulation_passes_through_def)

end
