(* ===== verification/Demo.thy ===== *)
theory Demo
  imports Examples UnitTests
begin

text \<open>
  A small instance of the parameters, on which the theorems are applied at concrete inputs: a
  codec whose frames are their type, the low byte of their tag and the payload, delivered one per
  read, and a device that answers every command at once.
\<close>

definition demo_info :: device_info where
  "demo_info = \<lparr>freq_min_hz = 863000000, freq_max_hz = 928000000, supported_sf_bitmap = 0x1FE0,
    supported_bw_bitmap = 0x3FF, tx_power_min_dbm = -9, tx_power_max_dbm = 22\<rparr>"

definition demo_lora :: "u8 lora_config" where
  "demo_lora = \<lparr>freq_hz = 868000000, sf = 7, bw = 7, tx_power_dbm = 14\<rparr>"

definition demo_build :: "bool \<Rightarrow> u8 build" where
  "demo_build checks = \<lparr>overflow_checks = checks, bw_as_u8 = id, debug_bw = (\<lambda>_. ''Khz125'')\<rparr>"

definition demo_proto ::
    "(device_info, (u8 lora_config, unit) modulation, bytes, unit) proto" where
  "demo_proto =
     \<lparr>TYPE_PING = 1, TYPE_GET_INFO = 2, TYPE_SET_CONFIG = 3, TYPE_TX = 4, TYPE_RX_START = 5, TYPE_RX_STOP = 6,
      TYPE_OK = 128, TYPE_ERR = 129, TYPE_RX = 192, TYPE_TX_DONE = 193, MAX_PAYLOAD_FIELD = 8,
      encode_frame = (\<lambda>ty tag pl. if length pl \<le> 8 then Inr (ty # ucast tag # pl) else Inl ''payload too large''),
      decoder_new = (),
      decoder_feed = (\<lambda>_ bs. ((), case bs of ty # tag # pl \<Rightarrow> [FrameOk ty (ucast tag) pl] | _ \<Rightarrow> [FrameErr])),
      decode_rx = Some,
      decode_err_payload = (\<lambda>bs. case bs of [b] \<Rightarrow> Some (if b = 3 then ENotConfigured else EBusy) | _ \<Rightarrow> None),
      decode_tx_done = (\<lambda>bs. case bs of
          [r] \<Rightarrow> Some \<lparr>td_result = if r = 0 then Transmitted else ChannelBusyResult, airtime_us = 7\<rparr>
        | _ \<Rightarrow> None),
      parse_ok_for = (\<lambda>cmd _. if cmd = 2 then Some (OkInfo demo_info)
        else if cmd = 3 then Some (OkSetConfig (SetConfigResult 0 0 (LoRa demo_lora)))
        else Some OkEmpty),
      encode_set_config = (\<lambda>_. Inr [0]),
      tx_flags_byte = (\<lambda>b. if b then 1 else 0),
      debug_info = (\<lambda>_. ''Info''), debug_set_config_result = (\<lambda>_. ''Result''), debug_tx_done = (\<lambda>_. ''Done'')\<rparr>"

text \<open>A world in which the given frames arrive at the given instants.\<close>
definition demo_world :: "(instant \<times> bytes) list \<Rightarrow> world" where
  "demo_world frames =
     \<lparr>clock = 0, arrivals = map (\<lambda>(a, b). (a, ReadOk b)) frames, write_outcomes = (\<lambda>_. WriteOk), write_time = (\<lambda>_. 0), writes = 0,
      random_range = (\<lambda>_ s. s), draws = 0\<rparr>"

lemmas demo_defs = demo_info_def demo_lora_def demo_build_def demo_proto_def demo_world_def

text \<open>The definitions a run of the model unfolds.\<close>
lemmas run_defs =
  spawn_def alloc_tag_def pending_insert_def pending_take_def pending_remove_def drop_sender_def chan_send_def
  wake_all_def push_rx_def try_recv_rx_def push_err_def response_for_def dispatch_async_def dispatch_def
  reader_chunk_def reader_exit_def reader_iter_def write_frame_def await_response_def send_command_def
  recv_rx_def next_rx_def close_def sleep_def unexpected_def command_def ping_def get_info_def
  Commands.set_config_def rx_start_def rx_stop_def transmit_def Let_def

lemma demo_ping: "fst (ping demo_proto 5 (spawn demo_proto) (demo_world [(3, [128, 1])])) = Ok ()"
  by (simp add: run_defs demo_defs)

lemma demo_connect:
  "\<exists>d w. finalize demo_proto (demo_build True) (demo_world [(1, [128, 1]), (2, [128, 2]), (3, [128, 3])])
     (Serial ''/dev/ttyACM0'') (with_config (LoRa demo_lora) new_options) 5 = Ok (d, w)"
  by (simp add: run_defs demo_defs finalize_def probe_def with_config_def new_options_def default_options_def
     prepare_lora_config_def has_bit_def shl1_u16_def clamp_power_def)

definition demo_dongle ::
    "(device_info, (u8 lora_config, unit) modulation, bytes, unit) dongle" where
  "demo_dongle = new (spawn demo_proto) demo_info (Serial ''/dev/ttyACM0'') (Some (LoRa demo_lora)) True (demo_world [])"

text \<open>No mux, and a native device that appears at the fourth poll; opening it fails.\<close>
definition demo_env :: "(unit, unit, unit) environment" where
  "demo_env =
     \<lparr>env_var = (\<lambda>_. None), path_exists = (\<lambda>_ _. False),
      available_ports = (\<lambda>t. Some (if t < from_millis 1500 then []
        else [\<lparr>port_name = ''/dev/ttyACM0'', port_type = UsbPort \<lparr>vid = 0x1209, pid = 0x5741\<rparr>\<rparr>])),
      open_native_async = (\<lambda>_ _ _. Inl ''busy''), unix_stream_connect = (\<lambda>_ _. (0, Inl ''refused'')),
      tcp_stream_connect = (\<lambda>_ _. (0, Inl ''refused'')), set_nodelay = Inr, traffic = (\<lambda>_. demo_world [])\<rparr>"

lemmas dongle_defs =
  demo_dongle_def new_def check_open_def mark_write_def on_session_def dongle_sleep_def tx_with_timeout_def
  tx_with_retry_def reapply_config_def recover_and_retry_tx_def default_policy_def from_secs_def from_millis_def

lemma demo_attempts: "unat (max_attempts default_policy) = Suc (Suc (Suc 0))"
  by (simp add: default_policy_def)

lemma demo_retry:
  "\<exists>out d' w'. tx_with_retry demo_proto [65] default_policy demo_dongle
      (demo_world [(1, [193, 1, 1]), (150000000, [193, 2, 0])]) = (Ok out, d', w') \<and> length (attempts out) = 2"
  unfolding tx_with_retry_def demo_attempts
  by (simp add: run_defs demo_defs dongle_defs jitter_ms_def saturating_sub_def backoff_wait_def)

lemma demo_give_up:
  "\<exists>d' w'. tx_with_retry demo_proto [65] (default_policy\<lparr>max_attempts := 1\<rparr>) demo_dongle
      (demo_world [(1, [193, 1, 1])]) = (Err ChannelBusy, d', w')"
  by (simp add: run_defs demo_defs dongle_defs)

subsection \<open>A codec that keeps the laws of the tests\<close>

unbundle bit_operations_syntax

text \<open>A frame is a marker, its type, the two bytes of its tag and the payload; other bytes are garbage.\<close>

definition bytes_of_u16 :: "u16 \<Rightarrow> bytes" where
  "bytes_of_u16 w = [ucast w, ucast (drop_bit 8 w)]"

definition u16_of_bytes :: "u8 \<Rightarrow> u8 \<Rightarrow> u16" where
  "u16_of_bytes a b = ucast a OR push_bit 8 (ucast b)"

definition bytes_of_u32 :: "u32 \<Rightarrow> bytes" where
  "bytes_of_u32 w = [ucast w, ucast (drop_bit 8 w), ucast (drop_bit 16 w), ucast (drop_bit 24 w)]"

definition u32_of_bytes :: "u8 \<Rightarrow> u8 \<Rightarrow> u8 \<Rightarrow> u8 \<Rightarrow> u32" where
  "u32_of_bytes a b c d = ucast a OR push_bit 8 (ucast b) OR push_bit 16 (ucast c) OR push_bit 24 (ucast d)"

lemma u16_of_bytes_of [simp]: "u16_of_bytes (ucast w) (ucast (drop_bit 8 w)) = w"
  by (rule bit_word_eqI) (auto simp: u16_of_bytes_def bit_simps)

lemma u32_of_bytes_of [simp]:
  "u32_of_bytes (ucast w) (ucast (drop_bit 8 w)) (ucast (drop_bit 16 w)) (ucast (drop_bit 24 w)) = w"
proof (rule bit_word_eqI)
  fix n
  assume "n < LENGTH(32)"
  then consider "n < 8" | "8 \<le> n" "n < 16" | "16 \<le> n" "n < 24" | "24 \<le> n" "n < 32" by fastforce
  then show "bit (u32_of_bytes (ucast w) (ucast (drop_bit 8 w)) (ucast (drop_bit 16 w)) (ucast (drop_bit 24 w))) n = bit w n"
    by cases (simp_all add: u32_of_bytes_def bit_simps less_diff_conv2)
qed

fun plain_decode :: "bytes \<Rightarrow> frame_result" where
  "plain_decode (mark # ty # a # b # pl) = (if mark = 255 then FrameOk ty (u16_of_bytes a b) pl else FrameErr)"
| "plain_decode _ = FrameErr"

fun plain_err :: "error_code \<Rightarrow> u16" where
  "plain_err ENotConfigured = 1" | "plain_err EBusy = 2" | "plain_err EParam = 3" | "plain_err ELength = 4"
| "plain_err EModulation = 5" | "plain_err EUnknownCmd = 6" | "plain_err ERadio = 7" | "plain_err EFrame = 8"
| "plain_err EInternal = 9" | "plain_err (Unknown c) = c"

fun plain_result :: "tx_result \<Rightarrow> u8" where
  "plain_result Transmitted = 0" | "plain_result ChannelBusyResult = 1" | "plain_result CancelledResult = 2"

definition plain_codec :: "(bytes, bytes) device_codec" where
  "plain_codec =
     \<lparr>enc_err = (\<lambda>c. bytes_of_u16 (plain_err c)),
      enc_tx_done = (\<lambda>td. plain_result (td_result td) # bytes_of_u32 (airtime_us td)),
      enc_rx = id, enc_set_config_result = (\<lambda>r. result_code r # owner r # current r)\<rparr>"

fun plain_decode_err :: "bytes \<Rightarrow> error_code option" where
  "plain_decode_err [a, b] =
     (let c = u16_of_bytes a b
      in case find (\<lambda>e. plain_err e = c)
           [ENotConfigured, EBusy, EParam, ELength, EModulation, EUnknownCmd, ERadio, EFrame, EInternal] of
           Some e \<Rightarrow> Some e | None \<Rightarrow> Some (Unknown c))"
| "plain_decode_err _ = None"

fun plain_decode_tx_done :: "bytes \<Rightarrow> tx_done option" where
  "plain_decode_tx_done [r, a, b, c, d] =
     map_option (\<lambda>res. \<lparr>td_result = res, airtime_us = u32_of_bytes a b c d\<rparr>)
       (find (\<lambda>res. plain_result res = r) [Transmitted, ChannelBusyResult, CancelledResult])"
| "plain_decode_tx_done _ = None"

definition plain_proto :: "(bytes, bytes, bytes, unit) proto" where
  "plain_proto =
     \<lparr>TYPE_PING = 1, TYPE_GET_INFO = 2, TYPE_SET_CONFIG = 3, TYPE_TX = 4, TYPE_RX_START = 5, TYPE_RX_STOP = 6,
      TYPE_OK = 128, TYPE_ERR = 129, TYPE_RX = 192, TYPE_TX_DONE = 193, MAX_PAYLOAD_FIELD = 32,
      encode_frame = (\<lambda>ty tag pl. if length pl \<le> 32 then Inr (255 # ty # bytes_of_u16 tag @ pl) else Inl ''too large''),
      decoder_new = (), decoder_feed = (\<lambda>_ bs. ((), [plain_decode bs])), decode_rx = Some,
      decode_err_payload = plain_decode_err, decode_tx_done = plain_decode_tx_done,
      parse_ok_for = (\<lambda>cmd pl. if cmd = 2 then Some (OkInfo pl)
        else if cmd = 3 then (case pl of a # b # c \<Rightarrow> Some (OkSetConfig (SetConfigResult a b c)) | _ \<Rightarrow> None)
        else Some OkEmpty),
      encode_set_config = Inr, tx_flags_byte = (\<lambda>b. if b then 1 else 0),
      debug_info = (\<lambda>_. ''Info''), debug_set_config_result = (\<lambda>_. ''Result''), debug_tx_done = (\<lambda>_. ''Done'')\<rparr>"

lemma plain_err_roundtrip: "\<forall>u. c \<noteq> Unknown u \<Longrightarrow> plain_decode_err (enc_err plain_codec c) = Some c"
  by (cases c) (simp_all add: plain_codec_def bytes_of_u16_def u16_of_bytes_def Let_def)

lemma plain_tx_done_roundtrip: "plain_decode_tx_done (enc_tx_done plain_codec td) = Some td"
  by (cases td; cases "td_result td") (simp_all add: plain_codec_def bytes_of_u32_def)

lemma plain_laws: "codec_laws plain_proto plain_codec"
proof -
  have "length (enc_err plain_codec c) = 2" "length (enc_tx_done plain_codec td) \<le> 32" for c td
    by (simp_all add: plain_codec_def bytes_of_u16_def bytes_of_u32_def)
  then show ?thesis
    by (simp add: codec_laws_def plain_proto_def distinct_types_def plain_err_roundtrip plain_tx_done_roundtrip)
      (simp add: plain_codec_def bytes_of_u16_def)
qed

lemma plain_typed: "ok_payloads_typed plain_proto"
  by (simp add: ok_payloads_typed_def plain_proto_def split: list.split)

subsection \<open>Packets for the receiving example\<close>

definition demo_packet :: rx_payload where
  "demo_packet = \<lparr>rssi_tenths_dbm = - 812, snr_tenths_db = 73, crc_valid = True, rx_data = as_bytes (greeting 7)\<rparr>"

text \<open>The codec of the demo, with every RX payload decoded to this packet.\<close>
definition rx_proto :: "(device_info, (u8 lora_config, unit) modulation, rx_payload, unit) proto" where
  "rx_proto =
     \<lparr>TYPE_PING = 1, TYPE_GET_INFO = 2, TYPE_SET_CONFIG = 3, TYPE_TX = 4, TYPE_RX_START = 5, TYPE_RX_STOP = 6,
      TYPE_OK = 128, TYPE_ERR = 129, TYPE_RX = 192, TYPE_TX_DONE = 193, MAX_PAYLOAD_FIELD = 8,
      encode_frame = encode_frame demo_proto, decoder_new = (), decoder_feed = decoder_feed demo_proto,
      decode_rx = (\<lambda>_. Some demo_packet), decode_err_payload = decode_err_payload demo_proto,
      decode_tx_done = decode_tx_done demo_proto, parse_ok_for = parse_ok_for demo_proto,
      encode_set_config = encode_set_config demo_proto, tx_flags_byte = tx_flags_byte demo_proto,
      debug_info = (\<lambda>_. ''Info''), debug_set_config_result = (\<lambda>_. ''Result''), debug_tx_done = (\<lambda>_. ''Done'')\<rparr>"

definition rx_dongle :: "(device_info, (u8 lora_config, unit) modulation, rx_payload, unit) dongle" where
  "rx_dongle = new (spawn rx_proto) demo_info (Serial ''/dev/ttyACM0'') (Some (LoRa demo_lora)) False (demo_world [])"

text \<open>Reception is started, and one packet arrives.\<close>
lemma demo_rx_loop:
  "\<exists>d' w'. rx_loop rx_proto rx_dongle (demo_world [(1, [128, 1]), (2, [192, 0, 0])])
    = ([Stdout (rx_line demo_packet)], Running, d', w')"
proof -
  obtain d1 w1 where one: "d_next_rx rx_proto rx_dongle (demo_world [(1, [128, 1]), (2, [192, 0, 0])])
      = (Ok (Some (Some demo_packet)), d1, w1)" and state: "\<not> d_closed d1" "rx_started d1" "arrivals w1 = []"
      "rx_queue (d_session d1) = []" "reader_running (d_session d1)"
    by (simp add: run_defs demo_defs dongle_defs rx_dongle_def rx_proto_def d_next_rx_def ensure_rx_def d_rx_start_def)
  obtain d2 w2 where "d_next_rx rx_proto d1 w1 = (Ok None, d2, w2)"
    using state by (simp add: d_next_rx_def ensure_rx_def on_session_def next_rx_def try_recv_rx_def)
  from rx_loop_step(1) [OF one rx_loop_step(2) [OF this]] show ?thesis by auto
qed

end
