(* ===== verification/Races.thy ===== *)
theory Races
  imports Interleaving Demo
begin

text \<open>
  Three schedules of the concurrent session, spelled out step by step: a command that is answered,
  a command that times out while the reader holds its entry, and a command that registers itself
  after \<^verbatim>\<open>close\<close> has swept the map.
\<close>

text \<open>The first command of a session has taken its tag.\<close>

definition allocated :: "('i, 'm, 'rx, 'd) proto \<Rightarrow> u8 \<Rightarrow> bytes \<Rightarrow> ('i, 'm, 'rx, 'd) sys" where
  "allocated P ty pl =
     \<lparr>sess = (spawn P)\<lparr>next_tag := 2, next_chan := 1\<rparr>, tasks = (\<lambda>_. Idle)(0 := Registering ty pl 1 0),
      reader = RTop, aborting = False, meta = (\<lambda>_. (0, 0))(0 := (ty, 1)), taken = []\<rparr>"

lemma reachable_allocated: "reachable P (allocated P ty pl)"
proof -
  let ?S1 = "(sys_init P)\<lparr>tasks := (tasks (sys_init P))(0 := Checked ty pl)\<rparr>"
  have "reachable P ?S1"
    by (rule reach_call [OF reachable.init], rule call_step.check) (simp_all add: sys_init_def spawn_def)
  moreover have "call_step P 0 ?S1 (?S1\<lparr>sess := ((spawn P)\<lparr>next_tag := 2\<rparr>)\<lparr>next_chan := Suc 0\<rparr>,
      tasks := (tasks ?S1)(0 := Registering ty pl 1 0), meta := (meta ?S1)(0 := (ty, 1))\<rparr>)"
    by (rule call_step.alloc) (simp_all add: sys_init_def spawn_def alloc_tag_def)
  ultimately have "reachable P (?S1\<lparr>sess := ((spawn P)\<lparr>next_tag := 2\<rparr>)\<lparr>next_chan := Suc 0\<rparr>,
      tasks := (tasks ?S1)(0 := Registering ty pl 1 0), meta := (meta ?S1)(0 := (ty, 1))\<rparr>)"
    by (rule reach_call)
  then show ?thesis by (simp add: allocated_def sys_init_def)
qed

text \<open>It is registered, written, and waits.\<close>

definition waiting_sess :: "('i, 'm, 'rx, 'd) proto \<Rightarrow> u8 \<Rightarrow> bytes \<Rightarrow> ('i, 'm, 'rx, 'd) session" where
  "waiting_sess P ty wire =
     (spawn P)\<lparr>next_tag := 2, next_chan := 1, pending_map := [(1, \<lparr>cmd_type = ty, waker = 0\<rparr>)], written := [wire]\<rparr>"

lemma register_and_write:
  assumes "reachable P S" "tasks S 0 = Registering ty pl 1 0" "encode_frame P ty 1 pl = Inr wire"
    "pending_map (sess S) = []"
  shows "reachable P (S\<lparr>sess := (sess S)\<lparr>pending_map := [(1, \<lparr>cmd_type = ty, waker = 0\<rparr>)],
      written := written (sess S) @ [wire]\<rparr>, tasks := (tasks S)(0 := Waiting ty 1 0)\<rparr>)"
proof -
  let ?s = "(sess S)\<lparr>pending_map := [(1, \<lparr>cmd_type = ty, waker = 0\<rparr>)]\<rparr>"
  let ?S1 = "S\<lparr>sess := ?s, tasks := (tasks S)(0 := Writing ty pl 1 0)\<rparr>"
  have "call_step P 0 S ?S1"
    using call_step.register [OF assms(2), of P] assms(4) by (simp add: pending_insert_def)
  from reach_call [OF assms(1) this] have 1: "reachable P ?S1" .
  have "call_step P 0 ?S1 (?S1\<lparr>sess := (sess ?S1)\<lparr>written := written (sess ?S1) @ [wire]\<rparr>,
      tasks := (tasks ?S1)(0 := Waiting ty 1 0)\<rparr>)"
    by (rule call_step.write_ok [where pl = pl]) (simp_all add: assms(3))
  from reach_call [OF 1 this] show ?thesis by simp
qed

definition waiting :: "('i, 'm, 'rx, 'd) proto \<Rightarrow> u8 \<Rightarrow> bytes \<Rightarrow> ('i, 'm, 'rx, 'd) sys" where
  "waiting P ty wire =
     \<lparr>sess = waiting_sess P ty wire, tasks = (\<lambda>_. Idle)(0 := Waiting ty 1 0), reader = RTop, aborting = False,
      meta = (\<lambda>_. (0, 0))(0 := (ty, 1)), taken = []\<rparr>"

lemma reachable_waiting:
  assumes "encode_frame P ty 1 pl = Inr wire"
  shows "reachable P (waiting P ty wire)"
  using register_and_write [OF reachable_allocated [of P ty pl] _ assms]
  by (simp add: allocated_def waiting_def waiting_sess_def spawn_def)

text \<open>The reader has read a frame with the tag of the command and taken the entry.\<close>

definition holding :: "('i, 'm, 'rx, 'd) proto \<Rightarrow> u8 \<Rightarrow> bytes \<Rightarrow> 'd \<Rightarrow> u8 \<Rightarrow> bytes \<Rightarrow> ('i, 'm, 'rx, 'd) sys" where
  "holding P ty wire d fty fpl =
     (waiting P ty wire)\<lparr>sess := (waiting_sess P ty wire)\<lparr>decoder := d, pending_map := []\<rparr>,
       reader := RHolding \<lparr>cmd_type = ty, waker = 0\<rparr> fty 1 fpl [], taken := [WorkOk fty 1 fpl]\<rparr>"

lemma reachable_holding:
  assumes "encode_frame P ty 1 pl = Inr wire" "bs \<noteq> []"
    "decoder_feed P (decoder_new P) bs = (d, [FrameOk fty 1 fpl])"
  shows "reachable P (holding P ty wire d fty fpl)"
proof -
  let ?W = "waiting P ty wire"
  let ?S1 = "?W\<lparr>reader := RReading\<rparr>"
  let ?S2 = "?S1\<lparr>sess := (sess ?S1)\<lparr>decoder := d\<rparr>, reader := RWorking [WorkOk fty 1 fpl]\<rparr>"
  have "reader_step P ?W ?S1"
    by (rule reader_step.top_open) (simp_all add: waiting_def waiting_sess_def spawn_def)
  from reach_read [OF reachable_waiting [OF assms(1)] this] have 1: "reachable P ?S1" .
  have "reader_step P ?S1 ?S2"
    using reader_step.read_bytes [of ?S1 bs P d "[FrameOk fty 1 fpl]"] assms(2,3)
    by (simp add: waiting_def waiting_sess_def spawn_def)
  from reach_read [OF 1 this] have 2: "reachable P ?S2" .
  have "reader_step P ?S2 (?S2\<lparr>sess := (sess ?S2)\<lparr>pending_map := []\<rparr>,
      reader := RHolding \<lparr>cmd_type = ty, waker = 0\<rparr> fty 1 fpl [], taken := taken ?S2 @ [WorkOk fty 1 fpl]\<rparr>)"
    by (rule reader_step.take_entry) (simp_all add: waiting_def waiting_sess_def pending_take_def)
  from reach_read [OF 2 this] show ?thesis by (simp add: holding_def waiting_def)
qed

subsection \<open>An answered command\<close>

lemma reachable_answered:
  assumes "encode_frame P ty 1 pl = Inr wire" "bs \<noteq> []"
    "decoder_feed P (decoder_new P) bs = (d, [FrameOk fty 1 fpl])" "\<not> (ty = TYPE_TX P \<and> fty = TYPE_OK P)"
  shows "\<exists>S. reachable P S \<and> tasks S 0 = Returned (Ok (response_for P ty fty fpl)) ty 1 0
    \<and> taken S = [WorkOk fty 1 fpl]"
proof -
  let ?H = "holding P ty wire d fty fpl"
  let ?S1 = "?H\<lparr>sess := chan_send 0 (response_for P ty fty fpl) (sess ?H), reader := RWorking []\<rparr>"
  let ?S2 = "?S1\<lparr>tasks := (tasks ?S1)(0 := Returned (Ok (response_for P ty fty fpl)) ty 1 0)\<rparr>"
  have "reader_step P ?H ?S1"
    using reader_step.fire [of ?H "\<lparr>cmd_type = ty, waker = 0\<rparr>" fty 1 fpl "[]" P] assms(4)
    by (simp add: holding_def absorbs_def)
  from reach_read [OF reachable_holding [OF assms(1-3)] this] have 1: "reachable P ?S1" .
  have "call_step P 0 ?S1 ?S2"
    by (rule call_step.answered) (simp_all add: holding_def waiting_def chan_send_def)
  from reach_call [OF 1 this] show ?thesis by (intro exI [of _ ?S2]) (simp add: holding_def)
qed

subsection \<open>A time-out while the reader holds the entry\<close>

lemma reachable_leak:
  assumes "encode_frame P ty 1 pl = Inr wire" "bs \<noteq> []"
    "decoder_feed P (decoder_new P) bs = (d, [FrameOk (TYPE_OK P) 1 fpl])" "ty = TYPE_TX P"
  shows "\<exists>S. reachable P S \<and> tasks S 0 = Returned (Err (Timeout (describe_cmd P ty))) ty 1 0
    \<and> pending_of (sess S) 1 = Some \<lparr>cmd_type = ty, waker = 0\<rparr>"
proof -
  let ?e = "Timeout (describe_cmd P ty)"
  let ?H = "holding P ty wire d (TYPE_OK P) fpl"
  let ?S1 = "?H\<lparr>tasks := (tasks ?H)(0 := CleaningUp ?e ty 1 0)\<rparr>"
  let ?S2 = "?S1\<lparr>sess := sess ?S1, tasks := (tasks ?S1)(0 := Returned (Err ?e) ty 1 0)\<rparr>"
  let ?S3 = "?S2\<lparr>sess := (sess ?S2)\<lparr>pending_map := [(1, \<lparr>cmd_type = ty, waker = 0\<rparr>)]\<rparr>, reader := RWorking []\<rparr>"
  have "call_step P 0 ?H ?S1"
    by (rule call_step.timeout) (simp_all add: holding_def waiting_def waiting_sess_def spawn_def)
  from reach_call [OF reachable_holding [OF assms(1-3)] this] have 1: "reachable P ?S1" .
  have "pending_remove 1 (sess ?S1) = sess ?S1"
    by (simp add: pending_remove_def pending_take_def holding_def)
  then have "call_step P 0 ?S1 ?S2"
    using call_step.cleanup [of ?S1 0 ?e ty 1 0 P] by simp
  from reach_call [OF 1 this] have 2: "reachable P ?S2" .
  have "reader_step P ?S2 ?S3"
    using reader_step.reinsert [of ?S2 "\<lparr>cmd_type = ty, waker = 0\<rparr>" "TYPE_OK P" 1 fpl "[]" P] assms(4)
    by (simp add: holding_def absorbs_def pending_insert_def)
  from reach_read [OF 2 this] show ?thesis by (intro exI [of _ ?S3]) simp
qed

subsection \<open>Registering after the sweep of close\<close>

text \<open>
  Everybody but the caller is done: the session is closed, the reader gone, and no other call under
  way; the caller waits on an open channel, or has given up.
\<close>
definition stranded :: "('i, 'm, 'rx, 'd) proto \<Rightarrow> u8 \<Rightarrow> ('i, 'm, 'rx, 'd) sys \<Rightarrow> bool" where
  "stranded P ty S \<longleftrightarrow>
     closed (sess S) \<and> reader S = RGone \<and> (\<forall>j. j \<noteq> 0 \<longrightarrow> tasks S j \<in> {Idle, Refused, CloseDone})
     \<and> (tasks S 0 = Waiting ty 1 0 \<and> chans (sess S) 0 = ChanOpen
        \<or> tasks S 0 = CleaningUp (Timeout (describe_cmd P ty)) ty 1 0
        \<or> tasks S 0 = Returned (Err (Timeout (describe_cmd P ty))) ty 1 0
        \<or> tasks S 0 = Abandoned ty 1 0)"

text \<open>As long as nobody closes the session once more, this stays so.\<close>
definition no_close_step :: "('i, 'm, 'rx, 'd) proto \<Rightarrow> ('i, 'm, 'rx, 'd) sys \<Rightarrow> ('i, 'm, 'rx, 'd) sys \<Rightarrow> bool" where
  "no_close_step P S T \<longleftrightarrow> sys_step P S T \<and> \<not> (\<exists>i. close_step i S T)"

lemma stranded_call:
  assumes "stranded P ty S" "call_step P i S T"
  shows "stranded P ty T"
proof (cases "i = 0")
  case True
  from assms(2) show ?thesis
    by cases (use assms(1) True in \<open>auto simp: stranded_def pending_remove_def pending_take_def drop_sender_def
        split: option.splits\<close>)
next
  case False
  then have "tasks S i \<in> {Idle, Refused, CloseDone}" "closed (sess S)" using assms(1) by (simp_all add: stranded_def)
  with assms(2) have "T = S\<lparr>tasks := (tasks S)(i := Refused)\<rparr>" by cases auto
  with assms(1) False show ?thesis by (simp add: stranded_def)
qed

lemma stranded_stays:
  assumes "(no_close_step P)\<^sup>*\<^sup>* S T" "stranded P ty S"
  shows "stranded P ty T"
  using assms
proof (induction rule: converse_rtranclp_induct)
  case (step S S')
  from step(1) have "sys_step P S S'" "\<nexists>i. close_step i S S'" by (simp_all add: no_close_step_def)
  then have "stranded P ty S'"
  proof cases
    case (call i)
    with step(4) show ?thesis by (blast intro: stranded_call)
  next
    case read
    then show ?thesis by cases (use step(4) in \<open>auto simp: stranded_def\<close>)
  next
    case event
    then show ?thesis
      by cases (use step(4) in \<open>auto simp: stranded_def try_recv_rx_def drain_async_errors_def drain_loop_eq split: list.splits\<close>)
  qed blast
  with step(3) show ?case by blast
qed

lemma reachable_after_sweep:
  assumes "encode_frame P ty 1 pl = Inr wire"
  shows "\<exists>S. reachable P S \<and> tasks S 1 = CloseDone \<and> stranded P ty S \<and> tasks S 0 = Waiting ty 1 0"
proof -
  let ?A = "allocated P ty pl"
  let ?S1 = "?A\<lparr>sess := (sess ?A)\<lparr>closed := True\<rparr>, tasks := (tasks ?A)(1 := CloseTaking)\<rparr>"
  let ?S1' = "?S1\<lparr>sess := (sess ?S1)\<lparr>pending_map := []\<rparr>, tasks := (tasks ?S1)(1 := CloseWaking [])\<rparr>"
  let ?S2 = "?S1'\<lparr>tasks := (tasks ?S1')(1 := CloseAborting)\<rparr>"
  let ?S3 = "?S2\<lparr>sess := (sess ?S2)\<lparr>reader_handle := False\<rparr>, aborting := True, tasks := (tasks ?S2)(1 := CloseDone)\<rparr>"
  let ?S4 = "?S3\<lparr>sess := (sess ?S3)\<lparr>reader_running := False\<rparr>, reader := RGone\<rparr>"
  have "close_step 1 ?A ?S1" by (rule close_step.store) (simp add: allocated_def)
  from reach_close [OF reachable_allocated this] have 1: "reachable P ?S1" .
  have "pending_map (sess ?S1) = []" by (simp add: allocated_def spawn_def)
  then have "close_step 1 ?S1 ?S1'" using close_step.take [of ?S1 1] by simp
  from reach_close [OF 1 this] have taken: "reachable P ?S1'" .
  have "close_step 1 ?S1' ?S2" by (rule close_step.woken) simp
  from reach_close [OF taken this] have 2: "reachable P ?S2" .
  have "close_step 1 ?S2 ?S3" using close_step.abort [of ?S2 1] by (simp add: allocated_def spawn_def)
  from reach_close [OF 2 this] have 3: "reachable P ?S3" .
  have "reader_step P ?S3 ?S4" by (rule reader_step.aborted) (simp_all add: allocated_def)
  from reach_read [OF 3 this] have 4: "reachable P ?S4" .
  from register_and_write [OF 4, of ty pl wire] assms show ?thesis
    by (intro exI conjI) (assumption | simp add: allocated_def spawn_def stranded_def)+
qed

end
