(* ===== verification/Tags.thy ===== *)
theory Tags
  imports Session
begin

text \<open>
  The tag counter of \<^verbatim>\<open>Session::alloc_tag\<close>: a closed form for the tag after any number of
  allocations, from which freshness over a full period follows, and exactly one period later the
  first repetition.
\<close>

definition succ_tag :: "u16 \<Rightarrow> u16" where
  "succ_tag t = (if t + 1 = 0 then 1 else t + 1)"

lemma alloc_tag_succ: "alloc_tag s = (next_tag s, s\<lparr>next_tag := succ_tag (next_tag s)\<rparr>)"
  by (simp add: alloc_tag_def succ_tag_def Let_def)

text \<open>The tags of \<open>n\<close> allocations in a row, oldest first.\<close>
fun alloc_tags :: "nat \<Rightarrow> ('i, 'm, 'rx, 'd) session \<Rightarrow> u16 list \<times> ('i, 'm, 'rx, 'd) session" where
  "alloc_tags 0 s = ([], s)"
| "alloc_tags (Suc n) s =
     (let (t, s1) = alloc_tag s; (ts, s2) = alloc_tags n s1 in (t # ts, s2))"

lemma unat_succ_tag: "t \<noteq> 0 \<Longrightarrow> unat (succ_tag t) = (if unat t = 65535 then 1 else Suc (unat t))"
  using u16_succ_0_iff [of t] unat_u16_succ [of t] by (auto simp: succ_tag_def)

lemma succ_tag_nonzero: "succ_tag t \<noteq> 0"
  by (simp add: succ_tag_def)

lemma unat_pos: "t \<noteq> 0 \<Longrightarrow> 0 < unat (t::u16)"
  by (simp add: unat_gt_0)

lemma unat_funpow_succ_tag:
  assumes "t \<noteq> 0"
  shows "unat ((succ_tag ^^ n) t) = (unat t - 1 + n) mod 65535 + 1"
proof (induction n)
  case 0
  have "unat t - 1 < 65535" using unat_le_max_u16 [of t] unat_pos [OF assms] by linarith
  then show ?case using unat_pos [OF assms] by simp
next
  case (Suc n)
  let ?u = "(succ_tag ^^ n) t" and ?k = "unat t - 1 + n"
  have nz: "?u \<noteq> 0" using assms succ_tag_nonzero by (cases n) simp_all
  have u: "unat ?u = ?k mod 65535 + 1" by (rule Suc.IH)
  have "unat (succ_tag ?u) = (if ?k mod 65535 + 1 = 65535 then 1 else Suc (?k mod 65535 + 1))"
    using unat_succ_tag [OF nz] u by simp
  moreover have "Suc ?k mod 65535 = (if Suc (?k mod 65535) = 65535 then 0 else Suc (?k mod 65535))"
    by (rule mod_Suc)
  ultimately show ?case by simp
qed

lemma funpow_succ_tag_nonzero: "t \<noteq> 0 \<Longrightarrow> (succ_tag ^^ n) t \<noteq> 0"
  by (cases n) (simp_all add: succ_tag_nonzero)

lemma funpow_succ_tag_eq_iff:
  assumes "t \<noteq> 0"
  shows "(succ_tag ^^ i) t = (succ_tag ^^ j) t \<longleftrightarrow> i mod 65535 = j mod 65535"
proof -
  have "(succ_tag ^^ i) t = (succ_tag ^^ j) t \<longleftrightarrow> unat ((succ_tag ^^ i) t) = unat ((succ_tag ^^ j) t)"
    by (simp add: word_unat_eq_iff)
  also have "\<dots> \<longleftrightarrow> (unat t - 1 + i) mod 65535 = (unat t - 1 + j) mod 65535"
    by (simp add: unat_funpow_succ_tag [OF assms])
  also have "\<dots> \<longleftrightarrow> i mod 65535 = j mod 65535"
    by (simp add: nat_mod_eq_iff)
  finally show ?thesis .
qed

lemma alloc_tags_eq:
  "alloc_tags n s =
    (map (\<lambda>i. (succ_tag ^^ i) (next_tag s)) [0..<n], s\<lparr>next_tag := (succ_tag ^^ n) (next_tag s)\<rparr>)"
proof (induction n arbitrary: s)
  case (Suc n)
  have "map (\<lambda>i. (succ_tag ^^ i) (succ_tag t)) [0..<n] = map (\<lambda>i. (succ_tag ^^ Suc i) t) [0..<n]" for t
    by (simp only: funpow_Suc_right o_apply)
  moreover have "(t::u16) # map (\<lambda>i. (succ_tag ^^ Suc i) t) [0..<n] = map (\<lambda>i. (succ_tag ^^ i) t) [0..<Suc n]" for t
    by (subst upt_conv_Cons) (simp_all add: map_Suc_upt [symmetric] del: upt_Suc)
  ultimately show ?case
    by (simp add: Suc.IH alloc_tag_succ funpow_swap1 del: upt_Suc)
qed simp

end
