(* ===== verification/Timing.thy ===== *)
theory Timing
  imports DongleOps
begin

text \<open>
  How long the calls of \<^verbatim>\<open>src/session.rs\<close> and \<^verbatim>\<open>src/dongle.rs\<close> can take. A command waits at
  most its timeout for the answer, but \<^verbatim>\<open>send_command\<close> starts that timeout only after the frame
  is written, so every bound also counts the writes. The bounds below have that form: so many writes
  and so much waiting.
\<close>

subsection \<open>Bounds as an interface\<close>

text \<open>
  What is assumed of the environment: a write ends within \<open>B\<close>, and a draw from
  \<^verbatim>\<open>0..=spread\<close> is within its range.
\<close>
definition writes_within :: "duration \<Rightarrow> world \<Rightarrow> bool" where
  "writes_within B w \<longleftrightarrow> (\<forall>n. write_time w n \<le> B) \<and> (\<forall>n spread. random_range w n spread \<le> spread)"

text \<open>From \<open>w\<close> to \<open>w'\<close> at most \<open>k\<close> writes and a time of \<open>t\<close> went by.\<close>
definition took :: "nat \<Rightarrow> duration \<Rightarrow> world \<Rightarrow> world \<Rightarrow> bool" where
  "took k t w w' \<longleftrightarrow>
     write_time w' = write_time w \<and> random_range w' = random_range w
     \<and> (\<forall>B. writes_within B w \<longrightarrow> clock w' \<le> clock w + k * B + t)"

lemma took_refl [simp]: "took 0 0 w w"
  by (simp add: took_def)

lemma took_mono: "took k t w w' \<Longrightarrow> k \<le> k' \<Longrightarrow> t \<le> t' \<Longrightarrow> took k' t' w w'"
  unfolding took_def by (meson add_mono le_refl le_trans mult_le_mono1)

lemma took_trans:
  assumes "took k1 t1 w w1" "took k2 t2 w1 w2"
  shows "took (k1 + k2) (t1 + t2) w w2"
proof -
  have "clock w2 \<le> clock w + (k1 + k2) * B + (t1 + t2)" if "writes_within B w" for B
  proof -
    have "writes_within B w1" using that assms(1) by (simp add: took_def writes_within_def)
    with that assms have "clock w1 \<le> clock w + k1 * B + t1" "clock w2 \<le> clock w1 + k2 * B + t2"
      by (simp_all add: took_def)
    then show ?thesis by (simp add: algebra_simps)
  qed
  with assms show ?thesis by (simp add: took_def)
qed

lemma took_limit: "took k t w w' \<Longrightarrow> writes_within B w \<Longrightarrow> clock w' \<le> clock w + k * B + t"
  by (simp add: took_def)

locale timed_op =
  fixes op :: "'s \<Rightarrow> world \<Rightarrow> 'r \<times> 's \<times> world"
    and writes_limit :: nat
    and time_limit :: duration
  assumes op_took: "op s w = (r, s', w') \<Longrightarrow> took writes_limit time_limit w w'"
begin

lemma op_took_after:
  "took k t w0 w \<Longrightarrow> op s w = (r, s', w') \<Longrightarrow> took (k + writes_limit) (t + time_limit) w0 w'"
  using took_trans op_took by blast

lemma op_within:
  "op s w = (r, s', w') \<Longrightarrow> writes_within B w \<Longrightarrow> clock w' \<le> clock w + writes_limit * B + time_limit"
  using took_limit op_took by blast

end

subsection \<open>The session\<close>

lemma sleep_took: "sleep P t s w = (s', w') \<Longrightarrow> took 0 t w w'"
  by (auto simp: sleep_def took_def split: prod.splits)

lemma send_command_took:
  assumes run: "send_command P ty pl timeout s w = (r, s', w')"
  shows "took (Suc 0) timeout w w'"
proof -
  have "random_range w' = random_range w"
  proof (cases "closed s")
    case True
    with run show ?thesis by (simp add: send_command_closed)
  next
    case False
    with run show ?thesis
    proof (cases rule: send_command_cases)
      case (failed wire e b s3)
      with sleep_took [OF failed(2)] show ?thesis by (simp add: took_def)
    next
      case (sent wire s3 w3 ch now rest s4)
      with sleep_took [OF sent(2)] show ?thesis by (simp add: took_def)
    qed simp
  qed
  moreover have "clock w' \<le> clock w + B + timeout" if "writes_within B w" for B
  proof -
    have "write_time w (writes w) \<le> B" using that by (simp add: writes_within_def)
    with send_command_clock(2) [OF run] show ?thesis by simp
  qed
  ultimately show ?thesis using send_command_clock(3) [OF run] by (simp add: took_def)
qed

lemma command_timed: "timed_op (command P ty pl timeout expect) (Suc 0) timeout"
  by unfold_locales
    (auto simp: command_def split: prod.splits client_result.splits dest: send_command_took)

lemma refuse_timed: "timed_op (\<lambda>s w. (e, s, w)) (Suc 0) timeout"
  by unfold_locales (auto intro: took_mono [OF took_refl])

interpretation ping_timed: timed_op "ping P timeout" "Suc 0" timeout for P timeout
  unfolding ping_def by (rule command_timed)

interpretation get_info_timed: timed_op "get_info P timeout" "Suc 0" timeout for P timeout
  unfolding get_info_def by (rule command_timed)

interpretation rx_start_timed: timed_op "rx_start P timeout" "Suc 0" timeout for P timeout
  unfolding rx_start_def by (rule command_timed)

interpretation rx_stop_timed: timed_op "rx_stop P timeout" "Suc 0" timeout for P timeout
  unfolding rx_stop_def by (rule command_timed)

interpretation set_config_timed: timed_op "Commands.set_config P m timeout" "Suc 0" timeout for P m timeout
  by unfold_locales
    (auto simp: set_config_def split: sum.splits dest: timed_op.op_took [OF command_timed]
      intro: took_mono [OF took_refl])

interpretation transmit_timed: timed_op "transmit P data skip timeout" "Suc 0" timeout for P data skip timeout
proof -
  consider "data = []" | "data \<noteq> []" "MAX_PAYLOAD_FIELD P \<le> length data"
    | "data \<noteq> []" "length data < MAX_PAYLOAD_FIELD P" by fastforce
  then show "timed_op (transmit P data skip timeout) (Suc 0) timeout"
    by cases (simp_all add: transmit_cases refuse_timed command_timed)
qed

lemma recv_loop_limit:
  "recv_loop P (Some dl) now arr s = (r, now', rest, s') \<Longrightarrow> now \<le> dl \<Longrightarrow> now' \<le> dl"
proof (induction P "Some dl" now arr s rule: recv_loop.induct)
  case (1 P now s)
  then show ?case by (auto split: option.splits if_splits)
next
  case (2 P now a rd arr s)
  then show ?case by (auto split: option.splits if_splits)
qed

interpretation recv_rx_timed: timed_op "recv_rx P timeout" 0 timeout for P timeout
  by unfold_locales (auto simp: recv_rx_def took_def split: prod.splits dest!: recv_loop_limit)

text \<open>The calls of the dongle: one call into the session, or several.\<close>

lemma on_session_took: "timed_op op k t \<Longrightarrow> on_session op d w = (r, d', w') \<Longrightarrow> took k t w w'"
  by (auto simp: on_session_def split: prod.splits dest: timed_op.op_took)

lemmas session_took =
  on_session_took [OF ping_timed.timed_op_axioms] on_session_took [OF rx_start_timed.timed_op_axioms]
  on_session_took [OF rx_stop_timed.timed_op_axioms] on_session_took [OF set_config_timed.timed_op_axioms]
  on_session_took [OF transmit_timed.timed_op_axioms] on_session_took [OF recv_rx_timed.timed_op_axioms]

subsection \<open>The dongle\<close>

interpretation reapply_timed: timed_op "reapply_config P" "Suc 0" "from_secs 2" for P
  by unfold_locales
    (auto simp: reapply_config_def split: option.splits prod.splits client_result.splits
      dest: session_took(4) intro: took_mono [OF took_refl])

interpretation recover_timed: timed_op "recover_and_retry_tx P data skip t" 2 "from_secs 2 + t" for P data skip t
proof
  fix d w r d' w'
  assume run: "recover_and_retry_tx P data skip t d w = (r, d', w')"
  obtain r1 d1 w1 where first: "reapply_config P d w = (r1, d1, w1)" by (metis prod_cases3)
  note t1 = reapply_timed.op_took [OF first]
  show "took 2 (from_secs 2 + t) w w'"
  proof (cases r1)
    case (Ok x)
    with run first have "on_session (transmit P data skip t) d1 w1 = (r, d', w')"
      by (simp add: recover_and_retry_tx_def)
    from took_trans [OF t1 session_took(5) [OF this]] show ?thesis by (simp add: numeral_2_eq_2)
  qed (use run first took_mono [OF t1, of 2 "from_secs 2 + t"] in \<open>simp_all add: recover_and_retry_tx_def\<close>)
qed

interpretation tx_timed: timed_op "tx_with_timeout P data skip t" 3 "2 * t + from_secs 2" for P data skip t
proof
  fix d w r d' w'
  assume run: "tx_with_timeout P data skip t d w = (r, d', w')"
  obtain r1 d1 w1 where first: "on_session (transmit P data skip t) (mark_write w d) w = (r1, d1, w1)"
    by (metis prod_cases3)
  note t1 = session_took(5) [OF first]
  consider (closed) "w' = w" | (again) "recover_and_retry_tx P data skip t d1 w1 = (r, d', w')" | (once) "w' = w1"
    using run first
    by (cases r1) (auto simp: tx_with_timeout_def check_open_def split: if_splits client_error.splits)
  then show "took 3 (2 * t + from_secs 2) w w'"
  proof cases
    case closed
    then show ?thesis by (simp add: took_mono [OF took_refl])
  next
    case again
    from recover_timed.op_took_after [OF t1 this] show ?thesis by (rule took_mono) simp_all
  next
    case once
    with t1 show ?thesis by (auto intro: took_mono)
  qed
qed

interpretation rx_start_d_timed: timed_op "d_rx_start P" 3 "from_secs 6" for P
proof
  fix d w r d' w'
  assume run: "d_rx_start P d w = (r, d', w')"
  obtain r1 d1 w1 where first: "on_session (rx_start P (from_secs 2)) (mark_write w d) w = (r1, d1, w1)"
    by (metis prod_cases3)
  obtain r2 d2 w2 where second: "reapply_config P d1 w1 = (r2, d2, w2)" by (metis prod_cases3)
  obtain r3 d3 w3 where third: "on_session (rx_start P (from_secs 2)) d2 w2 = (r3, d3, w3)" by (metis prod_cases3)
  note t1 = session_took(2) [OF first]
  note t2 = reapply_timed.op_took_after [OF t1 second]
  note t3 = took_trans [OF t2 session_took(2) [OF third]]
  have "w' \<in> {w, w1, w2, w3}"
    using run first second third
    by (cases r1; cases r2; cases r3)
      (auto simp: d_rx_start_def check_open_def Let_def split: if_splits client_error.splits)
  then show "took 3 (from_secs 6) w w'"
    using took_mono [OF took_refl, of 3 "from_secs 6" w] took_mono [OF t1, of 3 "from_secs 6"]
      took_mono [OF t2, of 3 "from_secs 6"] took_mono [OF t3, of 3 "from_secs 6"]
    by (auto simp: from_secs_def)
qed

interpretation rx_stop_d_timed: timed_op "d_rx_stop P" "Suc 0" "from_secs 2" for P
  by unfold_locales
    (auto simp: d_rx_stop_def check_open_def split: if_splits prod.splits client_result.splits
      dest: session_took(3) intro: took_mono [OF took_refl])

interpretation set_config_d_timed: timed_op "d_set_config P m" "Suc 0" "from_secs 2" for P m
  by unfold_locales
    (auto simp: d_set_config_def check_open_def split: if_splits prod.splits client_result.splits
      dest: session_took(4) intro: took_mono [OF took_refl])

interpretation ping_d_timed: timed_op "d_ping P" "Suc 0" "from_secs 2" for P
  by unfold_locales
    (auto simp: d_ping_def check_open_def split: if_splits dest: session_took(1) intro: took_mono [OF took_refl])

interpretation ensure_rx_timed: timed_op "ensure_rx P" 3 "from_secs 6" for P
  by unfold_locales
    (auto simp: ensure_rx_def split: if_splits dest: rx_start_d_timed.op_took intro: took_mono [OF took_refl])

interpretation recv_timed: timed_op "recv P t" 3 "from_secs 6 + t" for P t
proof
  fix d w r d' w'
  assume run: "recv P t d w = (r, d', w')"
  obtain r1 d1 w1 where first: "ensure_rx P d w = (r1, d1, w1)" by (metis prod_cases3)
  obtain r2 d2 w2 where second: "on_session (recv_rx P t) d1 w1 = (r2, d2, w2)" by (metis prod_cases3)
  note t1 = ensure_rx_timed.op_took [OF first]
  note t2 = took_trans [OF t1 session_took(6) [OF second]]
  have "w' \<in> {w, w1, w2}"
    using run first second by (cases r1) (auto simp: recv_def split: if_splits)
  then show "took 3 (from_secs 6 + t) w w'"
    using took_mono [OF took_refl, of 3 "from_secs 6 + t" w] took_mono [OF t1, of 3 "from_secs 6 + t"] t2 by auto
qed

lemma dongle_sleep_took: "dongle_sleep P t d w = (d', w') \<Longrightarrow> took 0 t w w'"
  by (auto simp: dongle_sleep_def split: prod.splits dest: sleep_took)

interpretation keepalive_timed: timed_op "keepalive_iter P" 2 "KEEPALIVE_INTERVAL + from_secs 4" for P
proof
  fix d0 w0 r d' w'
  assume run: "keepalive_iter P d0 w0 = (r, d', w')"
  obtain d w where sl: "dongle_sleep P KEEPALIVE_INTERVAL d0 w0 = (d, w)" by fastforce
  obtain r1 d1 w1 where first: "on_session (ping P (from_secs 2)) d w = (r1, d1, w1)" by (metis prod_cases3)
  obtain r2 d2 w2 where second:
      "on_session (Commands.set_config P (the (applied_config d1)) (from_secs 2)) d1 w1 = (r2, d2, w2)"
    by (metis prod_cases3)
  note t0 = dongle_sleep_took [OF sl]
  note t1 = took_trans [OF t0 session_took(1) [OF first]]
  note t2 = took_trans [OF t1 session_took(4) [OF second]]
  have "w' \<in> {w, w1, w2}"
  proof (cases "r1 = Err NotConfigured")
    case True
    with run sl first second show ?thesis
      by (cases r2) (auto simp: keepalive_iter_def split: if_splits option.splits)
  next
    case False
    with run sl first show ?thesis
      by (auto simp: keepalive_iter_def split: if_splits client_result.splits client_error.splits)
  qed
  then show "took 2 (KEEPALIVE_INTERVAL + from_secs 4) w0 w'"
    using took_mono [OF t0, of 2 "KEEPALIVE_INTERVAL + from_secs 4"]
      took_mono [OF t1, of 2 "KEEPALIVE_INTERVAL + from_secs 4"]
      took_mono [OF t2, of 2 "KEEPALIVE_INTERVAL + from_secs 4"]
    by (auto simp: from_secs_def)
qed

text \<open>The longest wait between two attempts, if the draws are in range.\<close>
definition longest_wait :: "retry_policy \<Rightarrow> duration" where
  "longest_wait policy =
     from_millis (max (unat (backoff_ms_min policy)) (unat (backoff_cap_ms policy))
       + (unat (backoff_ms_max policy) - unat (backoff_ms_min policy)))"

lemma wait_le_longest:
  assumes "unat delay \<le> max (unat (backoff_ms_min policy)) (unat (backoff_cap_ms policy))" "writes_within B w"
  shows "backoff_wait delay (jitter_ms (random_range w n) policy) \<le> longest_wait policy"
proof -
  have "unat (jitter_ms (random_range w n) policy) \<le> unat (backoff_ms_max policy) - unat (backoff_ms_min policy)"
    using assms(2) by (intro jitter_bounded) (simp add: writes_within_def)
  with assms(1) show ?thesis
    unfolding backoff_wait_sum longest_wait_def from_millis_def by (intro mult_le_mono1 add_mono)
qed

lemma retry_loop_took:
  assumes "retry_loop P data policy n k delay log d w = (r, d', w')"
    "unat delay \<le> max (unat (backoff_ms_min policy)) (unat (backoff_cap_ms policy))"
  shows "took n (n * (per_attempt_timeout policy + longest_wait policy)) w w'"
  using assms
proof (induction n arbitrary: k delay log d w)
  case 0
  then show ?case by simp
next
  case (Suc n)
  let ?T = "per_attempt_timeout policy" and ?W = "longest_wait policy"
  have enough: "took (Suc n) (Suc n * (?T + ?W)) w w'" if "attempt_tx P data policy d w = (x, d', w')" for x
    using session_took(5) [OF that] by (rule took_mono) simp_all
  from Suc.prems(1) show ?case
  proof (cases rule: retry_loop_cases)
    case (again e d1 w1 d2 w2)
    let ?wait = "backoff_wait delay (jitter_ms (random_range w1 (draws w1)) policy)"
    have t1: "took (Suc 0) ?T w w1" using session_took(5) [OF again(1)] .
    have s2: "took 0 ?wait (w1\<lparr>draws := Suc (draws w1)\<rparr>) w2" using dongle_sleep_took [OF again(3)] .
    have "?wait \<le> ?W" if "writes_within B w1" for B
      using wait_le_longest [OF Suc.prems(2) that] .
    with s2 have t2: "took 0 ?W w1 w2"
      unfolding took_def writes_within_def by simp (meson add_le_cancel_left le_trans)
    have "unat (next_delay policy delay) \<le> max (unat (backoff_ms_min policy)) (unat (backoff_cap_ms policy))"
      using next_delay_capped [of policy delay] by (simp add: word_le_nat_alt le_max_iff_disj)
    from took_trans [OF took_trans [OF t1 t2] Suc.IH [OF again(4) this]] show ?thesis
      by (rule took_mono) simp_all
  qed (use enough in blast)+
qed

interpretation tx_retry_timed: timed_op "tx_with_retry P data policy" "unat (max_attempts policy)"
    "unat (max_attempts policy) * (per_attempt_timeout policy + longest_wait policy)" for P data policy
  by unfold_locales
    (auto simp: tx_with_retry_def check_open_def split: if_splits dest: retry_loop_took intro: took_mono [OF took_refl])

subsection \<open>Every call\<close>

text \<open>The number of writes and the time a call may take; only \<^verbatim>\<open>next_rx\<close> has no limit.\<close>
fun api_limit :: "'m api_call \<Rightarrow> (nat \<times> duration) option" where
  "api_limit (CallTx data skip t) = Some (3, 2 * t + from_secs 2)"
| "api_limit (CallTxRetry data policy) =
     Some (unat (max_attempts policy),
       unat (max_attempts policy) * (per_attempt_timeout policy + longest_wait policy))"
| "api_limit CallRxStart = Some (3, from_secs 6)"
| "api_limit CallRxStop = Some (1, from_secs 2)"
| "api_limit (CallRecv t) = Some (3, from_secs 6 + t)"
| "api_limit CallNextRx = None"
| "api_limit (CallSetConfig m) = Some (1, from_secs 2)"
| "api_limit CallPing = Some (1, from_secs 2)"
| "api_limit CallDrain = Some (0, 0)"
| "api_limit CallClose = Some (0, 0)"
| "api_limit KeepaliveTurn = Some (2, KEEPALIVE_INTERVAL + from_secs 4)"

lemma api_step_took:
  assumes "api_step P c (d, w) = (d', w')" "api_limit c = Some (k, t)"
  shows "took k t w w'"
proof (cases c)
  case (CallTx data skip t)
  with assms tx_timed.op_took show ?thesis by (auto simp: snd_def split: prod.splits)
next
  case (CallTxRetry data policy)
  with assms tx_retry_timed.op_took show ?thesis by (auto simp: snd_def split: prod.splits)
next
  case CallRxStart
  with assms rx_start_d_timed.op_took show ?thesis by (auto simp: snd_def split: prod.splits)
next
  case CallRxStop
  with assms rx_stop_d_timed.op_took show ?thesis by (auto simp: snd_def split: prod.splits)
next
  case (CallRecv t)
  with assms recv_timed.op_took show ?thesis by (auto simp: snd_def split: prod.splits)
next
  case (CallSetConfig m)
  with assms set_config_d_timed.op_took show ?thesis by (auto simp: snd_def split: prod.splits)
next
  case CallPing
  with assms ping_d_timed.op_took show ?thesis by (auto simp: snd_def split: prod.splits)
next
  case KeepaliveTurn
  obtain b d1 w1 where k: "keepalive_iter P d w = (b, d1, w1)" by (metis prod_cases3)
  from assms KeepaliveTurn k keepalive_timed.op_took [OF k] show ?thesis
    by (auto split: if_splits intro: took_mono [OF took_refl])
qed (use assms in auto)

end
