(* ===== verification/DongleLocks.thy ===== *)
theory DongleLocks
  imports Prelude
begin

text \<open>
  \<^verbatim>\<open>src/dongle.rs\<close> with several tasks on one dongle: every method that talks to the device,
  \<^verbatim>\<open>close\<close> and the keepalive task, cut where they lock \<^verbatim>\<open>rx_started\<close>, lock the receiver \<^verbatim>\<open>rx_rx\<close> of the
  session, or wait for the device. A mutex that is locked and unlocked within one statement is one
  step; the two that are held across an \<^verbatim>\<open>await\<close> have a holder in the state.

  A call into the session is two steps: something becomes of the command, then the caller goes on with
  the result. Nothing is assumed of the device but what its answers say: \<open>ran\<close> lists the commands it
  carried out, the latest first, and a SET\_CONFIG with the configuration the device reports for it.
  What may become of a command (\<open>outcome\<close>) is that it is carried out and answered, or refused. Two flags
  say which faults a run may have besides: \<open>recovery\<close>, that the device answers ENOTCONFIGURED;
  \<open>lossy\<close>, that the caller of a command that was carried out may get an error, as after a time-out, or
  drop its future, which unlocks what it holds. Once the session is closed the answer to any
  command under way may be lost. Time is left out: the keepalive task may find that a write was recent
  or not, and a failed attempt to send may be retryable or not.
\<close>

subsection \<open>State\<close>

datatype 'm dcmd = CStart | CStop | CSet 'm | CSend | CPing

datatype answer = AOk | ANotConfigured | AFail

text \<open>
  Where \<^verbatim>\<open>rx_start\<close> returns to: its user, or a receive call with or without a timeout; \<open>ToSend\<close> is
  a transmission that recovers the configuration in the same way.
\<close>
datatype return_to = ToUser | ToRecv bool | ToSend

datatype 'm dpc =
    DIdle
  | StartChecking return_to
  | WantRx return_to
  | Starting return_to
  | Started return_to answer
  | Reapplying return_to
  | Reconfiguring return_to 'm
  | Reconfigured return_to answer 'm
  | Restarting return_to
  | Restarted return_to answer
  | WantMark return_to
  | StopChecking
  | Stopping
  | Stopped answer
  | ConfigChecking 'm
  | Configuring 'm
  | Configured answer 'm
  | WantClear
  | RecvChecking bool
  | PeekRx bool
  | WantQueue bool
  | Receiving bool
  | SendChecking
  | Sending
  | Sent answer
  | Resending
  | RetryChecking nat
  | Attempting nat
  | Attempted nat answer
  | PingChecking
  | Pinging
  | KeepSleeping
  | KeepChecking
  | KeepPinging
  | KeepPinged answer
  | KeepReading
  | KeepConfiguring 'm
  | Closing
  | DDone

record 'm dsys =
  pcs :: "nat \<Rightarrow> 'm dpc"
  flag :: bool
  rx_lock :: "nat option"
  queue_lock :: "nat option"
  applied :: "'m option"
  shut :: bool
  cut :: bool
  ran :: "'m dcmd list"

definition dsys_init :: "'m option \<Rightarrow> 'm dsys" where
  "dsys_init a = \<lparr>pcs = (\<lambda>_. DIdle), flag = False, rx_lock = None, queue_lock = None, applied = a,
     shut = False, cut = False, ran = []\<rparr>"

text \<open>
  Of the commands that the source describes as entering (\<^verbatim>\<open>rx_start\<close>), leaving (\<^verbatim>\<open>rx_stop\<close>) or
  aborting (SET\_CONFIG) continuous reception, is the last one carried out an RX\_START?
\<close>
fun last_is_start :: "'m dcmd list \<Rightarrow> bool" where
  "last_is_start [] = False"
| "last_is_start (CStart # l) = True"
| "last_is_start (CStop # l) = False"
| "last_is_start (CSet m # l) = False"
| "last_is_start (c # l) = last_is_start l"

text \<open>The configuration of the last SET\_CONFIG carried out, if there was one.\<close>
fun last_set :: "'m option \<Rightarrow> 'm dcmd list \<Rightarrow> 'm option" where
  "last_set a [] = a"
| "last_set a (CSet m # l) = Some m"
| "last_set a (c # l) = last_set a l"

text \<open>What follows when \<^verbatim>\<open>rx_start\<close> returns: an error ends a receive call as well.\<close>
fun after_start :: "return_to \<Rightarrow> bool \<Rightarrow> 'm dpc" where
  "after_start (ToRecv b) True = WantQueue b"
| "after_start _ _ = DDone"

text \<open>What follows a re-applied configuration.\<close>
fun after_reapply :: "return_to \<Rightarrow> 'm dpc" where
  "after_reapply ToSend = Resending"
| "after_reapply ret = Restarting ret"

fun keeper :: "'m dpc \<Rightarrow> bool" where
  "keeper KeepSleeping = True"
| "keeper KeepChecking = True"
| "keeper KeepPinging = True"
| "keeper (KeepPinged r) = True"
| "keeper KeepReading = True"
| "keeper (KeepConfiguring m) = True"
| "keeper _ = False"

text \<open>The call with the answer it is waiting for replaced by an error.\<close>
fun failing :: "'m dpc \<Rightarrow> 'm dpc" where
  "failing (Started ret r) = Started ret AFail"
| "failing (Reconfigured ret r m) = Reconfigured ret AFail m"
| "failing (Restarted ret r) = Restarted ret AFail"
| "failing (Stopped r) = Stopped AFail"
| "failing (Configured r m) = Configured AFail m"
| "failing (Sent r) = Sent AFail"
| "failing (Attempted n r) = Attempted n AFail"
| "failing (KeepPinged r) = KeepPinged AFail"
| "failing pc = pc"

abbreviation goto :: "nat \<Rightarrow> 'm dpc \<Rightarrow> 'm dsys \<Rightarrow> 'm dsys" where
  "goto i pc S \<equiv> S\<lparr>pcs := (pcs S)(i := pc)\<rparr>"

subsection \<open>Steps\<close>

inductive outcome :: "bool \<Rightarrow> bool \<Rightarrow> 'm dcmd \<Rightarrow> 'm dcmd list \<Rightarrow> answer \<Rightarrow> 'm dcmd list \<Rightarrow> bool"
  for recovery lossy c where
  done_ok: "outcome recovery lossy c l AOk (c # l)"
| refused: "outcome recovery lossy c l AFail l"
| lost: "lossy \<Longrightarrow> outcome recovery lossy c l AFail (c # l)"
| unconfigured: "recovery \<Longrightarrow> outcome recovery lossy c l ANotConfigured l"

inductive_simps outcome_simps: "outcome recovery lossy c l r l'"

text \<open>\<^verbatim>\<open>rx_start\<close>\<close>
inductive start_step :: "bool \<Rightarrow> bool \<Rightarrow> nat \<Rightarrow> 'm dsys \<Rightarrow> 'm dsys \<Rightarrow> bool" for recovery lossy i where
  call_start: "pcs S i = DIdle \<Longrightarrow> start_step recovery lossy i S (goto i (StartChecking ToUser) S)"
| start_closed: "pcs S i = StartChecking ret \<Longrightarrow> shut S \<Longrightarrow>
    start_step recovery lossy i S (goto i (after_start ret False) S)"
| start_open: "pcs S i = StartChecking ret \<Longrightarrow> \<not> shut S \<Longrightarrow> start_step recovery lossy i S (goto i (WantRx ret) S)"
| already: "pcs S i = WantRx ret \<Longrightarrow> rx_lock S = None \<Longrightarrow> flag S \<Longrightarrow>
    start_step recovery lossy i S (goto i (after_start ret True) S)"
| lock_rx: "pcs S i = WantRx ret \<Longrightarrow> rx_lock S = None \<Longrightarrow> \<not> flag S \<Longrightarrow>
    start_step recovery lossy i S (goto i (Starting ret) (S\<lparr>rx_lock := Some i\<rparr>))"
| start: "pcs S i = Starting ret \<Longrightarrow> outcome recovery (lossy \<or> cut S) CStart (ran S) r l \<Longrightarrow>
    start_step recovery lossy i S (goto i (Started ret r) (S\<lparr>ran := l\<rparr>))"
| started: "pcs S i = Started ret AOk \<Longrightarrow>
    start_step recovery lossy i S (goto i (after_start ret True) (S\<lparr>flag := True, rx_lock := None\<rparr>))"
| start_failed: "pcs S i = Started ret AFail \<Longrightarrow>
    start_step recovery lossy i S (goto i (after_start ret False) (S\<lparr>rx_lock := None\<rparr>))"
| start_unconfigured: "pcs S i = Started ret ANotConfigured \<Longrightarrow>
    start_step recovery lossy i S (goto i (Reapplying ret) (S\<lparr>rx_lock := None\<rparr>))"
| restart: "pcs S i = Restarting ret \<Longrightarrow> outcome recovery (lossy \<or> cut S) CStart (ran S) r l \<Longrightarrow>
    start_step recovery lossy i S (goto i (Restarted ret r) (S\<lparr>ran := l\<rparr>))"
| restarted: "pcs S i = Restarted ret AOk \<Longrightarrow> start_step recovery lossy i S (goto i (WantMark ret) S)"
| restart_failed: "pcs S i = Restarted ret r \<Longrightarrow> r \<noteq> AOk \<Longrightarrow>
    start_step recovery lossy i S (goto i (after_start ret False) S)"
| mark: "pcs S i = WantMark ret \<Longrightarrow> rx_lock S = None \<Longrightarrow>
    start_step recovery lossy i S (goto i (after_start ret True) (S\<lparr>flag := True\<rparr>))"

text \<open>\<^verbatim>\<open>reapply_config\<close>\<close>
inductive reapply_step :: "bool \<Rightarrow> bool \<Rightarrow> nat \<Rightarrow> 'm dsys \<Rightarrow> 'm dsys \<Rightarrow> bool" for recovery lossy i where
  nothing_applied: "pcs S i = Reapplying ret \<Longrightarrow> applied S = None \<Longrightarrow>
    reapply_step recovery lossy i S (goto i (after_start ret False) S)"
| reapply: "pcs S i = Reapplying ret \<Longrightarrow> applied S = Some m \<Longrightarrow>
    reapply_step recovery lossy i S (goto i (Reconfiguring ret m) S)"
| reconfigure: "pcs S i = Reconfiguring ret m \<Longrightarrow> outcome recovery (lossy \<or> cut S) (CSet cur) (ran S) r l \<Longrightarrow>
    reapply_step recovery lossy i S (goto i (Reconfigured ret r cur) (S\<lparr>ran := l\<rparr>))"
| reconfigured: "pcs S i = Reconfigured ret AOk cur \<Longrightarrow>
    reapply_step recovery lossy i S (goto i (after_reapply ret) (S\<lparr>applied := Some cur\<rparr>))"
| reconfigure_failed: "pcs S i = Reconfigured ret r cur \<Longrightarrow> r \<noteq> AOk \<Longrightarrow>
    reapply_step recovery lossy i S (goto i (after_start ret False) S)"

text \<open>\<^verbatim>\<open>rx_stop\<close>\<close>
inductive stop_step :: "bool \<Rightarrow> bool \<Rightarrow> nat \<Rightarrow> 'm dsys \<Rightarrow> 'm dsys \<Rightarrow> bool" for recovery lossy i where
  call_stop: "pcs S i = DIdle \<Longrightarrow> stop_step recovery lossy i S (goto i StopChecking S)"
| stop_closed: "pcs S i = StopChecking \<Longrightarrow> shut S \<Longrightarrow> stop_step recovery lossy i S (goto i DDone S)"
| stop_open: "pcs S i = StopChecking \<Longrightarrow> \<not> shut S \<Longrightarrow> stop_step recovery lossy i S (goto i Stopping S)"
| stop: "pcs S i = Stopping \<Longrightarrow> outcome recovery (lossy \<or> cut S) CStop (ran S) r l \<Longrightarrow>
    stop_step recovery lossy i S (goto i (Stopped r) (S\<lparr>ran := l\<rparr>))"
| stopped: "pcs S i = Stopped AOk \<Longrightarrow> stop_step recovery lossy i S (goto i WantClear S)"
| stop_failed: "pcs S i = Stopped r \<Longrightarrow> r \<noteq> AOk \<Longrightarrow> stop_step recovery lossy i S (goto i DDone S)"

text \<open>\<^verbatim>\<open>set_config\<close>; clearing the flag is the last statement of \<^verbatim>\<open>rx_stop\<close> as well.\<close>
inductive config_step :: "bool \<Rightarrow> bool \<Rightarrow> nat \<Rightarrow> 'm dsys \<Rightarrow> 'm dsys \<Rightarrow> bool" for recovery lossy i where
  call_config: "pcs S i = DIdle \<Longrightarrow> config_step recovery lossy i S (goto i (ConfigChecking m) S)"
| config_closed: "pcs S i = ConfigChecking m \<Longrightarrow> shut S \<Longrightarrow> config_step recovery lossy i S (goto i DDone S)"
| config_open: "pcs S i = ConfigChecking m \<Longrightarrow> \<not> shut S \<Longrightarrow>
    config_step recovery lossy i S (goto i (Configuring m) S)"
| configure: "pcs S i = Configuring m \<Longrightarrow> outcome recovery (lossy \<or> cut S) (CSet cur) (ran S) r l \<Longrightarrow>
    config_step recovery lossy i S (goto i (Configured r cur) (S\<lparr>ran := l\<rparr>))"
| configured: "pcs S i = Configured AOk cur \<Longrightarrow>
    config_step recovery lossy i S (goto i WantClear (S\<lparr>applied := Some cur\<rparr>))"
| config_failed: "pcs S i = Configured r cur \<Longrightarrow> r \<noteq> AOk \<Longrightarrow> config_step recovery lossy i S (goto i DDone S)"
| clear: "pcs S i = WantClear \<Longrightarrow> rx_lock S = None \<Longrightarrow>
    config_step recovery lossy i S (goto i DDone (S\<lparr>flag := False\<rparr>))"

text \<open>\<^verbatim>\<open>recv\<close> (with a timeout) and \<^verbatim>\<open>next_rx\<close> (without)\<close>
inductive recv_step :: "nat \<Rightarrow> 'm dsys \<Rightarrow> 'm dsys \<Rightarrow> bool" for i where
  call_recv: "pcs S i = DIdle \<Longrightarrow> recv_step i S (goto i (RecvChecking b) S)"
| recv_closed: "pcs S i = RecvChecking b \<Longrightarrow> shut S \<Longrightarrow> recv_step i S (goto i DDone S)"
| recv_open: "pcs S i = RecvChecking b \<Longrightarrow> \<not> shut S \<Longrightarrow> recv_step i S (goto i (PeekRx b) S)"
| peek: "pcs S i = PeekRx b \<Longrightarrow> rx_lock S = None \<Longrightarrow>
    recv_step i S (goto i (if flag S then WantQueue b else StartChecking (ToRecv b)) S)"
| lock_queue: "pcs S i = WantQueue b \<Longrightarrow> queue_lock S = None \<Longrightarrow>
    recv_step i S (goto i (Receiving b) (S\<lparr>queue_lock := Some i\<rparr>))"
| timed_out: "pcs S i = Receiving True \<Longrightarrow> recv_step i S (goto i DDone (S\<lparr>queue_lock := None\<rparr>))"

text \<open>\<^verbatim>\<open>tx_with_timeout\<close>\<close>
inductive send_step :: "bool \<Rightarrow> bool \<Rightarrow> nat \<Rightarrow> 'm dsys \<Rightarrow> 'm dsys \<Rightarrow> bool" for recovery lossy i where
  call_send: "pcs S i = DIdle \<Longrightarrow> send_step recovery lossy i S (goto i SendChecking S)"
| send_closed: "pcs S i = SendChecking \<Longrightarrow> shut S \<Longrightarrow> send_step recovery lossy i S (goto i DDone S)"
| send_open: "pcs S i = SendChecking \<Longrightarrow> \<not> shut S \<Longrightarrow> send_step recovery lossy i S (goto i Sending S)"
| send: "pcs S i = Sending \<Longrightarrow> outcome recovery (lossy \<or> cut S) CSend (ran S) r l \<Longrightarrow>
    send_step recovery lossy i S (goto i (Sent r) (S\<lparr>ran := l\<rparr>))"
| sent: "pcs S i = Sent r \<Longrightarrow> r \<noteq> ANotConfigured \<Longrightarrow> send_step recovery lossy i S (goto i DDone S)"

text \<open>\<^verbatim>\<open>recover_and_retry_tx\<close>\<close>
inductive resend_step :: "bool \<Rightarrow> bool \<Rightarrow> nat \<Rightarrow> 'm dsys \<Rightarrow> 'm dsys \<Rightarrow> bool" for recovery lossy i where
  send_unconfigured: "pcs S i = Sent ANotConfigured \<Longrightarrow>
    resend_step recovery lossy i S (goto i (Reapplying ToSend) S)"
| resend: "pcs S i = Resending \<Longrightarrow> outcome recovery (lossy \<or> cut S) CSend (ran S) r l \<Longrightarrow>
    resend_step recovery lossy i S (goto i DDone (S\<lparr>ran := l\<rparr>))"

text \<open>\<^verbatim>\<open>tx_with_retry\<close>, with the attempts left\<close>
inductive retry_step :: "bool \<Rightarrow> bool \<Rightarrow> nat \<Rightarrow> 'm dsys \<Rightarrow> 'm dsys \<Rightarrow> bool" for recovery lossy i where
  call_retry: "pcs S i = DIdle \<Longrightarrow> retry_step recovery lossy i S (goto i (RetryChecking n) S)"
| retry_closed: "pcs S i = RetryChecking n \<Longrightarrow> shut S \<Longrightarrow> retry_step recovery lossy i S (goto i DDone S)"
| retry_open: "pcs S i = RetryChecking n \<Longrightarrow> \<not> shut S \<Longrightarrow>
    retry_step recovery lossy i S (goto i (Attempting n) S)"
| no_attempt: "pcs S i = Attempting 0 \<Longrightarrow> retry_step recovery lossy i S (goto i DDone S)"
| attempt: "pcs S i = Attempting (Suc n) \<Longrightarrow> outcome recovery (lossy \<or> cut S) CSend (ran S) r l \<Longrightarrow>
    retry_step recovery lossy i S (goto i (Attempted n r) (S\<lparr>ran := l\<rparr>))"
| attempted: "pcs S i = Attempted n r \<Longrightarrow> retry_step recovery lossy i S (goto i DDone S)"
| attempt_again: "pcs S i = Attempted (Suc n) AFail \<Longrightarrow>
    retry_step recovery lossy i S (goto i (Attempting (Suc n)) S)"

text \<open>\<^verbatim>\<open>ping\<close>\<close>
inductive ping_step :: "bool \<Rightarrow> bool \<Rightarrow> nat \<Rightarrow> 'm dsys \<Rightarrow> 'm dsys \<Rightarrow> bool" for recovery lossy i where
  call_ping: "pcs S i = DIdle \<Longrightarrow> ping_step recovery lossy i S (goto i PingChecking S)"
| ping_closed: "pcs S i = PingChecking \<Longrightarrow> shut S \<Longrightarrow> ping_step recovery lossy i S (goto i DDone S)"
| ping_open: "pcs S i = PingChecking \<Longrightarrow> \<not> shut S \<Longrightarrow> ping_step recovery lossy i S (goto i Pinging S)"
| pinged: "pcs S i = Pinging \<Longrightarrow> outcome recovery (lossy \<or> cut S) CPing (ran S) r l \<Longrightarrow>
    ping_step recovery lossy i S (goto i DDone (S\<lparr>ran := l\<rparr>))"

text \<open>The keepalive task; there is one at most, and \<^verbatim>\<open>close\<close> aborts it.\<close>
inductive keep_step :: "bool \<Rightarrow> bool \<Rightarrow> nat \<Rightarrow> 'm dsys \<Rightarrow> 'm dsys \<Rightarrow> bool" for recovery lossy i where
  keep_spawn: "pcs S i = DIdle \<Longrightarrow> (\<forall>j. \<not> keeper (pcs S j)) \<Longrightarrow> \<not> shut S \<Longrightarrow>
    keep_step recovery lossy i S (goto i KeepSleeping S)"
| keep_wake: "pcs S i = KeepSleeping \<Longrightarrow> keep_step recovery lossy i S (goto i KeepChecking S)"
| keep_closed: "pcs S i = KeepChecking \<Longrightarrow> shut S \<Longrightarrow> keep_step recovery lossy i S (goto i DDone S)"
| keep_recent: "pcs S i = KeepChecking \<Longrightarrow> \<not> shut S \<Longrightarrow> keep_step recovery lossy i S (goto i KeepSleeping S)"
| keep_due: "pcs S i = KeepChecking \<Longrightarrow> \<not> shut S \<Longrightarrow> keep_step recovery lossy i S (goto i KeepPinging S)"
| keep_ping: "pcs S i = KeepPinging \<Longrightarrow> outcome recovery (lossy \<or> cut S) CPing (ran S) r l \<Longrightarrow>
    keep_step recovery lossy i S (goto i (KeepPinged r) (S\<lparr>ran := l\<rparr>))"
| keep_pinged: "pcs S i = KeepPinged r \<Longrightarrow> r \<noteq> ANotConfigured \<Longrightarrow>
    keep_step recovery lossy i S (goto i KeepSleeping S)"
| keep_unconfigured: "pcs S i = KeepPinged ANotConfigured \<Longrightarrow>
    keep_step recovery lossy i S (goto i KeepReading S)"
| keep_nothing: "pcs S i = KeepReading \<Longrightarrow> applied S = None \<Longrightarrow>
    keep_step recovery lossy i S (goto i KeepSleeping S)"
| keep_reapply: "pcs S i = KeepReading \<Longrightarrow> applied S = Some m \<Longrightarrow>
    keep_step recovery lossy i S (goto i (KeepConfiguring m) S)"
| keep_configure: "pcs S i = KeepConfiguring m \<Longrightarrow> outcome recovery (lossy \<or> cut S) (CSet cur) (ran S) r l \<Longrightarrow>
    keep_step recovery lossy i S (goto i KeepSleeping (S\<lparr>ran := l\<rparr>))"
| keep_aborted: "keeper (pcs S i) \<Longrightarrow> shut S \<Longrightarrow> keep_step recovery lossy i S (goto i DDone S)"

text \<open>\<^verbatim>\<open>close\<close>: the flag, then the session, whose commands under way fail.\<close>
inductive shut_step :: "nat \<Rightarrow> 'm dsys \<Rightarrow> 'm dsys \<Rightarrow> bool" for i where
  close_again: "pcs S i = DIdle \<Longrightarrow> shut S \<Longrightarrow> shut_step i S (goto i DDone S)"
| call_close: "pcs S i = DIdle \<Longrightarrow> \<not> shut S \<Longrightarrow> shut_step i S (goto i Closing (S\<lparr>shut := True\<rparr>))"
| close_session: "pcs S i = Closing \<Longrightarrow> shut_step i S (goto i DDone (S\<lparr>cut := True\<rparr>))"

text \<open>A step of a task; a future may be dropped.\<close>
inductive dstep :: "bool \<Rightarrow> bool \<Rightarrow> nat \<Rightarrow> 'm dsys \<Rightarrow> 'm dsys \<Rightarrow> bool" for recovery lossy i where
  in_start: "start_step recovery lossy i S T \<Longrightarrow> dstep recovery lossy i S T"
| in_reapply: "reapply_step recovery lossy i S T \<Longrightarrow> dstep recovery lossy i S T"
| in_stop: "stop_step recovery lossy i S T \<Longrightarrow> dstep recovery lossy i S T"
| in_config: "config_step recovery lossy i S T \<Longrightarrow> dstep recovery lossy i S T"
| in_recv: "recv_step i S T \<Longrightarrow> dstep recovery lossy i S T"
| in_send: "send_step recovery lossy i S T \<Longrightarrow> dstep recovery lossy i S T"
| in_resend: "resend_step recovery lossy i S T \<Longrightarrow> dstep recovery lossy i S T"
| in_retry: "retry_step recovery lossy i S T \<Longrightarrow> dstep recovery lossy i S T"
| in_ping: "ping_step recovery lossy i S T \<Longrightarrow> dstep recovery lossy i S T"
| in_keep: "keep_step recovery lossy i S T \<Longrightarrow> dstep recovery lossy i S T"
| in_close: "shut_step i S T \<Longrightarrow> dstep recovery lossy i S T"
| dropped: "lossy \<Longrightarrow> pcs S i \<noteq> DIdle \<Longrightarrow>
    dstep recovery lossy i S (goto i DDone (S\<lparr>rx_lock := (if rx_lock S = Some i then None else rx_lock S),
      queue_lock := (if queue_lock S = Some i then None else queue_lock S)\<rparr>))"

lemmas step_cases =
  start_step.cases reapply_step.cases stop_step.cases config_step.cases recv_step.cases send_step.cases
  resend_step.cases retry_step.cases ping_step.cases keep_step.cases shut_step.cases

text \<open>A packet arrives for the task that listens, or the queue ends.\<close>
inductive packet :: "'m dsys \<Rightarrow> 'm dsys \<Rightarrow> bool" where
  handed: "pcs S i = Receiving b \<Longrightarrow> packet S (goto i DDone (S\<lparr>queue_lock := None\<rparr>))"

text \<open>A closed session fails a command whose answer has not been seen yet.\<close>
inductive dsys_step :: "bool \<Rightarrow> bool \<Rightarrow> 'm dsys \<Rightarrow> 'm dsys \<Rightarrow> bool" for recovery lossy where
  task: "dstep recovery lossy i S T \<Longrightarrow> dsys_step recovery lossy S T"
| arrival: "packet S T \<Longrightarrow> dsys_step recovery lossy S T"
| cut_off: "cut S \<Longrightarrow> dsys_step recovery lossy S (goto i (failing (pcs S i)) S)"

inductive dreachable :: "bool \<Rightarrow> bool \<Rightarrow> 'm option \<Rightarrow> 'm dsys \<Rightarrow> bool" for recovery lossy a where
  init: "dreachable recovery lossy a (dsys_init a)"
| step: "dreachable recovery lossy a S \<Longrightarrow> dsys_step recovery lossy S T \<Longrightarrow> dreachable recovery lossy a T"

inductive_cases dsys_stepE: "dsys_step recovery lossy S T"

subsection \<open>The locks\<close>

fun holds_rx :: "'m dpc \<Rightarrow> bool" where
  "holds_rx (Starting ret) = True"
| "holds_rx (Started ret r) = True"
| "holds_rx _ = False"

fun holds_queue :: "'m dpc \<Rightarrow> bool" where
  "holds_queue (Receiving b) = True"
| "holds_queue _ = False"

lemma after_start_holds [simp]: "\<not> holds_rx (after_start ret ok)" "\<not> holds_queue (after_start ret ok)"
  by (cases "(ret, ok)" rule: after_start.cases; simp)+

lemma after_reapply_holds [simp]: "\<not> holds_rx (after_reapply ret)" "\<not> holds_queue (after_reapply ret)"
  by (cases ret; simp)+

lemma keeper_holds: "keeper pc \<Longrightarrow> \<not> holds_rx pc \<and> \<not> holds_queue pc"
  by (cases pc) simp_all

lemma failing_holds [simp]: "holds_rx (failing pc) = holds_rx pc" "holds_queue (failing pc) = holds_queue pc"
  by (cases pc; simp)+

definition locks_ok :: "'m dsys \<Rightarrow> bool" where
  "locks_ok S \<longleftrightarrow>
     (\<forall>i. rx_lock S = Some i \<longleftrightarrow> holds_rx (pcs S i)) \<and> (\<forall>i. queue_lock S = Some i \<longleftrightarrow> holds_queue (pcs S i))"

lemma locks_ok_holder:
  assumes "locks_ok S"
  shows "holds_rx (pcs S i) \<Longrightarrow> holds_rx (pcs S j) \<longleftrightarrow> j = i"
    "holds_queue (pcs S i) \<Longrightarrow> holds_queue (pcs S j) \<longleftrightarrow> j = i"
  using assms by (metis locks_ok_def option.inject)+

lemma locks_ok_step:
  assumes inv: "locks_ok S" and step: "dstep recovery lossy i S T"
  shows "locks_ok T"
proof -
  note h = locks_ok_holder [OF inv, of i]
  have l: "rx_lock S = Some j \<longleftrightarrow> holds_rx (pcs S j)" "queue_lock S = Some j \<longleftrightarrow> holds_queue (pcs S j)" for j
    using inv by (simp_all add: locks_ok_def)
  show ?thesis using step
    by (cases; (elim step_cases)?)
      (use h l keeper_holds [of "pcs S i"] in \<open>auto simp: locks_ok_def split: if_splits\<close>)
qed

lemma locks_ok_packet: "locks_ok S \<Longrightarrow> packet S T \<Longrightarrow> locks_ok T"
  using locks_ok_holder(2) [of S] by (fastforce simp: locks_ok_def elim!: packet.cases split: if_splits)

lemma dreachable_run: "dreachable recovery lossy a S \<longleftrightarrow> (dsys_step recovery lossy)\<^sup>*\<^sup>* (dsys_init a) S"
proof
  assume "dreachable recovery lossy a S"
  then show "(dsys_step recovery lossy)\<^sup>*\<^sup>* (dsys_init a) S" by induction auto
next
  assume "(dsys_step recovery lossy)\<^sup>*\<^sup>* (dsys_init a) S"
  then show "dreachable recovery lossy a S" by (induction rule: rtranclp_induct) (auto intro: dreachable.intros)
qed

lemma locks_ok_init: "locks_ok (dsys_init a)"
  by (simp add: locks_ok_def dsys_init_def)

lemma locks_ok_failing: "locks_ok S \<Longrightarrow> locks_ok (goto i (failing (pcs S i)) S)"
  by (simp add: locks_ok_def)

interpretation locks: step_invariant "dsys_init a" "dsys_step recovery lossy" locks_ok for a recovery lossy
  by unfold_locales
    (auto intro: locks_ok_init locks_ok_failing elim!: dsys_stepE dest: locks_ok_step locks_ok_packet)

lemma dreachable_locks: "dreachable recovery lossy a S \<Longrightarrow> locks_ok S"
  unfolding dreachable_run by (rule locks.run_inv)

text \<open>Whoever holds \<^verbatim>\<open>rx_started\<close> waits for nothing but the device, and has let go after two steps.\<close>

lemma holder_moves: "holds_rx (pcs S i) \<Longrightarrow> \<exists>T. dstep recovery lossy i S T"
proof (cases "pcs S i")
  case (Starting ret)
  from start [OF this done_ok] show ?thesis by (blast intro: in_start)
next
  case (Started ret r)
  then show ?thesis
    by (cases r) (blast intro: in_start started start_failed start_unconfigured)+
qed simp_all

lemma holder_releases:
  assumes "locks_ok S" "dstep recovery lossy i S T"
  shows "pcs S i = Starting ret \<Longrightarrow> rx_lock T = None \<or> (\<exists>r. pcs T i = Started ret r)"
    "pcs S i = Started ret r \<Longrightarrow> rx_lock T = None"
proof -
  have l: "holds_rx (pcs S i) \<Longrightarrow> rx_lock S = Some i" using assms(1) by (simp add: locks_ok_def)
  show "rx_lock T = None \<or> (\<exists>r. pcs T i = Started ret r)" if "pcs S i = Starting ret"
    using assms(2) that l by (cases; (elim step_cases)?) auto
  show "rx_lock T = None" if "pcs S i = Started ret r"
    using assms(2) that l by (cases; (elim step_cases)?) auto
qed

text \<open>Every call can go on, or waits for a holder that can.\<close>

fun parked :: "'m dpc \<Rightarrow> bool" where
  "parked DDone = True"
| "parked (WantQueue b) = True"
| "parked (Receiving b) = (\<not> b)"
| "parked _ = False"

lemma rx_lock_progress:
  assumes inv: "locks_ok S" and np: "\<not> parked (pcs S i)"
  shows "(\<exists>T. dstep recovery lossy i S T)
    \<or> (\<exists>j T. j \<noteq> i \<and> rx_lock S = Some j \<and> holds_rx (pcs S j) \<and> dstep recovery lossy j S T)"
proof (cases "rx_lock S")
  case (Some j)
  with inv have j: "holds_rx (pcs S j)" unfolding locks_ok_def by blast
  from holder_moves [OF j, of recovery lossy] obtain T where T: "dstep recovery lossy j S T" by blast
  with Some j show ?thesis by (cases "j = i") blast+
next
  case None
  have "\<exists>T. dstep recovery lossy i S T"
  proof (cases "pcs S i")
    case (StartChecking ret)
    then show ?thesis by (cases "shut S") (blast intro: in_start start_closed start_open)+
  next
    case (WantRx ret)
    with None show ?thesis by (cases "flag S") (blast intro: in_start already lock_rx)+
  next
    case (Reapplying ret)
    then show ?thesis by (cases "applied S") (blast intro: in_reapply nothing_applied reapply)+
  next
    case (Reconfigured ret r m)
    then show ?thesis by (cases "r = AOk") (blast intro: in_reapply reconfigured reconfigure_failed)+
  next
    case (Restarted ret r)
    then show ?thesis by (cases "r = AOk") (blast intro: in_start restarted restart_failed)+
  next
    case StopChecking
    then show ?thesis by (cases "shut S") (blast intro: in_stop stop_closed stop_open)+
  next
    case (Stopped r)
    then show ?thesis by (cases "r = AOk") (blast intro: in_stop stopped stop_failed)+
  next
    case (ConfigChecking m)
    then show ?thesis by (cases "shut S") (blast intro: in_config config_closed config_open)+
  next
    case (Configured r m)
    then show ?thesis by (cases "r = AOk") (blast intro: in_config configured config_failed)+
  next
    case (RecvChecking b)
    then show ?thesis by (cases "shut S") (blast intro: in_recv recv_closed recv_open)+
  next
    case SendChecking
    then show ?thesis by (cases "shut S") (blast intro: in_send send_closed send_open)+
  next
    case Sending
    then show ?thesis by (blast intro: in_send send done_ok)
  next
    case (Sent r)
    then show ?thesis by (cases r) (blast intro: in_send in_resend sent send_unconfigured)+
  next
    case Resending
    then show ?thesis by (blast intro: in_resend resend done_ok)
  next
    case (RetryChecking n)
    then show ?thesis by (cases "shut S") (blast intro: in_retry retry_closed retry_open)+
  next
    case (Attempting n)
    then show ?thesis by (cases n) (blast intro: in_retry no_attempt attempt done_ok)+
  next
    case (Attempted n r)
    then show ?thesis by (blast intro: in_retry attempted)
  next
    case PingChecking
    then show ?thesis by (cases "shut S") (blast intro: in_ping ping_closed ping_open)+
  next
    case Pinging
    then show ?thesis by (blast intro: in_ping pinged done_ok)
  next
    case KeepSleeping
    then show ?thesis by (blast intro: in_keep keep_wake)
  next
    case KeepChecking
    then show ?thesis by (cases "shut S") (blast intro: in_keep keep_closed keep_due)+
  next
    case KeepPinging
    then show ?thesis by (blast intro: in_keep keep_ping done_ok)
  next
    case (KeepPinged r)
    then show ?thesis by (cases "r = ANotConfigured") (blast intro: in_keep keep_pinged keep_unconfigured)+
  next
    case KeepReading
    then show ?thesis by (cases "applied S") (blast intro: in_keep keep_nothing keep_reapply)+
  next
    case (KeepConfiguring m)
    then show ?thesis by (blast intro: in_keep keep_configure done_ok)
  next
    case DIdle
    then show ?thesis by (blast intro: in_start call_start)
  next
    case (Starting ret)
    then show ?thesis by (intro holder_moves) simp
  next
    case (Started ret r)
    then show ?thesis by (intro holder_moves) simp
  next
    case (Reconfiguring ret m)
    then show ?thesis by (blast intro: in_reapply reconfigure done_ok)
  next
    case (Restarting ret)
    then show ?thesis by (blast intro: in_start restart done_ok)
  next
    case (WantMark ret)
    with None show ?thesis by (blast intro: in_start mark)
  next
    case Stopping
    then show ?thesis by (blast intro: in_stop stop done_ok)
  next
    case (Configuring m)
    then show ?thesis by (blast intro: in_config configure done_ok)
  next
    case WantClear
    with None show ?thesis by (blast intro: in_config clear)
  next
    case (PeekRx b)
    with None show ?thesis by (blast intro: in_recv peek)
  next
    case Closing
    then show ?thesis by (blast intro: in_close close_session)
  next
    case (Receiving b)
    with np have "pcs S i = Receiving True" by simp
    then show ?thesis by (blast intro: in_recv timed_out)
  qed (use np in simp_all)
  then show ?thesis by blast
qed

subsection \<open>What the flag is worth\<close>

text \<open>A task whose RX\_STOP or SET\_CONFIG was carried out and that has not yet cleared the flag.\<close>
fun clearing :: "'m dpc \<Rightarrow> bool" where
  "clearing (Stopped AOk) = True"
| "clearing (Configured AOk m) = True"
| "clearing WantClear = True"
| "clearing _ = False"

fun recovering :: "'m dpc \<Rightarrow> bool" where
  "recovering (Started ret ANotConfigured) = True"
| "recovering (Reapplying ret) = True"
| "recovering (Reconfiguring ret m) = True"
| "recovering (Reconfigured ret r m) = True"
| "recovering (Restarting ret) = True"
| "recovering (Restarted ret r) = True"
| "recovering (WantMark ret) = True"
| "recovering (Sent ANotConfigured) = True"
| "recovering Resending = True"
| "recovering (KeepPinged ANotConfigured) = True"
| "recovering KeepReading = True"
| "recovering (KeepConfiguring m) = True"
| "recovering _ = False"

lemma after_start_plain [simp]:
  "\<not> clearing (after_start ret ok)" "\<not> recovering (after_start ret ok)" "after_start ret ok \<noteq> Started ret' r"
  by (cases "(ret, ok)" rule: after_start.cases; simp)+

lemma keeper_plain: "keeper pc \<Longrightarrow> \<not> clearing pc"
  by (cases pc) simp_all

text \<open>
  The flag is set, or about to be set by the holder of its lock, only if the last command about
  reception that was carried out is an RX\_START, or somebody is about to clear the flag.
\<close>
definition flag_ok :: "'m dsys \<Rightarrow> bool" where
  "flag_ok S \<longleftrightarrow>
     ((flag S \<or> (\<exists>j ret. pcs S j = Started ret AOk)) \<longrightarrow> last_is_start (ran S) \<or> (\<exists>i. clearing (pcs S i)))
     \<and> (\<forall>i. \<not> recovering (pcs S i))"

lemma flag_okD:
  assumes "flag_ok S"
  shows "flag S \<Longrightarrow> last_is_start (ran S) \<or> (\<exists>i. clearing (pcs S i))"
    "pcs S j = Started ret AOk \<Longrightarrow> last_is_start (ran S) \<or> (\<exists>i. clearing (pcs S i))"
    "\<not> recovering (pcs S i)"
  using assms by (auto simp: flag_ok_def)

text \<open>A step of a task that carries out no command about reception and gives up no duty to clear.\<close>

lemma flag_frame:
  assumes "flag_ok S" "\<And>j. j \<noteq> i \<Longrightarrow> pcs T j = pcs S j" "last_is_start (ran T) = last_is_start (ran S)"
    "\<not> clearing (pcs S i) \<or> clearing (pcs T i)" "\<not> recovering (pcs T i)" "\<And>ret. pcs T i \<noteq> Started ret AOk"
    "flag T \<Longrightarrow> flag S \<or> (\<exists>ret. pcs S i = Started ret AOk)"
  shows "flag_ok T"
proof -
  note D = flag_okD [OF assms(1)]
  have old: "last_is_start (ran S) \<or> (\<exists>k. clearing (pcs S k))"
    if "flag T \<or> (\<exists>j ret. pcs T j = Started ret AOk)"
    using that assms(2,6,7) D(1,2) by metis
  have "\<exists>k. clearing (pcs T k)" if "clearing (pcs S k)" for k
    using that assms(2,4) by (cases "k = i") metis+
  moreover have "\<not> recovering (pcs T j)" for j using assms(2,5) D(3) by (cases "j = i") auto
  ultimately show ?thesis using old assms(3) unfolding flag_ok_def by blast
qed

lemma keeper_start: "keeper pc \<Longrightarrow> pc \<noteq> Started ret r"
  by (cases pc) simp_all

lemma flag_ok_start:
  assumes inv: "flag_ok S" and "\<not> cut S" "start_step False False i S T"
  shows "flag_ok T"
proof -
  note D = flag_okD [OF inv] and frame = flag_frame [OF inv, of i]
  show ?thesis using assms(3)
  proof cases
    case (start ret r l)
    then consider "r = AOk" "l = CStart # ran S" | "r = AFail" "l = ran S" using assms(2) by (auto simp: outcome_simps)
    then show ?thesis
    proof cases
      case 1
      with start D(3) show ?thesis by (simp add: flag_ok_def)
    next
      case 2
      with start show ?thesis by (intro frame) simp_all
    qed
  qed (intro frame; use D(3) [of i] in auto)+
qed

lemma flag_ok_stop:
  assumes inv: "flag_ok S" and "\<not> cut S" "stop_step False False i S T"
  shows "flag_ok T"
proof -
  note D = flag_okD [OF inv] and frame = flag_frame [OF inv, of i]
  show ?thesis using assms(3)
  proof cases
    case (stop r l)
    then consider "r = AOk" | "r = AFail" "l = ran S" using assms(2) by (auto simp: outcome_simps)
    then show ?thesis
    proof cases
      case 1
      with stop D(3) show ?thesis by (auto simp: flag_ok_def intro: exI [of _ i])
    next
      case 2
      with stop show ?thesis by (intro frame) simp_all
    qed
  next
    case (stop_failed r)
    then show ?thesis by (cases r) (intro frame; simp)+
  qed (intro frame; use D(3) [of i] in auto)+
qed

lemma flag_ok_config:
  assumes inv: "flag_ok S" and locks: "locks_ok S" and "\<not> cut S" "config_step False False i S T"
  shows "flag_ok T"
proof -
  note D = flag_okD [OF inv] and frame = flag_frame [OF inv, of i]
  show ?thesis using assms(4)
  proof cases
    case (configure m cur r l)
    then consider "r = AOk" | "r = AFail" "l = ran S" using assms(3) by (auto simp: outcome_simps)
    then show ?thesis
    proof cases
      case 1
      with configure D(3) show ?thesis by (auto simp: flag_ok_def intro: exI [of _ i])
    next
      case 2
      with configure show ?thesis by (intro frame) simp_all
    qed
  next
    case (config_failed r cur)
    then show ?thesis by (cases r) (intro frame; simp)+
  next
    case clear
    have "\<not> holds_rx (pcs S j)" for j using locks clear(3) unfolding locks_ok_def by (metis option.distinct(1))
    then have "pcs S j \<noteq> Started ret AOk" for j ret by (metis holds_rx.simps(2))
    with clear D(3) show ?thesis by (simp add: flag_ok_def)
  qed (intro frame; use D(3) [of i] in auto)+
qed

text \<open>The other calls carry out no command about reception, unless they recover.\<close>

lemma flag_ok_plain:
  assumes inv: "flag_ok S" and "\<not> cut S"
    and step: "reapply_step False False i S T \<or> recv_step i S T \<or> send_step False False i S T
      \<or> resend_step False False i S T \<or> retry_step False False i S T \<or> ping_step False False i S T"
  shows "flag_ok T"
proof -
  note D = flag_okD [OF inv] and frame = flag_frame [OF inv, of i]
  show ?thesis using step
    by (elim disjE step_cases; intro frame; use D(3) [of i] assms(2) in \<open>auto simp: outcome_simps\<close>)
qed

lemma flag_ok_keep:
  assumes inv: "flag_ok S" and "\<not> cut S" and step: "keep_step False False i S T"
  shows "flag_ok T"
proof -
  note D = flag_okD [OF inv] and frame = flag_frame [OF inv, of i]
  show ?thesis using step
  proof cases
    case keep_aborted
    then show ?thesis using keeper_plain [of "pcs S i"] by (intro frame) auto
  qed (intro frame; use D(3) [of i] assms(2) in \<open>auto simp: outcome_simps\<close>)+
qed

lemma flag_ok_step:
  assumes inv: "flag_ok S" and locks: "locks_ok S" and up: "\<not> cut S" and step: "dstep False False i S T"
  shows "cut T \<or> flag_ok T"
  using step
proof cases
  case in_close
  then show ?thesis
  proof cases
    case close_session
    then show ?thesis by simp
  qed (rule disjI2, intro flag_frame [OF inv, of i]; auto)+
qed (use flag_ok_start [OF inv up] flag_ok_stop [OF inv up] flag_ok_config [OF inv locks up]
    flag_ok_keep [OF inv up] flag_ok_plain [OF inv up] in blast)+

lemma flag_ok_packet:
  assumes "flag_ok S" "packet S T"
  shows "flag_ok T"
  using assms(2)
proof cases
  case (handed i b)
  then show ?thesis by (intro flag_frame [OF assms(1), of i]) simp_all
qed

lemma cut_stays: "dsys_step recovery lossy S T \<Longrightarrow> cut S \<Longrightarrow> cut T"
  by (elim dsys_stepE dstep.cases packet.cases; (elim step_cases)?) simp_all

text \<open>In runs without a fault, until the session is closed.\<close>

interpretation clean: step_invariant "dsys_init a" "dsys_step False False" "\<lambda>S. locks_ok S \<and> (cut S \<or> flag_ok S)" for a
proof
  show "locks_ok (dsys_init a) \<and> (cut (dsys_init a) \<or> flag_ok (dsys_init a))"
    by (simp add: locks_ok_init) (simp add: flag_ok_def dsys_init_def)
  show "locks_ok T \<and> (cut T \<or> flag_ok T)" if "locks_ok S \<and> (cut S \<or> flag_ok S)" "dsys_step False False S T" for S T
  proof
    show "locks_ok T" using that locks.step_inv by blast
    show "cut T \<or> flag_ok T" using that cut_stays [OF that(2)]
      by (auto elim!: dsys_stepE dest: flag_ok_step flag_ok_packet)
  qed
qed

lemma dreachable_flag: "dreachable False False a S \<Longrightarrow> \<not> cut S \<Longrightarrow> flag_ok S"
  unfolding dreachable_run using clean.run_inv by blast

subsection \<open>The cached configuration\<close>

text \<open>A call of \<^verbatim>\<open>set_config\<close> from its command to the update of the cache.\<close>
fun setting :: "'m dpc \<Rightarrow> bool" where
  "setting (Configuring m) = True"
| "setting (Configured r m) = True"
| "setting _ = False"

definition one_at_a_time :: "'m dsys \<Rightarrow> bool" where
  "one_at_a_time S \<longleftrightarrow> (\<forall>i j. setting (pcs S i) \<longrightarrow> setting (pcs S j) \<longrightarrow> i = j)"

lemma one_at_a_timeD: "one_at_a_time S \<Longrightarrow> setting (pcs S i) \<Longrightarrow> pcs S j = Configured r cur \<Longrightarrow> j = i"
  unfolding one_at_a_time_def by (metis setting.simps(2))

text \<open>Runs without faults whose user does not set two configurations at the same time.\<close>
definition serial_step :: "'m dsys \<Rightarrow> 'm dsys \<Rightarrow> bool" where
  "serial_step S T \<longleftrightarrow> dsys_step False False S T \<and> one_at_a_time T"

text \<open>\<open>a\<close> is what connecting left in the cache.\<close>
definition cached :: "'m option \<Rightarrow> 'm dsys \<Rightarrow> bool" where
  "cached a S \<longleftrightarrow>
     (\<forall>i cur. pcs S i = Configured AOk cur \<longrightarrow> last_set a (ran S) = Some cur)
     \<and> ((\<forall>i cur. pcs S i \<noteq> Configured AOk cur) \<longrightarrow> applied S = last_set a (ran S))"

lemma never_configured [simp]: "after_start ret ok \<noteq> Configured r cur" "after_reapply ret \<noteq> Configured r cur"
  by (cases "(ret, ok)" rule: after_start.cases; simp) (cases ret; simp)

lemma keeper_configured: "keeper pc \<Longrightarrow> pc \<noteq> Configured r cur"
  by (cases pc) simp_all

lemma cached_frame:
  assumes "cached a S" "\<And>j. j \<noteq> i \<Longrightarrow> pcs T j = pcs S j" "last_set a (ran T) = last_set a (ran S)"
    "applied T = applied S" "\<And>cur. pcs S i \<noteq> Configured AOk cur" "\<And>cur. pcs T i \<noteq> Configured AOk cur"
  shows "cached a T"
proof -
  have "pcs T j = Configured AOk cur \<longleftrightarrow> pcs S j = Configured AOk cur" for j cur
    using assms(2,5,6) by (cases "j = i") simp_all
  with assms(1,3,4) show ?thesis by (simp add: cached_def)
qed

lemma cached_config:
  assumes inv: "cached a S" and one: "one_at_a_time S" "one_at_a_time T" and up: "\<not> cut S"
    and step: "config_step False False i S T"
  shows "cached a T"
proof -
  note frame = cached_frame [OF inv, of i]
  show ?thesis using step
  proof cases
    case (configure m cur r l)
    then consider "r = AOk" "l = CSet cur # ran S" | "r = AFail" "l = ran S" using up by (auto simp: outcome_simps)
    then show ?thesis
    proof cases
      case 1
      have T: "pcs T i = Configured AOk cur" "last_set a (ran T) = Some cur" using configure(1) 1 by simp_all
      then have "cur' = cur" if "pcs T j = Configured AOk cur'" for j cur'
        using that one_at_a_timeD [OF one(2), of i j] by simp
      with T show ?thesis unfolding cached_def by metis
    next
      case 2
      with configure show ?thesis by (intro frame) simp_all
    qed
  next
    case (configured cur)
    have "pcs S j \<noteq> Configured AOk cur'" if "j \<noteq> i" for j cur'
      using that one_at_a_timeD [OF one(1), of i j] configured(2) by auto
    moreover have "last_set a (ran S) = Some cur" using inv configured(2) by (simp add: cached_def)
    ultimately show ?thesis using configured(1) by (simp add: cached_def)
  next
    case (config_failed r cur)
    then show ?thesis by (cases r) (intro frame; simp)+
  qed (intro frame; simp)+
qed

lemma cached_step:
  assumes inv: "cached a S" and clean: "flag_ok S" and one: "one_at_a_time S" "one_at_a_time T" and up: "\<not> cut S"
    and step: "dstep False False i S T"
  shows "cached a T"
proof -
  note rec = flag_okD(3) [OF clean, of i] and frame = cached_frame [OF inv, of i]
  show ?thesis using step
  proof cases
    case in_config
    then show ?thesis by (rule cached_config [OF inv one up])
  next
    case in_keep
    then show ?thesis
    proof cases
      case keep_aborted
      then show ?thesis using keeper_configured [of "pcs S i"] by (intro frame) simp_all
    qed (intro frame; use rec up in \<open>auto simp: outcome_simps\<close>)+
  next
    case dropped
    then show ?thesis by simp
  qed (elim step_cases; intro frame; use rec up in \<open>auto simp: outcome_simps\<close>)+
qed

lemma cached_packet:
  assumes "cached a S" "packet S T"
  shows "cached a T"
  using assms(2)
proof cases
  case (handed i b)
  then show ?thesis by (intro cached_frame [OF assms(1), of i]) simp_all
qed

lemma cached_init: "cached a (dsys_init a)" "one_at_a_time (dsys_init a)"
  by (simp_all add: cached_def one_at_a_time_def dsys_init_def)

interpretation serial: step_invariant "dsys_init a" serial_step
  "\<lambda>S. (locks_ok S \<and> (cut S \<or> flag_ok S)) \<and> one_at_a_time S \<and> (cut S \<or> cached a S)" for a
proof
  show "(locks_ok (dsys_init a) \<and> (cut (dsys_init a) \<or> flag_ok (dsys_init a)))
      \<and> one_at_a_time (dsys_init a) \<and> (cut (dsys_init a) \<or> cached a (dsys_init a))"
    using clean.start_inv cached_init by blast
  show "(locks_ok T \<and> (cut T \<or> flag_ok T)) \<and> one_at_a_time T \<and> (cut T \<or> cached a T)"
    if "(locks_ok S \<and> (cut S \<or> flag_ok S)) \<and> one_at_a_time S \<and> (cut S \<or> cached a S)" "serial_step S T" for S T
  proof -
    have step: "dsys_step False False S T" "one_at_a_time T" using that(2) by (simp_all add: serial_step_def)
    have "cached a T" if "\<not> cut S" "flag_ok S" "cached a S" "one_at_a_time S"
      using step(1) by cases (use that step(2) in \<open>auto intro: cached_step cached_packet\<close>)
    with that(1) step clean.step_inv [OF _ step(1)] cut_stays [OF step(1)] show ?thesis by blast
  qed
qed

lemma serial_cache:
  assumes "serial_step\<^sup>*\<^sup>* (dsys_init a) S" "\<not> cut S" "\<forall>i. \<not> setting (pcs S i)"
  shows "applied S = last_set a (ran S)"
proof -
  have "cached a S" using serial.run_inv [OF assms(1)] assms(2) by blast
  moreover have "pcs S i \<noteq> Configured AOk cur" for i cur using assms(3) by (metis setting.simps(2))
  ultimately show ?thesis by (simp add: cached_def)
qed

subsection \<open>Schedules\<close>

text \<open>A run given by the states it goes through.\<close>

lemma dreachable_task: "dreachable recovery lossy a S \<Longrightarrow> dstep recovery lossy i S T \<Longrightarrow> dreachable recovery lossy a T"
  by (blast intro: dreachable.step dsys_step.task)

text \<open>
  Task 0 receives without a timeout and holds the receiver; task 1 calls \<^verbatim>\<open>recv\<close> with one and waits
  for the receiver, with nothing it could do by itself.
\<close>
definition blocked_recv :: "'m option \<Rightarrow> 'm dsys" where
  "blocked_recv a = \<lparr>pcs = (\<lambda>_. DIdle)(0 := Receiving False, 1 := WantQueue True), flag = True,
     rx_lock = None, queue_lock = Some 0, applied = a, shut = False, cut = False, ran = [CStart]\<rparr>"

lemma reachable_blocked: "dreachable recovery lossy a (blocked_recv a)"
proof -
  note go = dreachable_task
  have "dreachable recovery lossy a (dsys_init a)" by (rule dreachable.init)
  note go [OF this in_recv [OF call_recv [where i = 0 and b = False]]]
  note go [OF this in_recv [OF recv_open [where b = False and i = 0]]]
  note go [OF this in_recv [OF peek [where b = False and i = 0]]]
  note go [OF this in_start [OF start_open [where ret = "ToRecv False" and i = 0]]]
  note go [OF this in_start [OF lock_rx [where ret = "ToRecv False" and i = 0]]]
  note go [OF this in_start [OF start [where ret = "ToRecv False" and i = 0, OF _ done_ok]]]
  note go [OF this in_start [OF started [where ret = "ToRecv False" and i = 0]]]
  note go [OF this in_recv [OF lock_queue [where b = False and i = 0]]]
  note go [OF this in_recv [OF call_recv [where i = 1 and b = True]]]
  note go [OF this in_recv [OF recv_open [where b = True and i = 1]]]
  note go [OF this in_recv [OF peek [where b = True and i = 1]]]
  then show ?thesis by (simp add: dsys_init_def blocked_recv_def fun_upd_twist)
qed

lemma blocked_stuck: "\<not> dstep recovery False 1 (blocked_recv a) T"
  by (auto simp: blocked_recv_def elim!: dstep.cases step_cases)

text \<open>
  Task 0 starts reception, finds the configuration lost, re-applies it and starts again, all after it
  has let go of \<^verbatim>\<open>rx_started\<close>. Task 1 sets another configuration and clears the flag before task 0
  sets it.
\<close>
definition stale_flag :: "'m \<Rightarrow> 'm \<Rightarrow> 'm dsys" where
  "stale_flag m m' = \<lparr>pcs = (\<lambda>_. DIdle)(0 := DDone, 1 := DDone), flag = True, rx_lock = None, queue_lock = None,
     applied = Some m', shut = False, cut = False, ran = [CSet m', CStart, CSet m]\<rparr>"

lemma reachable_stale: "dreachable True lossy (Some m) (stale_flag m m')"
proof -
  note go = dreachable_task
  let ?st = "\<lambda>ps a d. \<lparr>pcs = ps, flag = False, rx_lock = None, queue_lock = None,
    applied = a, shut = False, cut = False, ran = d\<rparr>"
  have "dreachable True lossy (Some m) (dsys_init (Some m))" by (rule dreachable.init)
  note go [OF this in_start [OF call_start [where i = 0]]]
  note go [OF this in_start [OF start_open [where ret = ToUser and i = 0]]]
  note go [OF this in_start [OF lock_rx [where ret = ToUser and i = 0]]]
  note go [OF this in_start [OF start [where ret = ToUser and i = 0, OF _ unconfigured]]]
  note go [OF this in_start [OF start_unconfigured [where ret = ToUser and i = 0]]]
  then have "dreachable True lossy (Some m) (?st ((\<lambda>_. DIdle)(0 := Reapplying ToUser)) (Some m) [])"
    by (simp add: dsys_init_def)
  note go [OF this in_reapply [OF reapply [where ret = ToUser and i = 0 and m = m]]]
  note go [OF this in_reapply [OF reconfigure [where ret = ToUser and i = 0 and m = m and cur = m, OF _ done_ok]]]
  note go [OF this in_reapply [OF reconfigured [where ret = ToUser and i = 0 and cur = m]]]
  note go [OF this in_start [OF restart [where ret = ToUser and i = 0, OF _ done_ok]]]
  note go [OF this in_start [OF restarted [where ret = ToUser and i = 0]]]
  then have "dreachable True lossy (Some m) (?st ((\<lambda>_. DIdle)(0 := WantMark ToUser)) (Some m) [CStart, CSet m])"
    by simp
  note go [OF this in_config [OF call_config [where i = 1 and m = m']]]
  note go [OF this in_config [OF config_open [where i = 1 and m = m']]]
  note go [OF this in_config [OF configure [where i = 1 and m = m' and cur = m', OF _ done_ok]]]
  then have "dreachable True lossy (Some m) 
      (?st ((\<lambda>_. DIdle)(0 := WantMark ToUser, 1 := Configured AOk m')) (Some m) [CSet m', CStart, CSet m])" by simp
  note go [OF this in_config [OF configured [where i = 1 and cur = m']]]
  note go [OF this in_config [OF clear [where i = 1]]]
  note go [OF this in_start [OF mark [where ret = ToUser and i = 0]]]
  then show ?thesis by (simp add: stale_flag_def fun_upd_twist)
qed

text \<open>After that a receive call goes straight to the queue, whatever it meets: it sends no command.\<close>

definition recv_pcs :: "bool \<Rightarrow> 'm dpc set" where
  "recv_pcs b = {RecvChecking b, PeekRx b, WantQueue b, Receiving b, DDone}"

lemma flagged_recv_step:
  assumes "dstep recovery False i S T" "pcs S i \<in> recv_pcs b" "flag S"
  shows "pcs T i \<in> recv_pcs b \<and> flag T \<and> ran T = ran S"
  using assms by (cases; (elim step_cases)?) (auto simp: recv_pcs_def)

lemma flagged_recv:
  assumes "(dstep recovery False i)\<^sup>*\<^sup>* S T" "pcs S i \<in> recv_pcs b" "flag S"
  shows "pcs T i \<in> recv_pcs b \<and> flag T \<and> ran T = ran S"
  using assms
  by (induction rule: rtranclp_induct) (auto dest: flagged_recv_step)

lemma stale_recv_call: "dstep True False 2 (stale_flag m m') (goto 2 (RecvChecking b) (stale_flag m m'))"
  by (rule in_recv, rule call_recv) (simp add: stale_flag_def)

lemma stale_recv:
  "(dstep True False 2)\<^sup>*\<^sup>* (goto 2 (RecvChecking b) (stale_flag m m'))
    (goto 2 (Receiving b) ((stale_flag m m')\<lparr>queue_lock := Some 2\<rparr>))"
proof -
  let ?S = "stale_flag m m'"
  have "dstep True False 2 (goto 2 (RecvChecking b) ?S) (goto 2 (PeekRx b) ?S)"
    using in_recv [OF recv_open [of "goto 2 (RecvChecking b) ?S" 2 b]] by (simp add: stale_flag_def)
  moreover have "dstep True False 2 (goto 2 (PeekRx b) ?S) (goto 2 (WantQueue b) ?S)"
    using in_recv [OF peek [of "goto 2 (PeekRx b) ?S" 2 b]] by (simp add: stale_flag_def)
  moreover have "dstep True False 2 (goto 2 (WantQueue b) ?S) (goto 2 (Receiving b) (?S\<lparr>queue_lock := Some 2\<rparr>))"
    using in_recv [OF lock_queue [of "goto 2 (WantQueue b) ?S" 2 b]] by (simp add: stale_flag_def)
  ultimately show ?thesis by (meson converse_rtranclp_into_rtranclp rtranclp.rtrancl_refl)
qed

text \<open>
  Two tasks set configurations. The device gets that of task 0 first and that of task 1 last, but task
  1 is the first to store the answer in the cache.
\<close>
definition stale_cache :: "'m \<Rightarrow> 'm \<Rightarrow> 'm dsys" where
  "stale_cache m m' = \<lparr>pcs = (\<lambda>_. DIdle)(0 := DDone, 1 := DDone), flag = False, rx_lock = None, queue_lock = None,
     applied = Some m, shut = False, cut = False, ran = [CSet m', CSet m]\<rparr>"

lemma reachable_stale_cache: "dreachable recovery lossy a (stale_cache m m')"
proof -
  note go = dreachable_task
  let ?st = "\<lambda>ps c d. \<lparr>pcs = ps, flag = False, rx_lock = None, queue_lock = None,
    applied = c, shut = False, cut = False, ran = d\<rparr>"
  have "dreachable recovery lossy a (dsys_init a)" by (rule dreachable.init)
  note go [OF this in_config [OF call_config [where i = 0 and m = m]]]
  note go [OF this in_config [OF config_open [where i = 0 and m = m]]]
  note go [OF this in_config [OF configure [where i = 0 and m = m and cur = m, OF _ done_ok]]]
  then have "dreachable recovery lossy a (?st ((\<lambda>_. DIdle)(0 := Configured AOk m)) a [CSet m])"
    by (simp add: dsys_init_def)
  note go [OF this in_config [OF call_config [where i = 1 and m = m']]]
  note go [OF this in_config [OF config_open [where i = 1 and m = m']]]
  note go [OF this in_config [OF configure [where i = 1 and m = m' and cur = m', OF _ done_ok]]]
  note go [OF this in_config [OF configured [where i = 1 and cur = m']]]
  then have "dreachable recovery lossy a (?st ((\<lambda>_. DIdle)(0 := Configured AOk m, 1 := WantClear)) (Some m') [CSet m', CSet m])"
    by simp
  note go [OF this in_config [OF clear [where i = 1]]]
  note go [OF this in_config [OF configured [where i = 0 and cur = m]]]
  note go [OF this in_config [OF clear [where i = 0]]]
  then show ?thesis by (simp add: stale_cache_def fun_upd_twist)
qed

text \<open>One task sets a configuration, alone.\<close>

definition one_set :: "'m \<Rightarrow> 'm dsys" where
  "one_set m = \<lparr>pcs = (\<lambda>_. DIdle)(0 := WantClear), flag = False, rx_lock = None, queue_lock = None,
     applied = Some m, shut = False, cut = False, ran = [CSet m]\<rparr>"

lemma serial_task:
  assumes "serial_step\<^sup>*\<^sup>* (dsys_init a) S" "dstep False False i S T" "\<forall>j. j \<noteq> i \<longrightarrow> \<not> setting (pcs T j)"
  shows "serial_step\<^sup>*\<^sup>* (dsys_init a) T"
proof -
  have "one_at_a_time T" using assms(3) unfolding one_at_a_time_def by metis
  with assms(2) have "serial_step S T" by (auto simp: serial_step_def intro: dsys_step.task)
  with assms(1) show ?thesis by (rule rtranclp.rtrancl_into_rtrancl)
qed

lemma serial_one_set: "serial_step\<^sup>*\<^sup>* (dsys_init a) (one_set m)"
proof -
  note go = serial_task
  have "serial_step\<^sup>*\<^sup>* (dsys_init a) (dsys_init a)" by simp
  note go [OF this in_config [OF call_config [where i = 0 and m = m]]]
  note go [OF this in_config [OF config_open [where i = 0 and m = m]]]
  note go [OF this in_config [OF configure [where i = 0 and m = m and cur = m, OF _ done_ok]]]
  note go [OF this in_config [OF configured [where i = 0 and cur = m]]]
  then show ?thesis by (simp add: dsys_init_def one_set_def)
qed

end
