(* ===== verification/Spec2Isabelle.thy ===== *)
theory Spec2Isabelle
  imports Races Tags Timing DongleLocks
begin

text \<open>
  \<^bold>\<open>A verification of the DongLoRa client library (Rust, \<^verbatim>\<open>src/\<close>).\<close>

  The library talks to a LoRa radio dongle over a byte stream: a USB serial port, or a multiplexer
  daemon behind a Unix or a TCP socket. Its parts, and the theories that model them:

  \<^item> \<^verbatim>\<open>session.rs\<close>, the protocol session: a tag counter, a map of outstanding commands with
    one-shot completion channels, two event queues, a reader task that decodes frames and dispatches
    them, and the typed commands. \<open>Session\<close> has the state (record \<open>session\<close>), tag allocation, the
    map and channel operations, the reader task (\<open>reader_iter\<close> is one turn of its loop) and
    \<open>dispatch\<close>. \<open>Commands\<close> has the calling side: \<open>write_frame\<close>, \<open>send_command\<close>, \<open>recv_rx\<close>,
    \<open>next_rx\<close>, \<open>close\<close> and the typed commands. \<open>Tags\<close> studies the counter, \<open>Delivery\<close> the stream
    of received packets, and \<open>Interleaving\<close> is the same session as a transition system in which any
    number of calls, closes and the reader are interleaved at every await point (a close and a leaving
    reader take the map and fire the senders they took later, in any order); \<open>Races\<close> spells out some
    of its schedules.
  \<^item> \<^verbatim>\<open>dongle.rs\<close>, the object the user holds: \<open>Dongle\<close> has its state (record \<open>dongle\<close>), every
    method, the recovery from a lost configuration, the retry loop and a turn of the keepalive task;
    \<open>DongleOps\<close> has the contract of a method, sequences of calls, and the lemmas on retries,
    recovery and cadence; \<open>Timing\<close> bounds the duration of every call; \<open>DongleLocks\<close> is the dongle
    shared by any number of tasks and its keepalive task, stepped between await points: the two locks
    held across awaits, the flag that receive mode is on, the cached configuration, the closing of the
    session, and the log of the commands the device carried out. It assumes nothing else of the
    firmware: its theorems say which command was the last one carried out.
  \<^item> \<^verbatim>\<open>retry.rs\<close> and the arithmetic of its back-off: \<open>Retry\<close>, on \<open>Float32\<close> (the casts and the
    multiplication of \<^verbatim>\<open>f32\<close> with round-to-nearest-even).
  \<^item> \<^verbatim>\<open>errors.rs\<close>: \<open>Errors\<close>, with the texts the errors print.
  \<^item> \<^verbatim>\<open>connect.rs\<close>: \<open>Config\<close> is the check of a radio configuration against the device's
    capabilities, \<open>Connect\<close> the options, the search for a mux, endpoint parsing, the handshake
    \<open>probe\<close> and \<open>finalize\<close>, and all entry points.
  \<^item> \<^verbatim>\<open>discovery.rs\<close>: \<open>Discovery\<close>. \<^verbatim>\<open>transport.rs\<close>: \<open>Transport\<close>.
  \<^item> \<^verbatim>\<open>examples/\<close>: \<open>Examples\<close>, the three programs with the lines they print (\<open>Format\<close> has the
    number formats and the lossy reading of UTF-8 they use). The unit tests inside \<^verbatim>\<open>session.rs\<close>,
    \<^verbatim>\<open>dongle.rs\<close> and \<^verbatim>\<open>connect.rs\<close>: \<open>UnitTests\<close>, one predicate per test, proved for every codec
    that keeps its laws on the payloads of the tests (the two tests with several tasks are runs of
    \<open>Interleaving\<close>).
  \<^item> \<open>RustStd\<close> has what the sources use of the Rust standard library, \<open>Protocol\<close> the interface of
    the crate \<^verbatim>\<open>donglora-protocol\<close>, \<open>Prelude\<close> the shared types, lemmas and interfaces, \<open>Demo\<close> a
    concrete instance of all parameters, on which the theorems are applied.

  \<^bold>\<open>How the code corresponds to the model.\<close> An operation is a function of the state (a session or
  a dongle) and of a \<open>world\<close>: the clock, the reads the transport will deliver with the instants the
  reader gets them, the outcome and the duration of each write, and the random draws. It returns its result with the new
  state and world. The reads of a world are arbitrary, so a theorem over all worlds covers every
  device and transport, a broken or hostile one included; the code's reads have at most 256 bytes,
  those of the model any number. While a caller waits, the reader handles what arrives up to the
  deadline; a write is not under the deadline of its command, as in the code. A call runs to its return
  in these definitions, so they describe a session or a dongle that one task uses at a time, next to
  the reader: they have no wait for the writer, the receiver or \<^verbatim>\<open>rx_started\<close> while another task holds
  it, and a write takes a number of nanoseconds, so that a write which never ends is not among their
  runs. The two concurrent models have the waits and the calls that never go on (C18, C40). Results are \<open>client_result\<close>: a value, a \<^verbatim>\<open>ClientError\<close>, or a panic. A one-shot channel
  is open, has been sent a response, or has lost its sender. Machine integers are words; durations
  are nanoseconds in \<open>nat\<close>. \<open>written\<close> lists the frames handed to the transport; one whose write
  failed is not in it. Third-party code is a parameter: the protocol crate's constants, codecs and
  frame decoder (record \<open>proto\<close>), the random source and the transport's behaviour (\<open>world\<close>), the
  operating system (record \<open>environment\<close>), the byte streams (\<open>stream_ops\<close>).

  \<^bold>\<open>Interfaces.\<close> \<open>keyed_table\<close> and \<open>fifo_channel\<close> (interpreted on the map of outstanding commands
  and on the two queues), \<open>step_invariant\<close> (on the concurrent session, twice, and on the concurrent
  dongle, three times), \<open>session_op\<close> (what the dongle relies on of a session command; interpreted on all six),
  \<open>dongle_op\<close> (what a method of the dongle promises; interpreted on all eight that talk to the
  device), \<open>timed_op\<close> (the time an operation may take; interpreted on the operations of the session
  and of the dongle), \<open>polling\<close> (on the two loops that wait for a device or a socket), \<open>transparent\<close>
  (on the three transports and the three variants of \<^verbatim>\<open>AnyTransport\<close>).

  \<^bold>\<open>What is shown.\<close> Concurrency: C1 (the correlation of answers) and C2 (where the
  sender of a waiting call is) hold in every interleaving of the session, C3 is on the cached
  configuration of a shared dongle. Commands: C4 to
  C10, among them the round trip of a command, that nothing is left behind however it ends, that
  every response has the type of its command, and freshness of tags. The dongle: C11 to C20, the time
  a call may take, its invariant over all sequences of calls, in-order delivery of packets, the end
  of everything after close, the outcome of retries, the receive flag and its lock under concurrency,
  keepalive and recovery. Connecting: C21 to C28. The examples: C29 and C30. The unit tests: C31. C32
  to C40 state exactly what the code does where it deviates from what its comments or documents
  promise. The last section has further facts of the components.

  \<^bold>\<open>Termination.\<close> Every loop over the reads of a world recurses on that list, the retry loop on the
  attempts left, draining on the length of the queue. The two loops that may wait for ever are
  partial functions into an option, and C23, C28 and C38 say when they return. The loop of the
  sending example never ends and is observed for any number \<open>n\<close> of turns; every turn of the receiving
  one takes a packet off the finite stream. There is no other fuel.

  \<^bold>\<open>What is not modelled.\<close> Logging; the re-exports of \<^verbatim>\<open>lib.rs\<close>; \<^verbatim>\<open>tests/vectors.rs\<close>, which tests
  the protocol crate against fixed byte strings; targets other than Unix; \<^verbatim>\<open>Weak::upgrade\<close> failing in
  the keepalive task (the task ends, as it does when the dongle is closed). The integer fields of the protocol
  crate's records have the widths their use in the sources implies; those of \<open>rx_payload\<close>, which are
  only printed and whose widths the sources do not show, are unbounded. \<open>DongleLocks\<close> has no clock: its keepalive task may wake at any time, and C19 has its cadence.
\<close>


text \<open>
  C1. In every interleaving of any number of calls, closes and the reader task, a call that
  returns a response got either the notice that the session closed or the reader exited, or the
  reading, for its own command type, of a frame that carried its own tag and that the reader
  matched to an outstanding command.
\<close>
theorem concurrent_correlation:
  assumes "reachable P S" "tasks S i = Returned (Ok r) ty tag c"
  shows "r = RespErr (TransportClosed ''session closed'') \<or> r = RespErr (TransportClosed ''reader exited'')
    \<or> (\<exists>w \<in> set (taken S). completes P ty tag w \<and> r = work_response P ty w)"
proof -
  have "prov_task P (meta S) (taken S) (tasks S i)"
    using reachable_prov_inv [OF assms(1)] by (simp add: prov_inv_def)
  with assms(2) show ?thesis by (auto simp: prov_task_def legit_def)
qed

theorem concurrent_correlation_witness:
  "\<exists>S. reachable demo_proto S \<and> tasks S 0 = Returned (Ok RespEmpty) 1 1 0
    \<and> (\<exists>w \<in> set (taken S). completes demo_proto 1 1 w \<and> RespEmpty = work_response demo_proto 1 w)"
proof -
  have "response_for demo_proto 1 128 [] = RespEmpty" by (simp add: response_for_def demo_proto_def)
  then obtain S where "reachable demo_proto S" "tasks S 0 = Returned (Ok RespEmpty) 1 1 0"
    using reachable_answered [of demo_proto 1 "[]" "[1, 1]" "[128, 1]" "()" 128 "[]"]
    by (auto simp: demo_proto_def)
  with concurrent_correlation [OF this] show ?thesis by blast
qed

text \<open>
  C2. In every reachable state a call that waits on a channel not yet decided has a live sender:
  in the map under its own tag, or in the hands of the task that took it out of the map, which is
  the reader processing a frame with that tag, the reader leaving, or a close that is firing the
  senders it took. A task that has it can decide the channel or put the entry back in its next
  step, so a call is never left with a sender that was dropped or forgotten outside the map.
\<close>
theorem waiting_call_has_live_sender:
  assumes "reachable P S" "tasks S i = Waiting ty tag c" "chans (sess S) c = ChanOpen"
  shows "in_reach S ty tag c
    \<and> (pending_of (sess S) tag = Some \<lparr>cmd_type = ty, waker = c\<rparr>
       \<or> (\<exists>T. (reader_step P S T \<or> (\<exists>j. close_step j S T))
            \<and> (chans (sess T) c \<noteq> ChanOpen \<or> pending_of (sess T) tag = Some \<lparr>cmd_type = ty, waker = c\<rparr>)))"
  using waiting_sender [OF assms] in_reach_moves by blast

theorem waiting_call_has_live_sender_witness:
  "\<exists>S. reachable demo_proto S \<and> in_reach S 1 1 0"
proof -
  have r: "reachable demo_proto (waiting demo_proto 1 [1, 1])"
    by (rule reachable_waiting [of _ _ "[]"]) (simp add: demo_proto_def)
  have t: "tasks (waiting demo_proto 1 [1, 1]) 0 = Waiting 1 1 0"
    "chans (sess (waiting demo_proto 1 [1, 1])) 0 = ChanOpen"
    by (simp_all add: waiting_def waiting_sess_def spawn_def)
  from waiting_call_has_live_sender [OF r t] r show ?thesis by blast
qed

text \<open>
  C3. When is the cached configuration of a dongle that several tasks share right? In every
  interleaving of all methods and the keepalive task without a fault and until the session is
  closed, as long as nobody sets two configurations at the same time, and when no set\_config is
  under way, the cache, which config returns and recovery re-applies, is the configuration the
  device reported for the last SET\_CONFIG it carried out, or what connecting cached if there was
  none. With two set\_config calls at the same time it is not: there is a run without any fault
  after which both have returned, the session is open, and the cache has the configuration of the
  one that the device carried out first.
\<close>
theorem config_cache_needs_serial_calls:
  "(serial_step\<^sup>*\<^sup>* (dsys_init a) S \<longrightarrow> \<not> cut S \<longrightarrow> (\<forall>i. \<not> setting (pcs S i)) \<longrightarrow> applied S = last_set a (ran S))
    \<and> (\<exists>T. dreachable False False a T \<and> \<not> cut T \<and> (\<forall>i. pcs T i = DIdle \<or> pcs T i = DDone)
         \<and> ran T = [CSet m', CSet m] \<and> applied T = Some m)"
proof -
  have "dreachable False False a (stale_cache m m')" by (rule reachable_stale_cache)
  moreover have "\<not> cut (stale_cache m m')" "\<forall>i. pcs (stale_cache m m') i = DIdle \<or> pcs (stale_cache m m') i = DDone"
    "ran (stale_cache m m') = [CSet m', CSet m]" "applied (stale_cache m m') = Some m"
    by (simp_all add: stale_cache_def)
  ultimately show ?thesis using serial_cache [of a S] by blast
qed

theorem config_cache_needs_serial_calls_witness:
  "applied (one_set (2::nat)) = Some 2 \<and> last_set (Some 1) (ran (one_set (2::nat))) = Some 2"
proof -
  have "\<forall>i. \<not> setting (pcs (one_set (2::nat)) i)" "\<not> cut (one_set (2::nat))" by (simp_all add: one_set_def)
  with config_cache_needs_serial_calls [of "Some 1" "one_set 2" 1 1] serial_one_set [of "Some 1" 2]
  have "applied (one_set (2::nat)) = last_set (Some 1) (ran (one_set 2))" by blast
  then show ?thesis by (simp add: one_set_def)
qed

text \<open>
  C4. A command on an open session whose write succeeds returns the reading of the first
  completing frame with its tag among those that the decoder yields from the reads up to the
  deadline, whatever other frames, events and later reads there are.
\<close>
theorem send_command_round_trip:
  assumes "session_inv s" "\<not> closed s" "reader_running s"
    and "encode_frame P ty (next_tag s) pl = Inr wire" "write_outcomes w (writes w) = WriteOk"
    and "arrivals w = map (\<lambda>(a, b). (a, ReadOk b)) pre @ post"
    and "\<forall>(a, b) \<in> set pre. a \<le> clock w + write_time w (writes w) + timeout \<and> b \<noteq> []"
    and "find (completes P ty (next_tag s))
      (map frame_work_of (snd (feed_all P (decoder s) (map snd pre)))) = Some wk"
  shows "fst (send_command P ty pl timeout s w) = Ok (work_response P ty wk)"
  using assms by (rule send_command_answered)

theorem send_command_round_trip_witness:
  "fst (send_command demo_proto 1 [] 5 (spawn demo_proto)
     (demo_world [(1, [192, 0, 7]), (2, [128, 9]), (3, [128, 1]), (4, [129, 1, 3])]))
   = Ok (work_response demo_proto 1 (WorkOk 128 1 []))"
  by (rule send_command_round_trip [where wire = "[1, 1]"
        and pre = "[(1, [192, 0, 7]), (2, [128, 9]), (3, [128, 1])]" and post = "[(4, ReadOk [129, 1, 3])]"])
    (simp_all add: spawn_inv, simp_all add: spawn_def demo_defs)

text \<open>
  C5. A transmission has two phases: the acceptance OK is absorbed and does not complete the
  command, and the TX\_DONE frame does; a payload reporting success is returned as it is, and the
  one frame this puts on the wire is the encoding of a TX command with the next tag and the flags
  byte followed by the data.
\<close>
theorem transmit_two_phases:
  assumes "session_inv s" "\<not> closed s" "reader_running s" "distinct_types P"
    and "data \<noteq> []" "length data < MAX_PAYLOAD_FIELD P"
    and "encode_frame P (TYPE_TX P) (next_tag s) (tx_flags_byte P skip # data) = Inr wire"
    and "write_outcomes w (writes w) = WriteOk"
    and "arrivals w = map (\<lambda>(a, b). (a, ReadOk b)) pre @ post"
    and "\<forall>(a, b) \<in> set pre. a \<le> clock w + write_time w (writes w) + timeout \<and> b \<noteq> []"
    and "snd (feed_all P (decoder s) (map snd pre)) =
      [FrameOk (TYPE_OK P) (next_tag s) [], FrameOk (TYPE_TX_DONE P) (next_tag s) pl]"
    and "decode_tx_done P pl = Some td" "td_result td = Transmitted"
  shows "\<exists>s' w'. transmit P data skip timeout s w = (Ok td, s', w') \<and> written s' = written s @ [wire]"
proof -
  let ?wk = "WorkOk (TYPE_TX_DONE P) (next_tag s) pl"
  have t: "TYPE_OK P \<noteq> TYPE_TX_DONE P" "TYPE_ERR P \<noteq> TYPE_TX_DONE P"
    using distinct_typesD [OF assms(4)] by simp_all
  have "next_tag s \<noteq> 0" using session_invD(1) [OF assms(1)] .
  then have "find (completes P (TYPE_TX P) (next_tag s))
      (map frame_work_of (snd (feed_all P (decoder s) (map snd pre)))) = Some ?wk"
    using t by (simp add: assms(11))
  from send_command_answered [OF assms(1-3,7-10) this]
  have "fst (send_command P (TYPE_TX P) (tx_flags_byte P skip # data) timeout s w)
      = Ok (work_response P (TYPE_TX P) ?wk)" .
  moreover have "work_response P (TYPE_TX P) ?wk = RespTxDone td"
    using t assms(12) by (auto simp: response_for_def)
  ultimately obtain s' w' where
    run: "send_command P (TYPE_TX P) (tx_flags_byte P skip # data) timeout s w = (Ok (RespTxDone td), s', w')"
    by (cases "send_command P (TYPE_TX P) (tx_flags_byte P skip # data) timeout s w") auto
  then have "transmit P data skip timeout s w = (Ok td, s', w')"
    using assms(5,6,13) by (simp add: transmit_def command_def)
  with send_command_writes [OF run assms(2,7,8)] show ?thesis by blast
qed

theorem transmit_two_phases_witness:
  "\<exists>s' w'. transmit demo_proto [65, 66] False 5 (spawn demo_proto) (demo_world [(1, [128, 1]), (3, [193, 1, 0])])
     = (Ok \<lparr>td_result = Transmitted, airtime_us = 7\<rparr>, s', w')
    \<and> written s' = written (spawn demo_proto) @ [[4, 1, 0, 65, 66]]"
  by (rule transmit_two_phases [where wire = "[4, 1, 0, 65, 66]" and pre = "[(1, [128, 1]), (3, [193, 1, 0])]"
        and post = "[]" and pl = "[0]"])
    (simp_all add: spawn_inv, simp_all add: spawn_def demo_defs distinct_types_def)

text \<open>
  C6. However a command ends, by an answer, an encoding or transport error, a dropped sender or a
  time-out, the session invariant holds, its own entry is gone, no entry of another command is
  changed, its tag is used up, and at most one frame was written.
\<close>
theorem send_command_leaves_no_entry:
  assumes "send_command P ty pl timeout s w = (r, s', w')" "session_inv s" "\<not> closed s"
  shows "session_inv s' \<and> pending_of s' \<subseteq>\<^sub>m (pending_of s)(next_tag s := None)
    \<and> next_tag s' = next_tag (snd (alloc_tag s)) \<and> r \<noteq> Panic
    \<and> (\<exists>fs. length fs \<le> 1 \<and> written s' = written s @ fs)"
  using send_command_inv [OF assms(1,2)] send_command_pending [OF assms] send_command_tag [OF assms(1,3)]
    send_command_never_panics [OF assms(1)] send_command_frame(3) [OF assms(1)] by blast

theorem send_command_leaves_no_entry_witness:
  "\<exists>r s' w'. send_command demo_proto 1 [] 5 (spawn demo_proto) (demo_world []) = (r, s', w') \<and> session_inv s'
    \<and> pending_of s' \<subseteq>\<^sub>m (pending_of (spawn demo_proto))(1 := None)"
proof -
  obtain r s' w' where run: "send_command demo_proto 1 [] 5 (spawn demo_proto) (demo_world []) = (r, s', w')"
    by (metis prod_cases3)
  have "\<not> closed (spawn demo_proto)" "next_tag (spawn demo_proto) = 1" by (simp_all add: spawn_def)
  with send_command_leaves_no_entry [OF run spawn_inv] run show ?thesis by simp
qed

text \<open>
  C7. In every interleaving a call gets a response of the type its command asks for: device
  information only for GET\_INFO, a configuration result only for SET\_CONFIG, the empty answer
  never for these two or for a transmission; an error or a stray TX\_DONE can reach any command. A
  transmission is never answered by anything but TX\_DONE or an error, so its catch-all arm is
  dead code. This assumes that the protocol crate parses an OK payload for the command it is told.
\<close>
theorem responses_well_typed:
  assumes "reachable P S" "tasks S i = Returned (Ok r) ty tag c" "ok_payloads_typed P" "distinct_types P"
  shows "response_type P ty r
    \<and> (ty = TYPE_TX P \<longrightarrow> (\<exists>td. r = RespTxDone td) \<or> (\<exists>e. r = RespErr e))"
proof -
  have "response_type P ty r" using assms(1-3) by (rule returned_response_typed)
  with typed_expect(4) [OF assms(4) this] show ?thesis by blast
qed

theorem responses_well_typed_witness:
  "\<exists>S. reachable demo_proto S \<and> tasks S 0 = Returned (Ok RespEmpty) 1 1 0 \<and> response_type demo_proto 1 RespEmpty"
proof -
  have "response_for demo_proto 1 128 [] = RespEmpty" by (simp add: response_for_def demo_proto_def)
  then obtain S where S: "reachable demo_proto S" "tasks S 0 = Returned (Ok RespEmpty) 1 1 0"
    using reachable_answered [of demo_proto 1 "[]" "[1, 1]" "[128, 1]" "()" 128 "[]"]
    by (auto simp: demo_proto_def)
  have "ok_payloads_typed demo_proto" "distinct_types demo_proto"
    by (simp_all add: ok_payloads_typed_def distinct_types_def demo_proto_def)
  from responses_well_typed [OF S this] S show ?thesis by blast
qed

text \<open>
  C8. Whatever the transport delivers, bytes in any division, errors or the end of the stream, the
  reader keeps the session invariant, never adds or alters an entry of the map, and never touches
  the tag counter, the close flag or the wire.
\<close>
theorem reader_survives_any_input:
  assumes "session_inv s"
  shows "session_inv (reader_loop P rs s) \<and> pending_of (reader_loop P rs s) \<subseteq>\<^sub>m pending_of s
    \<and> link_view (reader_loop P rs s) = link_view s"
  using assms
proof (induction rs arbitrary: s)
  case (Cons rd rs)
  have "link_view (reader_iter P rd s) = link_view s" by (simp add: frame_simps)
  with Cons.IH [OF reader_iter_inv [OF Cons.prems, of P rd]] reader_iter_le [OF Cons.prems, of P rd]
  show ?case by (auto intro: map_le_trans)
qed simp

theorem reader_survives_any_input_witness:
  "session_inv (reader_loop demo_proto [ReadOk [128, 9], ReadOk [7], ReadErr, ReadOk [1, 2, 3]] (spawn demo_proto))"
  using reader_survives_any_input [OF spawn_inv, of demo_proto] by blast

text \<open>
  C9. If the frame decoder is a stream decoder (feeding two pieces is feeding their
  concatenation), the state the reader reaches depends only on the bytes received and not on how
  the transport cut them into reads.
\<close>
theorem chunking_irrelevant:
  assumes "\<And>d a b. decoder_feed P d (a @ b) =
      (let (d1, r1) = decoder_feed P d a; (d2, r2) = decoder_feed P d1 b in (d2, r1 @ r2))"
    and "reader_running s" "\<not> closed s" "[] \<notin> set bs" "[] \<notin> set cs" "concat bs = concat cs"
  shows "reader_loop P (map ReadOk bs) s = reader_loop P (map ReadOk cs) s"
proof -
  have "feed_all P (decoder s) bs = feed_all P (decoder s) cs"
    using feed_all_concat [OF assms(1)] assms(4-6) by (rule feed_all_cong)
  then show ?thesis
    by (simp add: reader_loop_chunks [OF assms(2-4)] reader_loop_chunks [OF assms(2,3,5)])
qed

theorem chunking_irrelevant_witness:
  "reader_loop (demo_proto\<lparr>decoder_feed := \<lambda>d bs. (d, map (\<lambda>b. FrameOk 192 0 [b]) bs)\<rparr>)
     (map ReadOk [[1, 2], [3]]) (spawn demo_proto)
   = reader_loop (demo_proto\<lparr>decoder_feed := \<lambda>d bs. (d, map (\<lambda>b. FrameOk 192 0 [b]) bs)\<rparr>)
     (map ReadOk [[1], [2, 3]]) (spawn demo_proto)"
  by (rule chunking_irrelevant) (simp_all add: spawn_def)

text \<open>
  C10. The tags of any number of allocations in a row are never 0, any 65535 consecutive ones are
  distinct, and two allocations get the same tag exactly if their distance is a multiple of 65535,
  wrap-around included.
\<close>
theorem tags_fresh:
  assumes "session_inv s" "fst (alloc_tags n s) = ts" "i < n" "j < n"
  shows "ts ! i \<noteq> 0 \<and> (ts ! i = ts ! j \<longleftrightarrow> i mod 65535 = j mod 65535) \<and> (n \<le> 65535 \<longrightarrow> distinct ts)"
proof -
  note nz = session_invD(1) [OF assms(1)]
  have ts: "ts = map (\<lambda>i. (succ_tag ^^ i) (next_tag s)) [0..<n]" using assms(2) by (simp add: alloc_tags_eq)
  have "distinct ts" if "n \<le> 65535"
    unfolding ts distinct_map using that
    by (auto simp: inj_on_def funpow_succ_tag_eq_iff [OF nz])
  with ts assms(3,4) show ?thesis by (simp add: funpow_succ_tag_nonzero [OF nz] funpow_succ_tag_eq_iff [OF nz])
qed

theorem tags_fresh_witness:
  "fst (alloc_tags 3 (spawn demo_proto)) ! 0 \<noteq> 0 \<and> distinct (fst (alloc_tags 3 (spawn demo_proto)))"
  using tags_fresh [OF spawn_inv refl, of 0 3 0] by simp

text \<open>
  C11. On a dongle that one task uses at a time, so that no call waits for a lock another holds,
  every call but next\_rx returns within a bound: if every write ends, none takes longer than B,
  and the random source stays in range, the clock advances by at most k * B + t, where k counts
  the frames the call may write and t adds up the timeouts and waits it may go through, recovery
  and retries included (three writes and 2 * timeout + 2 s for a transmission with recovery, all
  attempts and the longest back-offs for a retried one). The writes themselves are under no
  timeout.
\<close>
theorem calls_return_in_time:
  assumes "api_step P c (d, w) = (d', w')" "api_limit c = Some (k, t)" "writes_within B w"
  shows "clock w' \<le> clock w + k * B + t"
  using took_limit [OF api_step_took [OF assms(1,2)] assms(3)] .

theorem calls_return_in_time_witness:
  "\<exists>d' w'. api_step demo_proto (CallTx [65] False 5) (demo_dongle, demo_world [(1, [193, 1, 0])]) = (d', w')
    \<and> clock w' \<le> clock (demo_world []) + 3 * 0 + (2 * 5 + from_secs 2)"
proof -
  obtain d' w' where run: "api_step demo_proto (CallTx [65] False 5) (demo_dongle, demo_world [(1, [193, 1, 0])]) = (d', w')"
    by fastforce
  have "writes_within 0 (demo_world [(1, [193, 1, 0])])" by (simp add: writes_within_def demo_world_def)
  from calls_return_in_time [OF run _ this, of 3 "2 * 5 + from_secs 2"] run show ?thesis
    by (simp add: demo_world_def)
qed

text \<open>
  C12. Any sequence of calls on a new dongle, keepalive turns in between, leaves the session
  invariant intact, the close flags of dongle and session equal, the time of the last write in the
  past, and no live keepalive handle on a closed dongle.
\<close>
theorem api_keeps_dongle_inv:
  assumes "session_inv s" "\<not> closed s" "fold (api_step P) cs (new s i k a b w, w) = (d, w')"
  shows "session_inv (d_session d) \<and> last_write_at d \<le> clock w' \<and> d_closed d = closed (d_session d)
    \<and> (d_closed d \<longrightarrow> \<not> keepalive_handle d)"
proof -
  have "dongle_inv (fst (new s i k a b w, w)) (snd (new s i k a b w, w))"
    using new_inv [OF assms(1,2)] by simp
  from api_steps_inv [OF this, of P cs] assms(3) show ?thesis by (simp add: dongle_inv_def)
qed

theorem api_keeps_dongle_inv_witness:
  "session_inv (d_session (fst (fold (api_step demo_proto) [CallRxStart, CallTx [1] False 5, CallRecv 3, KeepaliveTurn, CallClose]
     (new (spawn demo_proto) demo_info (Serial ''tty'') None True (demo_world []), demo_world []))))"
proof -
  let ?x = "fold (api_step demo_proto) [CallRxStart, CallTx [1] False 5, CallRecv 3, KeepaliveTurn, CallClose]
     (new (spawn demo_proto) demo_info (Serial ''tty'') None True (demo_world []), demo_world [])"
  have "\<not> closed (spawn demo_proto)" by (simp add: spawn_def)
  from api_keeps_dongle_inv [OF spawn_inv this, of demo_proto _ _ _ _ _ _ "fst ?x" "snd ?x"]
  show ?thesis by (metis prod.collapse)
qed

text \<open>
  C13. Over any sequence of calls that does not close the dongle, keepalive turns, transmissions,
  failures and recoveries included, the packets that recv and next\_rx hand out, followed by those
  still to come, are exactly the stream of packets queued and received: none is lost, duplicated
  or reordered.
\<close>
theorem packets_delivered_in_order:
  assumes "CallClose \<notin> set cs" "fold (api_step P) cs (d, w) = (d', w')"
  shows "rx_stream P (d_session d) (arrivals w) = api_deliver P cs (d, w) @ rx_stream P (d_session d') (arrivals w')"
  using api_delivers [OF assms(1), of P "(d, w)"] assms(2) by simp

theorem packets_delivered_in_order_witness:
  "\<exists>d' w'. fold (api_step demo_proto) [CallRecv 9, CallPing, CallRecv 9]
      (new (spawn demo_proto) demo_info (Serial ''tty'') None True (demo_world []), demo_world []) = (d', w')
    \<and> rx_stream demo_proto (spawn demo_proto) (arrivals (demo_world [])) =
        api_deliver demo_proto [CallRecv 9, CallPing, CallRecv 9]
          (new (spawn demo_proto) demo_info (Serial ''tty'') None True (demo_world []), demo_world [])
        @ rx_stream demo_proto (d_session d') (arrivals w')"
proof -
  obtain d' w' where f: "fold (api_step demo_proto) [CallRecv 9, CallPing, CallRecv 9]
      (new (spawn demo_proto) demo_info (Serial ''tty'') None True (demo_world []), demo_world []) = (d', w')"
    by (metis prod.collapse)
  from packets_delivered_in_order [OF _ f] f show ?thesis by auto
qed

text \<open>
  C14. After close, whatever sequence of calls follows, no frame is written, no time passes, the
  dongle stays closed and the keepalive task is gone; and each of the eight methods that talk to
  the device, called on the dongle after that sequence, refuses with its closed answer and changes
  nothing: an error for tx, tx\_with\_retry, rx\_start, rx\_stop, set\_config and ping, the end of
  the packets for recv and next\_rx.
\<close>
theorem closed_dongle_is_inert:
  assumes "dongle_inv d w" "fold (api_step P) cs (d_close d, w) = (d', w')"
  shows "d_closed d' \<and> \<not> keepalive_handle d' \<and> w' = w \<and> written (d_session d') = written (d_session d)
    \<and> tx_with_timeout P data skip t d' w' = (Err (TransportClosed ''dongle closed''), d', w')
    \<and> tx_with_retry P data policy d' w' = (Err (TransportClosed ''dongle closed''), d', w')
    \<and> d_rx_start P d' w' = (Err (TransportClosed ''dongle closed''), d', w')
    \<and> d_rx_stop P d' w' = (Err (TransportClosed ''dongle closed''), d', w')
    \<and> d_set_config P m d' w' = (Err (TransportClosed ''dongle closed''), d', w')
    \<and> d_ping P d' w' = (Err (TransportClosed ''dongle closed''), d', w')
    \<and> recv P t d' w' = (Ok None, d', w') \<and> d_next_rx P d' w' = (Ok (Some None), d', w')"
proof -
  have c: "d_closed (d_close d)" "\<not> keepalive_handle (d_close d)"
      "written (d_session (d_close d)) = written (d_session d)"
    using assms(1) by (simp_all add: d_close_def abort_keepalive_def Let_def dongle_inv_def)
  from api_steps_closed [OF c(1,2) assms(2)] c(3) show ?thesis
    by (simp add: tx_dop.op_refused tx_retry_dop.op_refused rx_start_dop.op_refused rx_stop_dop.op_refused
        set_config_dop.op_refused ping_dop.op_refused recv_dop.op_refused next_rx_dop.op_refused)
qed

theorem closed_dongle_is_inert_witness:
  "d_closed (fst (fold (api_step demo_proto) [CallPing, KeepaliveTurn, CallRecv 5]
     (d_close (new (spawn demo_proto) demo_info (Serial ''tty'') None True (demo_world [])), demo_world [])))"
proof -
  let ?d = "new (spawn demo_proto) demo_info (Serial ''tty'') None True (demo_world [])"
  have "\<not> closed (spawn demo_proto)" by (simp add: spawn_def)
  from closed_dongle_is_inert [OF new_inv [OF spawn_inv this] surjective_pairing]
  show ?thesis by blast
qed

text \<open>
  C15. When a retrying transmission succeeds, its log has one entry per attempt, numbered from 1
  and at most max\_attempts of them; every entry but the last is a retryable error, the last is
  the successful report, and the reported airtime is that of the last attempt.
\<close>
theorem retry_outcome_log:
  assumes "tx_with_retry P data policy d w = (Ok out, d', w')"
  shows "attempts out \<noteq> [] \<and> length (attempts out) \<le> unat (max_attempts policy)
    \<and> unat (attempts_used out) = length (attempts out)
    \<and> map attempt (attempts out) = map of_nat [1..<1 + length (attempts out)]
    \<and> (\<forall>a \<in> set (butlast (attempts out)). attempt_result a = Err ChannelBusy \<or> attempt_result a = Err Busy)
    \<and> (\<exists>td. attempt_result (last (attempts out)) = Ok td \<and> td_result td = Transmitted
        \<and> final_airtime_us out = airtime_us td)"
proof -
  have op: "\<not> d_closed d" using assms by (auto simp: tx_retry_dop.op_refused)
  then have "retry_loop P data policy (unat (max_attempts policy)) 1 (backoff_ms_min policy) [] d w = (Ok out, d', w')"
    using assms by (simp add: tx_with_retry_def check_open_def)
  from retry_loop_log [OF this]
  have log: "attempt_log 1 (unat (max_attempts policy)) (attempts out) (final_airtime_us out)" by simp
  have "unat (max_attempts policy) < 256" using unsigned_less [of "max_attempts policy", where ?'a = nat] by simp
  then have "length (attempts out) < 256" using log by (simp add: attempt_log_def)
  then have "unat (attempts_used out) = length (attempts out)"
    by (simp add: attempts_used_def unsigned_of_nat take_bit_nat_eq_self)
  with log show ?thesis by (auto simp: attempt_log_def is_retryable_iff)
qed

theorem retry_outcome_log_witness:
  "\<exists>out d' w'. tx_with_retry demo_proto [65] default_policy demo_dongle (demo_world [(1, [193, 1, 1]), (150000000, [193, 2, 0])])
     = (Ok out, d', w') \<and> length (attempts out) = 2 \<and> length (attempts out) \<le> unat (max_attempts default_policy)"
proof -
  obtain out d' w' where run: "tx_with_retry demo_proto [65] default_policy demo_dongle
      (demo_world [(1, [193, 1, 1]), (150000000, [193, 2, 0])]) = (Ok out, d', w')" "length (attempts out) = 2"
    using demo_retry by blast
  with retry_outcome_log [OF run(1)] show ?thesis by blast
qed

text \<open>
  C16. A retrying transmission that ends in a retryable error has put exactly max\_attempts frames
  on the wire, and at least the sum of the back-off floors, each next one scaled and capped, has
  passed.
\<close>
theorem retry_gives_up_after_all_attempts:
  assumes "tx_with_retry P data policy d w = (Err e, d', w')" "is_retryable e"
  shows "(\<exists>fs. length fs = unat (max_attempts policy) \<and> written (d_session d') = written (d_session d) @ fs)
    \<and> clock w + backoff_total policy (unat (max_attempts policy) - 1) (backoff_ms_min policy) \<le> clock w'"
proof -
  have op: "\<not> d_closed d" using assms by (auto simp: tx_retry_dop.op_refused)
  then have "retry_loop P data policy (unat (max_attempts policy)) 1 (backoff_ms_min policy) [] d w = (Err e, d', w')"
    using assms by (simp add: tx_with_retry_def check_open_def)
  from retry_loop_exhausted [OF this assms(2)] show ?thesis by simp
qed

theorem retry_gives_up_after_all_attempts_witness:
  "\<exists>d' w'. tx_with_retry demo_proto [65] (default_policy\<lparr>max_attempts := 1\<rparr>) demo_dongle (demo_world [(1, [193, 1, 1])])
     = (Err ChannelBusy, d', w') \<and> (\<exists>fs. length fs = 1 \<and> written (d_session d') = written (d_session demo_dongle) @ fs)"
proof -
  obtain d' w' where run: "tx_with_retry demo_proto [65] (default_policy\<lparr>max_attempts := 1\<rparr>) demo_dongle
      (demo_world [(1, [193, 1, 1])]) = (Err ChannelBusy, d', w')" using demo_give_up by blast
  from retry_gives_up_after_all_attempts [OF run] run show ?thesis by simp
qed

text \<open>
  C17. In every interleaving of all methods of the dongle and its keepalive task in which the
  device does not report a lost configuration and no answer gets lost, and until the session is
  closed, the flag rx\_started can be trusted: if it is set and nobody is about to clear it, then
  of the RX\_START, RX\_STOP and SET\_CONFIG commands the device carried out the last one is an
  RX\_START. Holding the lock across RX\_START is what makes this true.
\<close>
theorem rx_flag_sound:
  assumes "dreachable False False a S" "\<not> cut S" "flag S" "\<forall>i. \<not> clearing (pcs S i)"
  shows "last_is_start (ran S)"
  using flag_okD(1) [OF dreachable_flag [OF assms(1,2)] assms(3)] assms(4) by blast

theorem rx_flag_sound_witness:
  "flag (blocked_recv (Some ())) \<and> last_is_start (ran (blocked_recv (Some ())))"
proof -
  have "\<not> cut (blocked_recv (Some ()))" "flag (blocked_recv (Some ()))" "\<forall>i. \<not> clearing (pcs (blocked_recv (Some ())) i)"
    by (simp_all add: blocked_recv_def)
  with rx_flag_sound [OF reachable_blocked] show ?thesis by blast
qed

text \<open>
  C18. Several tasks and the keepalive task on one dongle, whatever the device answers, even when
  calls are dropped half-way: at most one task is between locking rx\_started and releasing it, a
  task that has the device's answer releases it in its next step, and a call that is not waiting
  for packets can always go on itself or waits for a holder that can, so the lock cannot deadlock
  the dongle.
\<close>
theorem rx_started_lock:
  assumes "dreachable recovery lossy a S"
  shows "(holds_rx (pcs S i) \<longrightarrow> holds_rx (pcs S j) \<longrightarrow> i = j)
    \<and> (pcs S i = Started ret r \<longrightarrow> dstep recovery lossy i S T \<longrightarrow> rx_lock T = None)
    \<and> (\<not> parked (pcs S i) \<longrightarrow> (\<exists>T. dstep recovery lossy i S T)
         \<or> (\<exists>j T. j \<noteq> i \<and> rx_lock S = Some j \<and> holds_rx (pcs S j) \<and> dstep recovery lossy j S T))"
proof -
  have inv: "locks_ok S" using assms by (rule dreachable_locks)
  then show ?thesis
    using locks_ok_holder(1) [OF inv] holder_releases(2) [OF inv] rx_lock_progress [OF inv, of i recovery lossy] by blast
qed

theorem rx_started_lock_witness:
  "\<exists>T. dstep True False 2 (stale_flag () ()) T"
proof -
  have "\<not> parked (pcs (stale_flag () ()) 2)" "rx_lock (stale_flag () ()) = None" by (simp_all add: stale_flag_def)
  with rx_started_lock [OF reachable_stale [of False "()" "()"], of 2 2 ToUser AOk "stale_flag () ()"] show ?thesis
    by auto
qed



text \<open>
  C20. When a transmission finds the device unconfigured and a configuration was applied before,
  that configuration is sent again, the echoed one cached, and the transmission repeated once with
  its result returned; without a cached configuration the error is returned after the one attempt.
\<close>
theorem tx_recovers_lost_configuration:
  assumes "\<not> d_closed d" "transmit P data skip t (d_session d) w = (Err NotConfigured, s1, w1)"
  shows "(applied_config d = None \<longrightarrow> tx_with_timeout P data skip t d w =
      (Err NotConfigured, d\<lparr>last_write_at := clock w, d_session := s1\<rparr>, w1))
    \<and> (\<forall>m r s2 w2 res s3 w3. applied_config d = Some m
        \<longrightarrow> Commands.set_config P m (from_secs 2) s1 w1 = (Ok r, s2, w2)
        \<longrightarrow> transmit P data skip t s2 w2 = (res, s3, w3)
        \<longrightarrow> tx_with_timeout P data skip t d w =
          (res, d\<lparr>last_write_at := clock w, d_session := s3, applied_config := Some (current r)\<rparr>, w3))"
  using tx_no_config [OF assms(1) _ assms(2)] tx_recovers [OF assms] by blast

theorem tx_recovers_lost_configuration_witness:
  "fst (tx_with_timeout demo_proto [65] False 5 demo_dongle
     (demo_world [(1, [129, 1, 3]), (2, [128, 2]), (3, [193, 3, 0])])) = Ok \<lparr>td_result = Transmitted, airtime_us = 7\<rparr>"
proof -
  let ?w = "demo_world [(1, [129, 1, 3]), (2, [128, 2]), (3, [193, 3, 0])]"
  obtain s1 w1 where 1: "transmit demo_proto [65] False 5 (d_session demo_dongle) ?w = (Err NotConfigured, s1, w1)"
      "\<exists>r s2 w2. Commands.set_config demo_proto (LoRa demo_lora) (from_secs 2) s1 w1 = (Ok r, s2, w2)
        \<and> fst (transmit demo_proto [65] False 5 s2 w2) = Ok \<lparr>td_result = Transmitted, airtime_us = 7\<rparr>"
    by (simp add: run_defs demo_defs dongle_defs)
  then obtain r s2 w2 where 2: "Commands.set_config demo_proto (LoRa demo_lora) (from_secs 2) s1 w1 = (Ok r, s2, w2)"
      "fst (transmit demo_proto [65] False 5 s2 w2) = Ok \<lparr>td_result = Transmitted, airtime_us = 7\<rparr>" by blast
  obtain res s3 w3 where 3: "transmit demo_proto [65] False 5 s2 w2 = (res, s3, w3)" by (metis prod_cases3)
  have "\<not> d_closed demo_dongle" "applied_config demo_dongle = Some (LoRa demo_lora)"
    by (simp_all add: demo_dongle_def)
  with tx_recovers_lost_configuration [OF _ 1(1)] 2 3 show ?thesis by simp
qed

text \<open>
  C21. A dongle that comes out of finalize was probed with PING under tag 1 and GET\_INFO under
  tag 2 and nothing else; a requested configuration was checked against the device information
  just read, sent as SET\_CONFIG under tag 3 after these two, and the configuration cached is the
  one the device reports in its answer to it; without a request nothing is cached. The device
  information is the answer to GET\_INFO, nothing is outstanding and the dongle is open on the
  transport it was given.
\<close>
theorem connect_handshake:
  assumes "finalize P B w kind opts timeout = Ok (d, w')"
  shows "handshake P B w opts timeout d w' \<and> dongle_inv d w' \<and> \<not> d_closed d \<and> d_transport_kind d = kind
    \<and> pending_map (d_session d) = [] \<and> keepalive_handle d = o_keepalive opts \<and> clock w \<le> clock w'"
  using finalize_Ok [OF assms] by blast

theorem connect_handshake_witness:
  "\<exists>d w'. finalize demo_proto (demo_build True) (demo_world [(1, [128, 1]), (2, [128, 2]), (3, [128, 3])])
     (Serial ''/dev/ttyACM0'') (with_config (LoRa demo_lora) new_options) 5 = Ok (d, w')
     \<and> handshake demo_proto (demo_build True) (demo_world [(1, [128, 1]), (2, [128, 2]), (3, [128, 3])])
       (with_config (LoRa demo_lora) new_options) 5 d w'"
  using demo_connect connect_handshake by blast

text \<open>
  C22. Once the process has used a mux, connecting without an explicit port never ends on a direct
  serial port, in the blocking and in the non-blocking variant, and the flag stays set; with the
  flag clear, a dongle on a mux sets it and a dongle on a serial port does not.
\<close>
theorem mux_is_sticky:
  assumes "o_port opts = None"
  shows "(\<forall>r used. connect_with P B E opts True now = Some (r, used) \<longrightarrow>
      used \<and> (\<forall>d w. r = Ok (d, w) \<longrightarrow> is_mux (d_transport_kind d)))
    \<and> (\<forall>r used. try_connect_with P B E opts True now = (r, used) \<longrightarrow>
      used \<and> (\<forall>d w. r = Ok (d, w) \<longrightarrow> is_mux (d_transport_kind d)))
    \<and> (\<forall>d w used. connect_with P B E opts False now = Some (Ok (d, w), used) \<longrightarrow>
      used = is_mux (d_transport_kind d))"
  using connect_with_sticky [OF assms] try_connect_with_sticky [OF assms] connect_with_flag [OF assms] by blast

theorem mux_is_sticky_witness:
  "snd (try_connect_with demo_proto (demo_build True) demo_env new_options True 0)"
proof -
  have p: "o_port (new_options :: (u8 lora_config, unit) modulation connect_options) = None"
    by (simp add: new_options_def default_options_def)
  from mux_is_sticky [OF p, of demo_proto "demo_build True" demo_env 0] show ?thesis
    by (metis prod.collapse)
qed

text \<open>
  C23. With no explicit port and no mux used before, connect\_with returns exactly if the TCP
  endpoint of the environment answers, or a mux socket exists, or some poll, half a second apart,
  finds a device.
\<close>
theorem connect_returns_iff:
  assumes "o_port opts = None" "try_tcp_env E (opts_timeout opts) now = (tcp, spent)"
  shows "(\<exists>r. connect_with P B E opts False now = Some r) \<longleftrightarrow>
    tcp \<noteq> None \<or> find_mux_socket E (now + spent) \<noteq> None
    \<or> (\<exists>n. find_port (available_ports E (now + spent + n * POLL_INTERVAL)) \<noteq> None)"
proof -
  have poll: "(\<exists>r. wait_for_device (available_ports E) t = Some r) \<longleftrightarrow>
      (\<exists>n. find_port (available_ports E (t + n * POLL_INTERVAL)) \<noteq> None)" for t
    using device_poll.loop_returns_iff [of "available_ports E" t] by (simp add: device_at_def)
  show ?thesis
  proof (cases "tcp = None \<and> find_mux_socket E (now + spent) = None
      \<and> find_port (available_ports E (now + spent)) = None")
    case True
    with assms have "connect_with P B E opts False now =
        map_option (\<lambda>(port, t). (serial_session P B E port opts (opts_timeout opts) t, False))
          (wait_for_device (available_ports E) (now + spent))"
      by (simp add: connect_with_def Let_def)
    with True poll [of "now + spent"] show ?thesis by auto
  next
    case False
    have "\<exists>n. find_port (available_ports E (now + spent + n * POLL_INTERVAL)) \<noteq> None"
      if "find_port (available_ports E (now + spent)) \<noteq> None"
      using that by (intro exI [of _ 0]) simp
    with False assms show ?thesis
      by (auto simp: connect_with_def Let_def split: option.splits)
  qed
qed

theorem connect_returns_iff_witness:
  "\<exists>r. connect_with demo_proto (demo_build True) demo_env new_options False 0 = Some r"
proof -
  have p: "o_port (new_options :: (u8 lora_config, unit) modulation connect_options) = None"
      "try_tcp_env demo_env (opts_timeout (new_options :: (u8 lora_config, unit) modulation connect_options)) 0 = (None, 0)"
    by (simp_all add: new_options_def default_options_def try_tcp_env_def demo_env_def)
  have "find_port (available_ports demo_env (0 + 0 + 3 * POLL_INTERVAL)) \<noteq> None"
    by (simp add: demo_env_def find_port_def is_native_def USB_VID_def USB_PID_def POLL_INTERVAL_def from_millis_def)
  with connect_returns_iff [OF p, of demo_proto "demo_build True"] show ?thesis by blast
qed

text \<open>
  C24. The non-blocking variant is the blocking one without the wait: whenever it does not report
  that no device is present, the blocking variant returns the same result and sets the same flag,
  for an explicit port in any case and otherwise while no mux was used.
\<close>
theorem try_connect_agrees:
  assumes "o_port opts \<noteq> None \<or> \<not> used"
    "fst (try_connect_with P B E opts used now) \<noteq> Err (Other ''no DongLoRa device found (no mux, no USB device)'')"
  shows "connect_with P B E opts used now = Some (try_connect_with P B E opts used now)"
proof (cases "o_port opts")
  case (Some port)
  then show ?thesis by (simp add: connect_with_def try_connect_with_def Let_def)
next
  case None
  obtain r spent where t: "try_tcp_env E (opts_timeout opts) now = (r, spent)" by fastforce
  from None assms t show ?thesis
    by (auto simp: connect_with_def try_connect_with_def Let_def split: option.splits)
qed

theorem try_connect_agrees_witness:
  "connect_with demo_proto (demo_build True) demo_env (with_port ''/dev/ttyACM0'' new_options) True 0
   = Some (try_connect_with demo_proto (demo_build True) demo_env (with_port ''/dev/ttyACM0'' new_options) True 0)"
  by (rule try_connect_agrees)
    (simp_all add: with_port_def try_connect_with_def serial_session_def serial_open_def demo_env_def Let_def)

text \<open>
  C25. For spreading factor and bandwidth numbers below 16, a LoRa configuration is accepted
  exactly if the device supports its frequency, spreading factor and bandwidth; it then differs
  from the request at most in the transmit power, which is clamped; anything else is an error that
  says why, never a panic.
\<close>
theorem prepare_accepts_iff_supported:
  assumes "indices_in_range B cfg"
  shows "(prepare_config B di (LoRa cfg) = Ok m \<longleftrightarrow>
      supports B di cfg \<and> m = LoRa (cfg\<lparr>tx_power_dbm := clamp_power di (tx_power_dbm cfg)\<rparr>))
    \<and> (\<not> supports B di cfg \<longrightarrow> (\<exists>why. prepare_config B di (LoRa cfg) = Err (ConfigNotSupported why)))"
proof (cases "supports B di cfg")
  case True
  then have "prepare_lora_config B di cfg = Ok (cfg\<lparr>tx_power_dbm := clamp_power di (tx_power_dbm cfg)\<rparr>)"
    using prepare_lora_config_Ok_iff [OF assms, of di] by blast
  with True show ?thesis by auto
next
  case False
  with prepare_lora_config_Ok_iff [OF assms, of di] have n: "prepare_lora_config B di cfg \<noteq> Ok c" for c by blast
  have "prepare_lora_config B di cfg \<noteq> Panic" using prepare_lora_config_never_panics assms by blast
  with n prepare_lora_config_Err [of B di cfg] False show ?thesis
    by (cases "prepare_lora_config B di cfg") auto
qed

theorem prepare_accepts_iff_supported_witness:
  "prepare_config (demo_build True) demo_info (LoRa demo_lora :: (u8 lora_config, unit) modulation) = Ok (LoRa demo_lora)"
proof -
  have i: "indices_in_range (demo_build True) demo_lora" by (simp add: indices_in_range_def demo_defs)
  have "supports (demo_build True) demo_info demo_lora"
    by (simp add: supports_def demo_defs bit_numeral_rec)
  moreover have "demo_lora\<lparr>tx_power_dbm := clamp_power demo_info (tx_power_dbm demo_lora)\<rparr> = demo_lora"
    by (simp add: clamp_power_def demo_defs)
  ultimately show ?thesis using prepare_accepts_iff_supported [OF i, of demo_info "LoRa demo_lora"] by simp
qed

text \<open>
  C26. On a device whose power range is not empty, an accepted configuration has its transmit
  power within that range as signed numbers and keeps frequency, spreading factor and bandwidth; a
  power already in range is kept; preparing the result again accepts it unchanged.
\<close>
theorem prepare_clamps_and_is_idempotent:
  assumes "sint (tx_power_min_dbm di) \<le> sint (tx_power_max_dbm di)" "prepare_lora_config B di cfg = Ok cfg'"
  shows "sint (tx_power_min_dbm di) \<le> sint (tx_power_dbm cfg') \<and> sint (tx_power_dbm cfg') \<le> sint (tx_power_max_dbm di)
    \<and> freq_hz cfg' = freq_hz cfg \<and> sf cfg' = sf cfg \<and> bw cfg' = bw cfg
    \<and> (sint (tx_power_min_dbm di) \<le> sint (tx_power_dbm cfg) \<and> sint (tx_power_dbm cfg) \<le> sint (tx_power_max_dbm di)
        \<longrightarrow> cfg' = cfg)
    \<and> prepare_lora_config B di cfg' = Ok cfg'"
proof -
  have "cfg' = cfg\<lparr>tx_power_dbm := clamp_power di (tx_power_dbm cfg)\<rparr>"
    using assms(2) by (auto simp: prepare_lora_config_def split: if_splits option.splits bool.splits)
  with clamp_power_bounds [OF assms(1), of "tx_power_dbm cfg"] prepare_lora_config_idem [OF assms]
    clamp_power_id [of di "tx_power_dbm cfg"]
  show ?thesis by (intro conjI impI) simp_all
qed

theorem prepare_clamps_and_is_idempotent_witness:
  "prepare_lora_config (demo_build True) demo_info (demo_lora\<lparr>tx_power_dbm := 30\<rparr>) = Ok (demo_lora\<lparr>tx_power_dbm := 22\<rparr>)
    \<and> prepare_lora_config (demo_build True) demo_info (demo_lora\<lparr>tx_power_dbm := 22\<rparr>) = Ok (demo_lora\<lparr>tx_power_dbm := 22\<rparr>)"
proof -
  have "prepare_lora_config (demo_build True) demo_info (demo_lora\<lparr>tx_power_dbm := 30\<rparr>) = Ok (demo_lora\<lparr>tx_power_dbm := 22\<rparr>)"
    by (simp add: prepare_lora_config_def has_bit_def shl1_u16_def clamp_power_def demo_defs)
  moreover have "sint (tx_power_min_dbm demo_info) \<le> sint (tx_power_max_dbm demo_info)" by (simp add: demo_defs)
  ultimately show ?thesis using prepare_clamps_and_is_idempotent by blast
qed

text \<open>
  C27. An endpoint printed as host:port parses back to the same host and port whatever the host
  contains, colons included; an empty host stands for localhost, and so does a bare port number.
\<close>
theorem tcp_endpoint_round_trip:
  "parse_tcp_endpoint (tcp_addr host port) = Some (if host = [] then ''localhost'' else host, port)
    \<and> parse_tcp_endpoint (show_dec (unat port)) = Some (''localhost'', port)"
  by (simp add: parse_tcp_addr parse_tcp_port)

text \<open>
  C28. Waiting for a device ends at the first poll that finds one, after the settling time, with
  the name of a port of that scan: one with the native USB identifiers, or a known bridge if the
  scan has no native one.
\<close>
theorem discovery_finds_first_device:
  assumes "\<And>k. k < n \<Longrightarrow> find_port (scan (now + k * POLL_INTERVAL)) = None"
    "find_port (scan (now + n * POLL_INTERVAL)) = Some name"
  shows "wait_for_device scan now = Some (name, now + n * POLL_INTERVAL + USB_SETTLE)
    \<and> (\<exists>ports p. scan (now + n * POLL_INTERVAL) = Some ports \<and> p \<in> set ports \<and> port_name p = name
      \<and> (is_native p \<or> is_bridge p \<and> \<not> (\<exists>q \<in> set ports. is_native q)))"
proof -
  have "wait_for_device scan now = Some (name, now + n * POLL_INTERVAL + USB_SETTLE)"
    by (rule device_poll.loop_first [of n]) (simp_all add: device_at_def assms)
  with find_port_Some [OF assms(2)] show ?thesis by blast
qed

theorem discovery_finds_first_device_witness:
  "wait_for_device (available_ports demo_env) 0 = Some (''/dev/ttyACM0'', 0 + 3 * POLL_INTERVAL + USB_SETTLE)"
proof -
  have "find_port (available_ports demo_env (0 + k * POLL_INTERVAL)) = None" if "k < 3" for k
    using that by (simp add: demo_env_def find_port_def POLL_INTERVAL_def from_millis_def)
  moreover have "find_port (available_ports demo_env (0 + 3 * POLL_INTERVAL)) = Some ''/dev/ttyACM0''"
    by (simp add: demo_env_def find_port_def is_native_def USB_VID_def USB_PID_def POLL_INTERVAL_def from_millis_def)
  ultimately show ?thesis using discovery_finds_first_device [of 3 "available_ports demo_env" 0] by blast
qed

text \<open>
  C29. The receiving example prints one line per packet, in the order the packets arrive, and
  skips none: its output is the lines of a prefix of the stream of packets, what is left of the
  stream is still to come, and while the program waits nothing that has arrived is unprinted.
\<close>
theorem rx_example_prints_every_packet:
  assumes "rx_loop P d w = (out, x, d', w')"
  shows "\<exists>pkts. out = map (\<lambda>p. Stdout (rx_line p)) pkts
    \<and> rx_stream P (d_session d) (arrivals w) = pkts @ rx_stream P (d_session d') (arrivals w')
    \<and> (x = Running \<longrightarrow> rx_stream P (d_session d') (arrivals w') = [])"
  using rx_loop_prints [OF assms] rx_loop_running [of P d w out d' w'] assms by auto

theorem rx_example_prints_every_packet_witness:
  "\<exists>d' w'. rx_loop rx_proto rx_dongle (demo_world [(1, [128, 1]), (2, [192, 0, 0])])
      = ([Stdout (rx_line demo_packet)], Running, d', w')
    \<and> rx_stream rx_proto (d_session d') (arrivals w') = []"
proof -
  obtain d' w' where run: "rx_loop rx_proto rx_dongle (demo_world [(1, [128, 1]), (2, [192, 0, 0])])
      = ([Stdout (rx_line demo_packet)], Running, d', w')" using demo_rx_loop by blast
  from rx_example_prints_every_packet [OF run] run show ?thesis by blast
qed

text \<open>
  C30. The sending example runs on: if the payload field has room for its longest greeting, then
  after any number of turns below 2 ^ 32 it has not panicked and has printed exactly one line per
  turn, numbered from 1 without gaps, whatever each transmission returned.
\<close>
theorem tx_example_keeps_running:
  assumes "17 < MAX_PAYLOAD_FIELD P" "n < 2 ^ 32" "tx_loop P checks n 0 d w = (out, x, d', w')"
  shows "x = Running \<and> (\<exists>rs. length rs = n \<and> Panic \<notin> set rs
    \<and> out = concat (map2 tx_line (map of_nat [1..<Suc n]) rs))"
  using tx_loop_runs [of P 0 n checks d w out x d' w'] assms by simp

theorem tx_example_keeps_running_witness:
  "\<exists>out d' w'. tx_loop plain_proto True 2 0 (test_dongle plain_proto [] None False) (duplex []) = (out, Running, d', w')
    \<and> (\<exists>rs. length rs = 2 \<and> Panic \<notin> set rs \<and> out = concat (map2 tx_line [1, 2] rs))"
proof -
  obtain out x d' w' where run:
    "tx_loop plain_proto True 2 0 (test_dongle plain_proto [] None False) (duplex []) = (out, x, d', w')"
    by (metis prod_cases4)
  have "17 < MAX_PAYLOAD_FIELD plain_proto" "(2::nat) < 2 ^ 32" by (simp_all add: plain_proto_def)
  moreover have "map of_nat [1..<Suc 2] = [1, 2 :: u32]" by (simp add: numeral_2_eq_2)
  ultimately show ?thesis using tx_example_keeps_running [OF _ _ run] run by auto
qed



text \<open>
  C32. Data that does not fit the payload field together with the flags byte makes the transmit of
  an open dongle panic, before anything is allocated or written; empty data is refused with a
  length error, and shorter data never panics.
\<close>
theorem oversized_payload_panics:
  assumes "\<not> d_closed d"
  shows "(data \<noteq> [] \<and> MAX_PAYLOAD_FIELD P \<le> length data \<longrightarrow>
      tx_with_timeout P data skip t d w = (Panic, mark_write w d, w))
    \<and> (data = [] \<longrightarrow> tx_with_timeout P data skip t d w = (Err Length, mark_write w d, w))
    \<and> (length data < MAX_PAYLOAD_FIELD P \<longrightarrow> fst (transmit P data skip t (d_session d) w) \<noteq> Panic)"
proof -
  have "fst (transmit P data skip t (d_session d) w) \<noteq> Panic" if "length data < MAX_PAYLOAD_FIELD P"
  proof -
    have "expect_tx_done P r \<noteq> Panic" for r
      by (cases r) (auto simp: unexpected_def split: tx_result.splits)
    with that show ?thesis
      by (auto simp: transmit_def command_def split: prod.splits client_result.splits
          dest: send_command_never_panics)
  qed
  with assms show ?thesis
    by (auto simp: tx_with_timeout_def check_open_def on_session_def mark_write_def transmit_def)
qed

theorem oversized_payload_panics_witness:
  "fst (tx_with_timeout demo_proto (replicate 8 0) False 5 demo_dongle (demo_world [])) = Panic"
proof -
  have "\<not> d_closed demo_dongle" by (simp add: demo_dongle_def)
  from oversized_payload_panics [OF this, of "replicate 8 0" demo_proto False 5 "demo_world []"]
  show ?thesis by (simp add: demo_proto_def)
qed

text \<open>
  C33. A spreading factor of 16 or more, on a frequency the device has, makes the check panic in a
  build with overflow checks, whatever the bandwidth; in a build without, it is tested as its
  remainder modulo 16: if the device supports that one and the bandwidth, the configuration is
  accepted with the spreading factor as it was, and if it does not support the remainder, it is
  rejected.
\<close>
theorem large_spreading_factor:
  assumes "16 \<le> unat (sf cfg)" "freq_min_hz di \<le> freq_hz cfg" "freq_hz cfg \<le> freq_max_hz di"
  shows "(overflow_checks B \<longrightarrow> prepare_lora_config B di cfg = Panic)
    \<and> (\<not> overflow_checks B \<and> bit (supported_sf_bitmap di) (unat (sf cfg) mod 16)
        \<and> bit (supported_bw_bitmap di) (unat (bw_as_u8 B (bw cfg))) \<longrightarrow>
        prepare_lora_config B di cfg = Ok (cfg\<lparr>tx_power_dbm := clamp_power di (tx_power_dbm cfg)\<rparr>))
    \<and> (\<not> overflow_checks B \<and> \<not> bit (supported_sf_bitmap di) (unat (sf cfg) mod 16) \<longrightarrow>
        prepare_lora_config B di cfg = Err (ConfigNotSupported (sf_reason False di cfg)))"
proof -
  have "unat (bw_as_u8 B (bw cfg)) < 16" if "bit (supported_bw_bitmap di) (unat (bw_as_u8 B (bw cfg)))"
    using bit_imp_le_length [OF that] by simp
  with assms show ?thesis
    by (simp add: prepare_lora_config_def has_bit_in_range has_bit_out_of_range not_less [symmetric])
qed

theorem large_spreading_factor_witness:
  "prepare_lora_config (demo_build True) demo_info (demo_lora\<lparr>sf := 23\<rparr>) = Panic
    \<and> prepare_lora_config (demo_build False) demo_info (demo_lora\<lparr>sf := 23\<rparr>) = Ok (demo_lora\<lparr>sf := 23\<rparr>)"
proof -
  have h: "16 \<le> unat (sf (demo_lora\<lparr>sf := 23\<rparr>))" "freq_min_hz demo_info \<le> freq_hz (demo_lora\<lparr>sf := 23\<rparr>)"
      "freq_hz (demo_lora\<lparr>sf := 23\<rparr>) \<le> freq_max_hz demo_info"
      "bit (supported_bw_bitmap demo_info) (unat (bw_as_u8 (demo_build b) (bw (demo_lora\<lparr>sf := 23\<rparr>))))" for b
    by (simp_all add: demo_defs bit_numeral_rec)
  have "overflow_checks (demo_build b) = b" "bit (supported_sf_bitmap demo_info) (unat (sf (demo_lora\<lparr>sf := 23\<rparr>)) mod 16)"
      "(demo_lora\<lparr>sf := 23\<rparr>)\<lparr>tx_power_dbm := clamp_power demo_info (tx_power_dbm (demo_lora\<lparr>sf := 23\<rparr>))\<rparr> = demo_lora\<lparr>sf := 23\<rparr>" for b
    by (simp_all add: demo_defs clamp_power_def bit_numeral_rec)
  with large_spreading_factor [OF h(1-3), of "demo_build True"] large_spreading_factor [OF h(1-3), of "demo_build False"]
    h(4) [of False]
  show ?thesis by simp
qed

text \<open>
  C34. A keepalive turn leaves the receive-mode mark as it was, even when it re-sent the
  configuration, so a receive call after it writes no frame and does not start reception again.
\<close>
theorem recovery_does_not_restart_rx:
  assumes "keepalive_iter P d w = (b, d', w')" "rx_started d" "recv P t d' w' = (r, d'', w'')"
  shows "rx_started d' \<and> written (d_session d'') = written (d_session d')"
proof -
  have s: "rx_started d'" using keepalive_recovery_keeps_rx [OF assms(1)] assms(2) by simp
  have "written (d_session d'') = written (d_session d')"
  proof (cases "d_closed d'")
    case False
    obtain x d2 w2 where o: "on_session (recv_rx P t) d' w' = (x, d2, w2)" by (metis prod_cases3)
    from recv_effect(1) [OF o] have "written (d_session d2) = written (d_session d')" by (auto simp: effect_def)
    with assms(3) False s o show ?thesis by (simp add: recv_def ensure_rx_def)
  qed (use assms(3) in \<open>simp add: recv_def\<close>)
  with s show ?thesis by blast
qed

theorem recovery_does_not_restart_rx_witness:
  "\<exists>d' w' d'' w''. keepalive_iter demo_proto (demo_dongle\<lparr>rx_started := True\<rparr>)
      (demo_world [(600000000, [129, 1, 3]), (700000000, [128, 2])]) = (True, d', w')
    \<and> written (d_session d') = [[1, 1], [3, 2, 0]]
    \<and> recv demo_proto 5 d' w' = (Ok None, d'', w'') \<and> rx_started d' \<and> written (d_session d'') = [[1, 1], [3, 2, 0]]"
proof -
  obtain d' w' d'' w'' where run: "keepalive_iter demo_proto (demo_dongle\<lparr>rx_started := True\<rparr>)
      (demo_world [(600000000, [129, 1, 3]), (700000000, [128, 2])]) = (True, d', w')"
      "written (d_session d') = [[1, 1], [3, 2, 0]]" "recv demo_proto 5 d' w' = (Ok None, d'', w'')"
    by (simp add: keepalive_iter_def recv_def ensure_rx_def run_defs demo_defs dongle_defs KEEPALIVE_INTERVAL_def)
  from recovery_does_not_restart_rx [OF run(1) _ run(3)] run show ?thesis by auto
qed

text \<open>
  C35. When the reader has ended but the session was not closed, a command that is written can
  only time out: its result is a time-out at the deadline, whatever arrives.
\<close>
theorem dead_reader_only_times_out:
  assumes "session_inv s" "\<not> closed s" "\<not> reader_running s"
    "encode_frame P ty (next_tag s) pl = Inr wire" "write_outcomes w (writes w) = WriteOk"
  shows "\<exists>s' w'. send_command P ty pl timeout s w = (Err (Timeout (describe_cmd P ty)), s', w')
    \<and> clock w' = clock w + write_time w (writes w) + timeout"
  using assms by (rule send_command_dead) blast

theorem dead_reader_only_times_out_witness:
  "\<exists>s' w'. send_command demo_proto 1 [] 5 (reader_iter demo_proto (ReadOk []) (spawn demo_proto))
     (demo_world [(1, [128, 1])]) = (Err (Timeout (describe_cmd demo_proto 1)), s', w')"
proof -
  let ?s = "reader_iter demo_proto (ReadOk []) (spawn demo_proto)"
  have "\<not> closed ?s" "\<not> reader_running ?s" "encode_frame demo_proto 1 (next_tag ?s) [] = Inr [1, 1]"
      "write_outcomes (demo_world [(1, [128, 1])]) (writes (demo_world [(1, [128, 1])])) = WriteOk"
    by (simp_all add: reader_iter_def reader_exit_def wake_all_def spawn_def demo_defs)
  from dead_reader_only_times_out [OF reader_iter_inv [OF spawn_inv] this] show ?thesis by blast
qed

text \<open>
  C36. There is a schedule in which a transmission times out while the reader holds its entry for
  the acceptance OK: the caller has returned the time-out error and cleaned up, and afterwards the
  reader puts the entry back, so it stays in the map.
\<close>
theorem timeout_race_leaks_entry:
  "\<exists>S. reachable demo_proto S
    \<and> tasks S 0 = Returned (Err (Timeout ''TX'')) (TYPE_TX demo_proto) 1 0
    \<and> pending_of (sess S) 1 = Some \<lparr>cmd_type = TYPE_TX demo_proto, waker = 0\<rparr>"
  using reachable_leak [of demo_proto "TYPE_TX demo_proto" "[0, 65]" "[4, 1, 0, 65]" "[128, 1]" "()" "[]"]
  by (simp add: demo_proto_def describe_cmd_def)

text \<open>
  C37. There is a schedule in which a command passes the closed check, close runs to its end, and
  only then the command registers and waits: the session is closed, the reader is gone, and unless
  somebody closes the session a second time, which the close of a dongle does not do, nobody
  decides its channel. In every continuation without another close the channel is open for as long
  as the command waits, and the command, if it returns at all, returns its time-out error, not the
  error of a closed session.
\<close>
theorem close_race_strands_call:
  "\<exists>S. reachable demo_proto S \<and> closed (sess S) \<and> tasks S 1 = CloseDone \<and> reader S = RGone
    \<and> tasks S 0 = Waiting (TYPE_PING demo_proto) 1 0
    \<and> (\<forall>T. (no_close_step demo_proto)\<^sup>*\<^sup>* S T \<longrightarrow>
         (\<forall>ty tag c. tasks T 0 = Waiting ty tag c \<longrightarrow> chans (sess T) c = ChanOpen)
         \<and> (\<forall>r ty tag c. tasks T 0 = Returned r ty tag c \<longrightarrow> r = Err (Timeout ''PING'')))"
proof -
  let ?P = demo_proto
  have ping: "describe_cmd ?P (TYPE_PING ?P) = ''PING''" by (simp add: describe_cmd_def)
  obtain S where S: "reachable ?P S" "tasks S 1 = CloseDone" "stranded ?P (TYPE_PING ?P) S"
      "tasks S 0 = Waiting (TYPE_PING ?P) 1 0"
    using reachable_after_sweep [of ?P "TYPE_PING ?P" "[]" "[1, 1]"] by (auto simp: demo_proto_def)
  have "(\<forall>ty tag c. tasks T 0 = Waiting ty tag c \<longrightarrow> chans (sess T) c = ChanOpen)
      \<and> (\<forall>r ty tag c. tasks T 0 = Returned r ty tag c \<longrightarrow> r = Err (Timeout ''PING''))"
    if "(no_close_step ?P)\<^sup>*\<^sup>* S T" for T
    using stranded_stays [OF that S(3)] ping by (auto simp: stranded_def)
  moreover have "closed (sess S)" "reader S = RGone" using S(3) by (simp_all add: stranded_def)
  ultimately show ?thesis using S by blast
qed

theorem close_race_strands_call_witness:
  "\<exists>S. reachable demo_proto S \<and> tasks S 0 = Waiting (TYPE_PING demo_proto) 1 0 \<and> chans (sess S) 0 = ChanOpen"
  using close_race_strands_call by blast

text \<open>
  C38. When the runtime directory is set but only the fallback socket in /tmp ever exists, a
  blocking connect in a process that has used a mux waits for ever, although the non-blocking one
  connects to that socket.
\<close>
theorem sticky_wait_misses_fallback_socket:
  assumes "o_port opts = None" "env_var E ''DONGLORA_MUX'' = None" "env_var E ''XDG_RUNTIME_DIR'' = Some xdg"
    "env_var E ''DONGLORA_MUX_TCP'' = None"
    "\<And>t. \<not> path_exists E t (xdg @ ''/donglora/mux.sock'')" "path_exists E now ''/tmp/donglora-mux.sock''"
  shows "connect_with P B E opts True now = None
    \<and> try_connect_with P B E opts True now =
        (fst (unix_session P B E ''/tmp/donglora-mux.sock'' opts (opts_timeout opts) now), True)"
proof -
  have "sticky_wait (\<lambda>t. path_exists E t (default_socket_path E)) now = None"
  proof -
    have "\<nexists>r. sticky_wait (\<lambda>t. path_exists E t (default_socket_path E)) now = Some r"
      using assms(2,3,5) by (simp add: socket_poll.loop_returns_iff socket_at_def default_socket_path_def)
    then show ?thesis by simp
  qed
  with assms show ?thesis
    by (simp add: connect_with_def try_connect_with_def connect_mux_sticky_def try_tcp_env_def find_mux_socket_def Let_def)
qed

theorem sticky_wait_misses_fallback_socket_witness:
  "connect_with demo_proto (demo_build True)
     (demo_env\<lparr>env_var := [''XDG_RUNTIME_DIR'' \<mapsto> ''/run''], path_exists := \<lambda>_ p. p = ''/tmp/donglora-mux.sock''\<rparr>)
     new_options True 0 = None"
proof -
  let ?E = "demo_env\<lparr>env_var := [''XDG_RUNTIME_DIR'' \<mapsto> ''/run''], path_exists := \<lambda>_ p. p = ''/tmp/donglora-mux.sock''\<rparr>"
  have "o_port (new_options :: (u8 lora_config, unit) modulation connect_options) = None"
      "env_var ?E ''DONGLORA_MUX'' = None" "env_var ?E ''XDG_RUNTIME_DIR'' = Some ''/run''"
      "env_var ?E ''DONGLORA_MUX_TCP'' = None" "\<And>t. \<not> path_exists ?E t (''/run'' @ ''/donglora/mux.sock'')"
      "path_exists ?E 0 ''/tmp/donglora-mux.sock''"
    by (simp_all add: new_options_def default_options_def)
  from sticky_wait_misses_fallback_socket [OF this] show ?thesis by blast
qed

text \<open>
  C39. When rx\_start has to recover a lost configuration it releases rx\_started first, and then
  the flag can go stale: there is a schedule with one set\_config beside it, no answer lost, after
  which both calls have returned and rx\_started is set although the last command the device
  carried out is the SET\_CONFIG. A receive call made in that state can get to wait for packets,
  and whatever steps it takes it sends no command, so it does not start reception again.
\<close>
theorem recovery_race_leaves_stale_flag:
  "\<exists>S. dreachable True False (Some m) S \<and> flag S \<and> \<not> last_is_start (ran S) \<and> hd (ran S) = CSet m'
    \<and> (\<forall>i. pcs S i = DIdle \<or> pcs S i = DDone)
    \<and> dstep True False 2 S (goto 2 (RecvChecking b) S)
    \<and> (\<exists>T. (dstep True False 2)\<^sup>*\<^sup>* (goto 2 (RecvChecking b) S) T \<and> pcs T 2 = Receiving b)
    \<and> (\<forall>T. (dstep True False 2)\<^sup>*\<^sup>* (goto 2 (RecvChecking b) S) T \<longrightarrow> ran T = ran S)"
proof (rule exI [of _ "stale_flag m m'"], intro conjI allI impI)
  let ?S = "stale_flag m m'"
  show "dreachable True False (Some m) ?S" by (rule reachable_stale)
  show "flag ?S" "\<not> last_is_start (ran ?S)" "hd (ran ?S) = CSet m'" by (simp_all add: stale_flag_def)
  show "pcs ?S i = DIdle \<or> pcs ?S i = DDone" for i by (simp add: stale_flag_def)
  show "\<exists>T. (dstep True False 2)\<^sup>*\<^sup>* (goto 2 (RecvChecking b) ?S) T \<and> pcs T 2 = Receiving b"
    by (rule exI, rule conjI, rule stale_recv) simp
  show "dstep True False 2 ?S (goto 2 (RecvChecking b) ?S)" by (rule stale_recv_call)
  show "ran T = ran ?S" if "(dstep True False 2)\<^sup>*\<^sup>* (goto 2 (RecvChecking b) ?S) T" for T
    using flagged_recv [OF that, of b] by (simp add: recv_pcs_def stale_flag_def)
qed

theorem recovery_race_leaves_stale_flag_witness:
  "\<exists>S. dreachable True False (Some (1::nat)) S \<and> flag S \<and> hd (ran S) = CSet 2"
  using recovery_race_leaves_stale_flag [of 1 2] by blast

text \<open>
  C40. The timeout of recv does not cover the wait for the receiver: there is a schedule in which
  one task is inside next\_rx and holds the receiver, a second one has called recv with a timeout,
  and the second can do nothing by itself, not even time out, until a packet ends the first call.
\<close>
theorem recv_timeout_waits_for_listener:
  "\<exists>S. dreachable False False a S \<and> pcs S 0 = Receiving False \<and> queue_lock S = Some 0
    \<and> pcs S 1 = WantQueue True \<and> (\<nexists>T. dstep False False 1 S T)"
  using reachable_blocked [of False False a] blocked_stuck [of False a]
  by (intro exI [of _ "blocked_recv a"]) (simp add: blocked_recv_def)

subsection \<open>Further facts\<close>

text \<open>
  In every reachable state of the concurrent session the map has at most one entry per tag and
  none under tag 0, distinct entries own distinct channels whose senders have not fired, and no
  two calls share a channel.
\<close>
theorem reachable_senders_unique:
  assumes "reachable P S"
  shows "distinct (map fst (pending_map (sess S))) \<and> 0 \<notin> fst ` set (pending_map (sess S))
    \<and> inj_on (\<lambda>e. waker (snd e)) (set (pending_map (sess S)))
    \<and> (\<forall>e \<in> set (pending_map (sess S)). chans (sess S) (waker (snd e)) = ChanOpen)
    \<and> (\<forall>i j ty tag c ty' tag'. call_of (tasks S i) = Some (ty, tag, c)
        \<longrightarrow> call_of (tasks S j) = Some (ty', tag', c) \<longrightarrow> i = j)"
  using own_invD(1,4) [OF reachable_own_inv [OF assms]]
  by (intro conjI ballI allI impI) (simp_all add: owned_ok_def, blast+)

text \<open>
  Of all the frames handled while a command is outstanding, the first completing frame with its
  tag decides its answer and removes its entry; if there is none, the command is still outstanding
  and its channel undecided.
\<close>
theorem first_completing_frame_decides:
  assumes "session_inv s" "pending_of s tag = Some p"
  shows "case find (completes P (cmd_type p) tag) ws of
      None \<Rightarrow> pending_of (fold (handle_work P) ws s) tag = Some p
        \<and> chans (fold (handle_work P) ws s) (waker p) = ChanOpen
    | Some w \<Rightarrow> pending_of (fold (handle_work P) ws s) tag = None
        \<and> chans (fold (handle_work P) ws s) (waker p) = ChanSent (work_response P (cmd_type p) w)"
  using assms by (rule fold_handle_work_first)

text \<open>
  Closing the session, and the reader ending for any reason, answer every outstanding command with
  a transport-closed error, leave no entry behind and touch no other channel; closing a closed
  session again changes nothing.
\<close>
theorem shutdown_wakes_everyone:
  assumes "pending_of s tag = Some p"
  shows "chans (close s) (waker p) = ChanSent (RespErr (TransportClosed ''session closed''))
    \<and> chans (reader_exit s) (waker p) = ChanSent (RespErr (TransportClosed ''reader exited''))
    \<and> pending_map (close s) = [] \<and> pending_map (reader_exit s) = []
    \<and> (\<forall>c. c \<notin> wakers s \<longrightarrow> chans (close s) c = chans s c \<and> chans (reader_exit s) c = chans s c)
    \<and> closed (close s) \<and> close (close s) = close s"
proof -
  have "waker p \<in> wakers s" using map_of_pending_in [OF assms] by force
  then show ?thesis by (simp add: close_def reader_exit_def wake_all_eq Let_def)
qed

text \<open>
  After any sequence of reads the packet queue holds what it held before followed by the packets
  of the received RX events in order, and the error queue likewise the errors of asynchronous
  error frames, undecodable events and broken frames; draining returns the whole error queue in
  order and empties it.
\<close>
theorem event_queues_in_order:
  assumes "reader_running s" "\<not> closed s" "[] \<notin> set bs"
  shows "rx_queue (reader_loop P (map ReadOk bs) s) =
      rx_queue s @ concat (map (rx_events P \<circ> frame_work_of) (snd (feed_all P (decoder s) bs)))
    \<and> drain_async_errors (reader_loop P (map ReadOk bs) s) =
      (async_err_queue s @ concat (map (err_events P \<circ> frame_work_of) (snd (feed_all P (decoder s) bs))),
       (reader_loop P (map ReadOk bs) s)\<lparr>async_err_queue := []\<rparr>)"
  by (simp add: reader_loop_chunks [OF assms] drain_async_errors_def drain_loop_eq fold_handle_work_queues)

text \<open>
  After a successful rx\_start the dongle is in receive mode, and starting again succeeds without
  writing a frame or waiting; a successful set\_config caches the configuration the device reports
  and leaves receive mode.
\<close>
theorem rx_start_is_idempotent:
  assumes "d_rx_start P d w = (Ok x, d1, w1)"
  shows "rx_started d1 \<and> d_rx_start P d1 w1 = (Ok (), d1\<lparr>last_write_at := clock w1\<rparr>, w1)
    \<and> (\<forall>m r s' w'. Commands.set_config P m (from_secs 2) (d_session d1) w1 = (Ok r, s', w') \<longrightarrow>
        d_set_config P m d1 w1 = (Ok (), d1\<lparr>last_write_at := clock w1, d_session := s',
          applied_config := Some (current r), rx_started := False\<rparr>, w'))"
  using d_rx_start_Ok [OF assms] d_set_config_cases [of d1 P _ w1 "Ok _"] by (simp add: mark_write_def)

text \<open>
  Every sequence of reads, writes, flushes and shutdowns through AnyTransport gives the answers of
  the wrapped serial, Unix or TCP stream in order and leaves exactly that stream in the state
  those polls leave it in.
\<close>
theorem any_transport_is_transparent:
  "io_run (any_ops S U T) cs (AnySerial (SerialTransport s)) =
     map_prod id (AnySerial \<circ> SerialTransport) (io_run S cs s)
   \<and> io_run (any_ops S U T) cs (AnyUnix (UnixSocketTransport u)) =
     map_prod id (AnyUnix \<circ> UnixSocketTransport) (io_run U cs u)
   \<and> io_run (any_ops S U T) cs (AnyTcp (TcpTransport t)) =
     map_prod id (AnyTcp \<circ> TcpTransport) (io_run T cs t)"
  by (simp add: any_transport_same)

text \<open>
  Under the default policy the floor of the wait before retry n+1 is exactly 20 ms doubled n times
  and capped at 500 ms: the single-precision arithmetic loses nothing.
\<close>
theorem default_backoff_schedule:
  "unat ((next_delay default_policy ^^ n) (backoff_ms_min default_policy)) = min (20 * 2 ^ n) 500"
proof (induction n)
  case 0
  show ?case by (simp add: default_policy_def)
next
  case (Suc n)
  then have "unat ((next_delay default_policy ^^ n) (backoff_ms_min default_policy)) \<le> 500" by simp
  from next_delay_default [OF this] Suc show ?case by (simp add: min_def)
qed

text \<open>
  With a random source that respects its range, the wait before a retry lies between the current
  floor and the floor plus the difference of the policy bounds, without overflow for any values; a
  policy whose bounds are equal or inverted has no jitter, and the next floor never exceeds the
  cap.
\<close>
theorem backoff_wait_bounds:
  assumes "\<And>s. r s \<le> s"
  shows "from_millis (unat delay) \<le> backoff_wait delay (jitter_ms r policy)
    \<and> backoff_wait delay (jitter_ms r policy)
        \<le> from_millis (unat delay + (unat (backoff_ms_max policy) - unat (backoff_ms_min policy)))
    \<and> (backoff_ms_max policy \<le> backoff_ms_min policy \<longrightarrow> jitter_ms r policy = 0)
    \<and> next_delay policy delay \<le> backoff_cap_ms policy"
proof -
  have "jitter_ms r policy = 0" if "backoff_ms_max policy \<le> backoff_ms_min policy"
    using that jitter_bounded [OF assms, of policy] by (simp add: word_le_nat_alt unat_eq_0)
  with jitter_bounded [OF assms, of policy] next_delay_capped [of policy delay] show ?thesis
    by (simp add: backoff_wait_sum)
qed

text \<open>
  Distinct wire error codes become distinct client errors, unknown codes included, and only EBUSY
  becomes a retryable one; copying an error into the attempt log keeps whether it is retryable and
  changes nothing but an I/O error, and copying twice is copying once.
\<close>
theorem wire_errors_faithful:
  "(from_wire c = from_wire c' \<longleftrightarrow> c = c') \<and> (is_retryable (from_wire c) \<longleftrightarrow> c = EBusy)
    \<and> is_retryable (clone_kind e) = is_retryable e \<and> (clone_kind e = e \<longleftrightarrow> (\<forall>s. e \<noteq> Io s))
    \<and> clone_kind (clone_kind e) = clone_kind e"
  by (simp add: clone_kind_eq_iff)

text \<open>
  A policy with no attempts transmits nothing and returns the error after the loop, which the
  source calls unreachable; with at least one attempt an error is always that of the last
  transmission, and a device that lost its configuration ends the call at once, without the
  recovery that tx performs.
\<close>
theorem zero_attempts_reach_the_end:
  assumes "\<not> d_closed d"
  shows "(max_attempts policy = 0 \<longrightarrow> tx_with_retry P data policy d w =
      (Err (Other ''tx_with_retry exited without result''), d, w))
    \<and> (\<forall>e d' w'. max_attempts policy \<noteq> 0 \<longrightarrow> tx_with_retry P data policy d w = (Err e, d', w') \<longrightarrow>
        (\<exists>d1 w1. on_session (transmit P data (skip_cad policy) (per_attempt_timeout policy)) (mark_write w1 d1) w1
          = (Err e, d', w')))
    \<and> (\<forall>s1 w1. max_attempts policy \<noteq> 0 \<longrightarrow>
        transmit P data (skip_cad policy) (per_attempt_timeout policy) (d_session d) w = (Err NotConfigured, s1, w1) \<longrightarrow>
        tx_with_retry P data policy d w = (Err NotConfigured, d\<lparr>last_write_at := clock w, d_session := s1\<rparr>, w1))"
proof -
  have "\<exists>d1 w1. attempt_tx P data policy d1 w1 = (Err e, d', w')"
    if "max_attempts policy \<noteq> 0" "tx_with_retry P data policy d w = (Err e, d', w')" for e d' w'
  proof -
    have "retry_loop P data policy (unat (max_attempts policy)) 1 (backoff_ms_min policy) [] d w = (Err e, d', w')"
      using that(2) assms by (simp add: tx_with_retry_def check_open_def)
    from retry_loop_last [OF this] that(1) show ?thesis by (simp add: unat_gt_0)
  qed
  moreover have "tx_with_retry P data policy d w =
      (Err (Other ''tx_with_retry exited without result''), d, w)" if "max_attempts policy = 0"
    using that assms by (simp add: tx_with_retry_def check_open_def)
  ultimately show ?thesis
    using tx_with_retry_not_configured [OF assms, of policy P data w] by (simp add: word_gt_0)
qed

text \<open>
  However the handshake of finalize ends, the session it spawned is neither closed nor is its
  reader stopped by it: on a line that stays silent the reader task is still running when the
  error is returned.
\<close>
theorem failed_handshake_leaves_reader:
  assumes "probe P B w opts timeout = (r, s, w')"
  shows "\<not> closed s \<and> reader_handle s \<and> (arrivals w = [] \<longrightarrow> reader_running s)"
  using probe_alone [OF assms] by (simp add: left_alone_def spawn_def)

end
